(* ===== verification/Prelude.thy ===== *)
theory Prelude
  imports Main "HOL-Library.Word" "HOL-Library.Multiset"
begin

unbundle bit_operations_syntax

text \<open>
  What every other theory of the development shares: the fault values that stand for undefined
  behaviour, sequencing of fallible operations, the functions of the Rust standard library on
  \<open>usize\<close> that the source calls (\<open>trailing_zeros\<close>, \<open>next_power_of_two\<close>, ranges), and the
  arithmetic of words, powers of two and blocks of a circular buffer.

  A \<open>usize\<close> is a \<open>'w word\<close>; the two targets the source supports are the instances of width
  64 and 32 (\<open>target_pointer_width\<close>). Definitions are generic in \<open>'w\<close>, and dispatch on
  \<open>LENGTH('w)\<close> where the source dispatches with \<open>cfg(target_pointer_width)\<close>.
\<close>

named_theorems word_nat "rules that read a word expression as a natural number"

section \<open>Faults and sequencing\<close>

text \<open>
  The unsafe code of the crate can go wrong in ways no Rust value expresses. A fault is one of
  them: a read of a cell that holds no live value, a write through a pointer to a receiver that
  is gone, an index outside the buffer, or a loop that does not end.
\<close>

datatype fault = UninitRead | DanglingReceiver | OutOfBounds | Diverges

definition bind_sum :: "'e + 'a \<Rightarrow> ('a \<Rightarrow> 'e + 'b) \<Rightarrow> 'e + 'b" where
  "bind_sum m f = (case m of Inl e \<Rightarrow> Inl e | Inr a \<Rightarrow> f a)"

lemma bind_sum_simps [simp]:
  "bind_sum (Inl e) f = Inl e"
  "bind_sum (Inr a) f = f a"
  by (simp_all add: bind_sum_def)

lemma bind_sum_eq_Inr:
  "bind_sum m f = Inr b \<longleftrightarrow> (\<exists>a. m = Inr a \<and> f a = Inr b)"
  by (cases m) auto

lemma bind_sum_eq_InrE [elim!]:
  assumes "bind_sum m f = Inr b"
  obtains a where "m = Inr a" and "f a = Inr b"
  using assms by (auto simp: bind_sum_eq_Inr)

section \<open>The standard library on usize\<close>

text \<open>\<open>usize::trailing_zeros\<close>: the number of zero bits below the lowest set bit.\<close>

definition trailing_zeros :: "'w::len word \<Rightarrow> nat" where
  "trailing_zeros w = length (takeWhile (\<lambda>i. \<not> bit w i) [0..<LENGTH('w)])"

text \<open>
  \<open>usize::next_power_of_two\<close>: the smallest power of two that is at least the argument. (Above
  the largest one a release build wraps to 0, as the power \<open>2 ^ LENGTH('w)\<close> does here.)
\<close>

definition next_power_of_two :: "'w::len word \<Rightarrow> 'w word" where
  "next_power_of_two w = 2 ^ length (takeWhile (\<lambda>k. 2 ^ k < unat w) [0..<LENGTH('w)])"

text \<open>The indices a Rust \<open>start..end\<close> iterates over: none when \<open>end\<close> is not above \<open>start\<close>.\<close>

definition range_indices :: "'w::len word \<Rightarrow> 'w word \<Rightarrow> 'w word list" where
  "range_indices s e = map of_nat [unat s..<unat e]"

lemma takeWhile_upt_length:
  assumes "k \<le> n" and "\<And>i. i < k \<Longrightarrow> P i" and "k < n \<Longrightarrow> \<not> P k"
  shows "length (takeWhile P [0..<n]) = k"
proof -
  have "[0..<n] = [0..<k] @ [k..<n]"
    using assms(1) by (metis le0 le_add_diff_inverse upt_add_eq_append)
  moreover have "takeWhile P [k..<n] = []"
    using assms(3) by (cases "k < n") (simp_all add: upt_rec)
  ultimately show ?thesis
    using assms(2) by (simp add: takeWhile_append)
qed

lemma trailing_zeros_exp [simp]:
  "k < LENGTH('w::len) \<Longrightarrow> trailing_zeros (2 ^ k :: 'w word) = k"
  unfolding trailing_zeros_def by (rule takeWhile_upt_length) (auto simp: bit_exp_iff)

lemma unat_exp [word_nat]:
  "k < LENGTH('w::len) \<Longrightarrow> unat (2 ^ k :: 'w word) = 2 ^ k"
  using unat_of_nat [of "2 ^ k", where 'a = 'w] by simp

lemma next_power_of_two_exp:
  assumes "k < LENGTH('w::len)"
  shows "next_power_of_two (2 ^ k :: 'w word) = 2 ^ k"
proof -
  have "length (takeWhile (\<lambda>j. 2 ^ j < unat (2 ^ k :: 'w word)) [0..<LENGTH('w)]) = k"
    by (rule takeWhile_upt_length) (use assms in \<open>auto simp: word_nat\<close>)
  then show ?thesis by (simp add: next_power_of_two_def)
qed

lemma next_power_of_two_fixed:
  assumes "next_power_of_two (w :: 'w::len word) = w" and "w \<noteq> 0"
  shows "\<exists>k < LENGTH('w). w = 2 ^ k"
proof -
  define k where "k = length (takeWhile (\<lambda>k. 2 ^ k < unat w) [0..<LENGTH('w)])"
  have w: "w = 2 ^ k" using assms(1) by (simp add: next_power_of_two_def k_def)
  have "k \<le> LENGTH('w)"
    unfolding k_def using length_takeWhile_le [of _ "[0..<LENGTH('w)]"] by simp
  moreover have "k \<noteq> LENGTH('w)"
    using w assms(2) by (metis exp_eq_zero_iff order_refl)
  ultimately have "k < LENGTH('w)" by simp
  with w show ?thesis by blast
qed

lemma range_indices_empty [simp]: "e \<le> s \<Longrightarrow> range_indices s e = []"
  by (simp add: range_indices_def word_le_nat_alt)

lemma length_range_indices [simp]: "length (range_indices s e) = unat e - unat s"
  by (simp add: range_indices_def)

section \<open>Bits of words as arithmetic\<close>

lemma unat_drop_bit [word_nat]: "unat (drop_bit n w) = unat w div 2 ^ n"
  by (rule trans [OF unat_drop_bit_eq drop_bit_eq_div])

lemma unat_and_mask [word_nat]: "unat (w AND mask n) = unat w mod 2 ^ n"
  unfolding take_bit_eq_mask [symmetric]
  by (rule trans [OF unsigned_take_bit_eq take_bit_eq_mod])

lemma exp_minus_1_mask: "2 ^ k - 1 = (mask k :: 'w::len word)"
  by (simp add: mask_eq_exp_minus_1)

lemma unat_and_exp_minus_1 [word_nat]:
  "unat (w AND (2 ^ k - 1)) = unat w mod 2 ^ k"
  by (simp add: exp_minus_1_mask word_nat)

lemma and_exp_minus_1_eq_0_iff:
  "w AND (2 ^ k - 1) = 0 \<longleftrightarrow> 2 ^ k dvd unat w"
  by (metis mod_eq_0_iff_dvd unat_and_exp_minus_1 unat_eq_0)

lemma push_bit_of_nat_eq: "push_bit n (word_of_nat m :: 'w::len word) = word_of_nat (m * 2 ^ n)"
  by (simp add: push_bit_eq_mult)

lemma unat_plus_1:
  assumes "unat (w :: 'w::len word) < unat (v :: 'w word)"
  shows "unat (w + 1) = Suc (unat w)"
proof -
  have "unat v < 2 ^ LENGTH('w)" by (rule unsigned_less)
  then have "Suc (unat w) < 2 ^ LENGTH('w)" using assms by linarith
  then show ?thesis by (simp add: unat_word_ariths)
qed

section \<open>Blocks of a circular buffer\<close>

text \<open>
  A counter that only grows, read modulo \<open>n\<close>, walks round a buffer of \<open>n\<close> cells; \<open>n\<close> is
  split into blocks of \<open>b\<close> cells (the regions). \<open>block_start\<close> rounds a counter down to the
  start of its block.
\<close>

definition block_start :: "nat \<Rightarrow> nat \<Rightarrow> nat" where
  "block_start b c = c - c mod b"

lemma block_start_le: "block_start b c \<le> c"
  by (simp add: block_start_def)

lemma block_start_dvd: "b dvd block_start b c"
  by (simp add: block_start_def dvd_minus_mod)

lemma block_start_gt: "0 < b \<Longrightarrow> c < block_start b c + b"
  using mod_less_divisor [of b c] mod_less_eq_dividend [of c b]
  unfolding block_start_def by linarith

lemma mod_eq_lap:
  assumes "(a::nat) mod n = c mod n" and "a < c" 
  shows "a + n \<le> c"
  using assms by (metis add.commute less_imp_le_nat mod_eq_dvd_iff_nat nat_dvd_not_less
      not_le zero_less_diff le_diff_conv2 dvd_imp_le)

lemma mod_window_shift:
  "e \<le> n \<Longrightarrow> map (\<lambda>i. i mod n) [n * q + s..<n * q + e] = [s..<e]"
  by (rule nth_equalityI) (simp_all add: add.assoc)

text \<open>
  At most \<open>n\<close> consecutive counters, read modulo \<open>n\<close>: one run of cells, or the end of the buffer
  followed by its beginning.
\<close>

lemma mod_window:
  fixes a b n :: nat
  assumes "a < b" "b \<le> a + n"
  shows "map (\<lambda>i. i mod n) [a..<b] =
    (if a mod n < b mod n then [a mod n..<b mod n] else [a mod n..<n] @ [0..<b mod n])"
proof -
  define q s where "q = a div n" and "s = a mod n"
  have a: "a = n * q + s" and s: "s < n" using assms by (simp_all add: q_def s_def)
  show ?thesis
  proof (cases "b < n * q + n")
    case True
    then have "b = n * q + (b - n * q)" and lt: "b - n * q < n" using assms a by linarith+
    then have "b mod n = b - n * q"
      by (metis mod_less mod_mult_self4)
    moreover have "s < b - n * q" using assms a by linarith
    ultimately show ?thesis
      using mod_window_shift [of "b - n * q" n q s] a \<open>b = n * q + (b - n * q)\<close> lt
      by (simp flip: s_def)
  next
    case False
    define e where "e = b - (n * q + n)"
    have b: "b = n * Suc q + e" and e: "e \<le> s" using False assms a by (simp_all add: e_def)
    have "b mod n = e" using e s unfolding b by (simp only: mod_mult_self4 mod_less le_less_trans)
    have "[a..<b] = [n * q + s..<n * q + n] @ [n * Suc q + 0..<n * Suc q + e]"
      using upt_add_eq_append [of "n * q + s" "n * q + n" e] s by (simp add: a b algebra_simps)
    then have "map (\<lambda>i. i mod n) [a..<b] = [s..<n] @ [0..<e]"
      using e s by (simp only: map_append mod_window_shift order_refl less_imp_le [OF le_less_trans])
    then show ?thesis using \<open>b mod n = e\<close> e by (simp flip: s_def)
  qed
qed

lemma mod_window_distinct:
  fixes a b n :: nat
  assumes "b \<le> a + n" "i \<in> {a..<b}" "j \<in> {a..<b}" "i mod n = j mod n"
  shows "i = j"
proof (rule ccontr)
  assume "i \<noteq> j"
  then consider "i < j" | "j < i" by linarith
  then show False
    using assms mod_eq_lap [of i n j] mod_eq_lap [of j n i] by cases auto
qed

lemma map_nth_upt: "n \<le> length xs \<Longrightarrow> map ((!) xs) [m..<n] = take (n - m) (drop m xs)"
  by (rule nth_equalityI) auto

lemma nth_upd_other: "i \<noteq> j \<Longrightarrow> xs[j := x] ! i = xs ! i"
  by simp

lemma mod_diff_same_div:
  assumes "(a::nat) div w = b div w" "a \<le> b"
  shows "b mod w = a mod w + (b - a)"
proof -
  have "w * (b div w) + a mod w = a" using mult_div_mod_eq [of w a] assms(1) by simp
  moreover have "w * (b div w) + b mod w = b" by (rule mult_div_mod_eq)
  ultimately show ?thesis using assms(2) by linarith
qed

section \<open>Simulation\<close>

text \<open>
  A system seen as a smaller one: while it is in a good state, each of its steps looks like a step of
  the other system, or like none.
\<close>

locale simulation =
  fixes step :: "'s \<Rightarrow> 's \<Rightarrow> bool"
    and view_step :: "'a \<Rightarrow> 'a \<Rightarrow> bool"
    and view :: "'s \<Rightarrow> 'a"
    and good :: "'s \<Rightarrow> bool"
  assumes keeps: "step s s' \<Longrightarrow> good s \<Longrightarrow> good s'"
    and simulates: "step s s' \<Longrightarrow> good s \<Longrightarrow> view_step (view s) (view s') \<or> view s' = view s"
begin

lemma run_good: "step\<^sup>*\<^sup>* s s' \<Longrightarrow> good s \<Longrightarrow> good s'"
  by (induction rule: rtranclp_induct) (auto intro: keeps)

lemma run_view: "step\<^sup>*\<^sup>* s s' \<Longrightarrow> good s \<Longrightarrow> view_step\<^sup>*\<^sup>* (view s) (view s')"
proof (induction rule: rtranclp_induct)
  case (step t t')
  then have "view_step (view t) (view t') \<or> view t' = view t" using run_good simulates by blast
  with step show ?case by (metis rtranclp.rtrancl_into_rtrancl)
qed simp

end

end
