(* ===== verification/Helpers.thy ===== *)
theory Helpers
  imports Prelude
begin

unbundle bit_operations_syntax

text \<open>
  The constants of \<open>lib.rs\<close> and \<open>queue.rs\<close> and the index arithmetic of \<open>helpers.rs\<close>, generic
  in the width of \<open>usize\<close>. The buffer length \<open>N\<close>, a const generic of the source, is an argument.
  The second part reads each helper as arithmetic on natural numbers for a buffer of \<open>2 ^ k\<close>
  cells on the 64-bit target; the last part does so for the 32-bit target, where the regions of
  the occupancy word turn out to overlap.
\<close>

section \<open>Constants\<close>

definition MIN_BUFFER_LEN :: "'w::len word" where
  "MIN_BUFFER_LEN = 64"

definition MAX_BUFFER_LEN :: "'w::len word" where
  "MAX_BUFFER_LEN = (if LENGTH('w) = 64 then 0xFFFFFFFF else 0xFFFF)"

definition PHASE :: "'w::len word" where
  "PHASE = 1"

definition INDEX_SHIFT :: "'w::len itself \<Rightarrow> nat" where
  "INDEX_SHIFT _ = (if LENGTH('w) = 64 then 32 else 16)"

definition REGION_MASK :: "'w::len word" where
  "REGION_MASK = 0b11111111"

definition REGION_COUNT :: "'w::len word" where
  "REGION_COUNT = (if LENGTH('w) = 64 then 8 else 4)"

section \<open>Index helpers\<close>

definition region_size :: "'w::len word \<Rightarrow> 'w word" where
  "region_size N = drop_bit (if LENGTH('w) = 64 then 3 else 2) N"

definition region_shift :: "'w::len word \<Rightarrow> nat" where
  "region_shift N = trailing_zeros N - (if LENGTH('w) = 64 then 3 else 2)"

definition current_region :: "'w::len word \<Rightarrow> 'w word \<Rightarrow> 'w word" where
  "current_region N index = drop_bit (region_shift N) index"

definition region_mask :: "'w::len word \<Rightarrow> 'w word \<Rightarrow> 'w word" where
  "region_mask N index =
     push_bit (unat (push_bit (trailing_zeros (REGION_COUNT :: 'w word)) (current_region N index)))
       REGION_MASK"

definition slot_index :: "'w::len word \<Rightarrow> 'w word \<Rightarrow> 'w word" where
  "slot_index N slot = drop_bit (INDEX_SHIFT TYPE('w)) slot AND (N - 1)"

definition one_shifted :: "'w::len word \<Rightarrow> 'w word \<Rightarrow> 'w word" where
  "one_shifted N index =
     push_bit (unat (push_bit (trailing_zeros (REGION_COUNT :: 'w word))
                       (drop_bit (region_shift N) index))) 1"

section \<open>The helpers as arithmetic, 64-bit target\<close>

text \<open>
  \<open>region k i\<close> is the number of the region that cell \<open>i\<close> of a buffer of \<open>2 ^ k\<close> cells lies in.
\<close>

definition region :: "nat \<Rightarrow> nat \<Rightarrow> nat" where
  "region k i = i mod 2 ^ k div 2 ^ (k - 3)"

lemma region_less [simp]:
  assumes "3 \<le> k"
  shows "region k i < 8"
proof -
  obtain j where "k = 3 + j" using assms le_Suc_ex by blast
  then have "(2::nat) ^ k = 8 * 2 ^ (k - 3)" by (simp add: power_add)
  moreover have "i mod 2 ^ k < 2 ^ k" by simp
  ultimately show ?thesis
    unfolding region_def by (simp add: less_mult_imp_div_less)
qed

lemma REGION_COUNT_64: "trailing_zeros (REGION_COUNT :: 64 word) = 3"
  using trailing_zeros_exp [where 'w = 64, of 3] by (simp add: REGION_COUNT_def)

lemma region_size_64 [simp]:
  assumes "3 \<le> k" "k < 64"
  shows "region_size (2 ^ k :: 64 word) = 2 ^ (k - 3)"
proof (rule word_unat_eq_iff [THEN iffD2])
  show "unat (region_size (2 ^ k :: 64 word)) = unat (2 ^ (k - 3) :: 64 word)"
    using assms by (simp add: region_size_def word_nat power_diff)
qed

lemma region_shift_64 [simp]: "k < 64 \<Longrightarrow> region_shift (2 ^ k :: 64 word) = k - 3"
  by (simp add: region_shift_def)

lemma unat_current_region_64 [word_nat]:
  "k < 64 \<Longrightarrow> unat (current_region (2 ^ k :: 64 word) i) = unat i div 2 ^ (k - 3)"
  by (simp add: current_region_def word_nat)

lemma region_offset_64:
  assumes "3 \<le> k" "k < 64" "unat i < 2 ^ k"
  shows "unat (push_bit 3 (drop_bit (k - 3) i) :: 64 word) = 8 * region k (unat i)"
proof -
  have "unat (drop_bit (k - 3) i) = region k (unat i)"
    using assms(3) by (simp add: word_nat region_def)
  moreover have "region k (unat i) < 8" using assms(1) by (rule region_less)
  moreover have "push_bit 3 (drop_bit (k - 3) i) = word_of_nat (8 * unat (drop_bit (k - 3) i))"
    by (simp add: push_bit_eq_mult mult.commute)
  ultimately have "push_bit 3 (drop_bit (k - 3) i) = (word_of_nat (8 * region k (unat i)) :: 64 word)"
    by simp
  with \<open>region k (unat i) < 8\<close> show ?thesis
    by (simp only: unat_of_nat) simp
qed

lemma region_mask_64:
  assumes "3 \<le> k" "k < 64" "unat i < 2 ^ k"
  shows "region_mask (2 ^ k :: 64 word) i = push_bit (8 * region k (unat i)) 255"
  using region_offset_64 [OF assms] assms
  by (simp add: region_mask_def current_region_def REGION_COUNT_64 REGION_MASK_def)

lemma one_shifted_64:
  assumes "3 \<le> k" "k < 64" "unat i < 2 ^ k"
  shows "one_shifted (2 ^ k :: 64 word) i = word_of_nat (256 ^ region k (unat i))"
proof -
  have "one_shifted (2 ^ k :: 64 word) i = push_bit (8 * region k (unat i)) 1"
    using region_offset_64 [OF assms] assms
    by (simp add: one_shifted_def REGION_COUNT_64)
  also have "\<dots> = word_of_nat ((2 ^ 8) ^ region k (unat i))"
    by (simp add: push_bit_eq_mult power_mult)
  finally show ?thesis by simp
qed

lemma unat_slot_index_64 [word_nat]:
  "unat (slot_index (2 ^ k) s :: 64 word) = unat s div 2 ^ 32 mod 2 ^ k"
  by (simp add: slot_index_def INDEX_SHIFT_def word_nat)

lemma REGION_MASK_eq_mask: "(255 :: 'w::len word) = mask 8"
  by (simp add: mask_eq_exp_minus_1)

lemma bit_byte_mask:
  "bit (push_bit m (255 :: 'w::len word)) n \<longleftrightarrow> m \<le> n \<and> n < m + 8 \<and> n < LENGTH('w)"
  unfolding REGION_MASK_eq_mask
  by (auto simp: bit_push_bit_iff bit_mask_iff possible_bit_word)

text \<open>
  On the 64-bit target the masks of two regions never share a bit, and the masks of two
  cells of the same region are equal: every region has a byte of the occupancy word to itself.
\<close>

theorem region_masks_disjoint_64:
  fixes i j :: "64 word"
  assumes "3 \<le> k" "k < 64" "unat i < 2 ^ k" "unat j < 2 ^ k"
  shows "region_mask (2 ^ k) i AND region_mask (2 ^ k) j =
    (if region k (unat i) = region k (unat j) then region_mask (2 ^ k) i else 0)"
proof (cases "region k (unat i) = region k (unat j)")
  case True
  then show ?thesis using assms by (simp add: region_mask_64)
next
  case False
  have "push_bit (8 * region k (unat i)) 255 AND push_bit (8 * region k (unat j)) 255 = (0 :: 64 word)"
    by (rule bit_eqI) (use False in \<open>auto simp: bit_and_iff bit_byte_mask\<close>)
  with False show ?thesis using assms by (simp add: region_mask_64)
qed

theorem region_masks_disjoint_64_witness:
  "region_mask (64 :: 64 word) 7 AND region_mask 64 8 = 0"
  using region_masks_disjoint_64 [of 6 7 8] by (simp add: region_def)

section \<open>The helpers as arithmetic, 32-bit target\<close>

text \<open>
  On the 32-bit target there are four regions, and \<open>REGION_COUNT.trailing_zeros()\<close> is 2: the
  region number is shifted by 2, so regions are four bits apart while the mask of a region is
  eight bits wide.
\<close>

lemma REGION_COUNT_32: "trailing_zeros (REGION_COUNT :: 32 word) = 2"
  using trailing_zeros_exp [where 'w = 32, of 2] by (simp add: REGION_COUNT_def)

lemma region_offset_32:
  assumes "2 \<le> k" "k < 32" "unat (i :: 32 word) < 2 ^ k"
  shows "unat (push_bit 2 (drop_bit (k - 2) i)) = 4 * (unat i div 2 ^ (k - 2))"
proof -
  obtain j where "k = 2 + j" using assms(1) le_Suc_ex by blast
  then have "unat i div 2 ^ (k - 2) < 4"
    using assms(3) by (simp add: power_add less_mult_imp_div_less)
  moreover have "push_bit 2 (drop_bit (k - 2) i) = word_of_nat (4 * unat (drop_bit (k - 2) i))"
    by (simp add: push_bit_eq_mult mult.commute)
  ultimately show ?thesis
    by (simp only: unat_of_nat) (simp add: word_nat)
qed

lemma region_mask_32:
  assumes "2 \<le> k" "k < 32" "unat i < 2 ^ k"
  shows "region_mask (2 ^ k :: 32 word) i = push_bit (4 * (unat i div 2 ^ (k - 2))) 255"
  using region_offset_32 [OF assms] assms
  by (simp add: region_mask_def current_region_def region_shift_def REGION_COUNT_32 REGION_MASK_def)

text \<open>
  On the 32-bit target the masks of neighbouring regions share four bits, for every buffer
  size: the comment on \<open>region_mask\<close> (eight bits per region) does not hold there.
\<close>

theorem region_masks_overlap_32:
  fixes i j :: "32 word"
  assumes "2 \<le> k" "k < 32" "unat i < 2 ^ k" "unat j < 2 ^ k"
    and "unat j div 2 ^ (k - 2) = Suc (unat i div 2 ^ (k - 2))"
  shows "region_mask (2 ^ k) i AND region_mask (2 ^ k) j \<noteq> 0"
proof -
  define r where "r = unat i div 2 ^ (k - 2)"
  obtain m where "k = 2 + m" using assms(1) le_Suc_ex by blast
  then have "r < 4" unfolding r_def
    using assms(3) by (simp add: power_add less_mult_imp_div_less)
  moreover have "r \<noteq> 3"
    using \<open>k = 2 + m\<close> assms(4,5) unfolding r_def
    by (auto simp: power_add dest: less_mult_imp_div_less)
  ultimately have "bit (push_bit (4 * r) 255 AND push_bit (4 * Suc r) 255 :: 32 word) (4 * r + 4)"
    by (simp add: bit_and_iff bit_byte_mask)
  then have "push_bit (4 * r) 255 AND push_bit (4 * Suc r) 255 \<noteq> (0 :: 32 word)"
    by (metis bit_0_eq bot_apply bot_bool_def)
  then show ?thesis
    using assms by (simp add: region_mask_32 r_def)
qed

theorem region_masks_overlap_32_witness:
  "region_mask (64 :: 32 word) 0 AND region_mask 64 16 \<noteq> 0"
  using region_masks_overlap_32 [of 6 0 16] by simp

end
