(* ===== verification/Occupancy.thy ===== *)
theory Occupancy
  imports Helpers
begin

unbundle bit_operations_syntax

text \<open>
  The occupancy word of a queue: one counter of running batches per region of the buffer, packed
  into a \<open>usize\<close>. The locale states what the queue relies on (adding a region, removing it,
  testing it, and recognising the last one); its lemmas speak of the multiset of regions that hold
  a batch. The interpretation discharges the laws for the word arithmetic of the 64-bit target:
  the helpers \<open>one_shifted\<close> and \<open>region_mask\<close> with wrapping addition and subtraction.
\<close>

section \<open>Digits\<close>

text \<open>The packed counters as a number to base 256.\<close>

definition digits :: "nat \<Rightarrow> (nat \<Rightarrow> nat) \<Rightarrow> nat" where
  "digits n c = (\<Sum>s<n. c s * 256 ^ s)"

lemma digits_Suc: "digits (Suc n) c = c 0 + 256 * digits n (\<lambda>s. c (Suc s))"
  unfolding digits_def sum.lessThan_Suc_shift by (simp add: sum_distrib_left ac_simps)

lemma digits_less: "(\<And>s. s < n \<Longrightarrow> c s < 256) \<Longrightarrow> digits n c < 256 ^ n"
proof (induction n arbitrary: c)
  case 0
  then show ?case by (simp add: digits_def)
next
  case (Suc n)
  have "digits n (\<lambda>s. c (Suc s)) < 256 ^ n" using Suc.prems by (intro Suc.IH) simp
  moreover have "c 0 < 256" using Suc.prems by simp
  ultimately show ?case by (simp add: digits_Suc)
qed

lemma digit:
  "(\<And>s. s < n \<Longrightarrow> c s < 256) \<Longrightarrow> r < n \<Longrightarrow> digits n c div 256 ^ r mod 256 = c r"
proof (induction n arbitrary: c r)
  case 0
  then show ?case by simp
next
  case (Suc n)
  have c0: "c 0 < 256" using Suc.prems by simp
  show ?case
  proof (cases r)
    case 0
    then show ?thesis using c0 by (simp add: digits_Suc)
  next
    case (Suc q)
    have "digits (Suc n) c div 256 ^ r = digits n (\<lambda>s. c (Suc s)) div 256 ^ q"
      using c0 by (simp add: digits_Suc Suc div_mult2_eq)
    also have "\<dots> mod 256 = c (Suc q)"
      using Suc.prems Suc by (intro Suc.IH) auto
    finally show ?thesis using Suc by simp
  qed
qed

lemma digits_cong: "(\<And>s. s < n \<Longrightarrow> c s = d s) \<Longrightarrow> digits n c = digits n d"
  unfolding digits_def by (rule sum.cong) auto

lemma digits_single: "r < n \<Longrightarrow> digits n (\<lambda>s. if s = r then 1 else 0) = 256 ^ r"
  unfolding digits_def by (simp add: if_distrib [of "\<lambda>x. x * _"] cong: if_cong)

lemma digits_inject:
  assumes "\<And>s. s < n \<Longrightarrow> c s < 256" "\<And>s. s < n \<Longrightarrow> d s < 256" "digits n c = digits n d" "r < n"
  shows "c r = d r"
  using digit [of n c r] digit [of n d r] assms by metis

lemma digits_upd: "r < n \<Longrightarrow> digits n (c(r := Suc (c r))) = digits n c + 256 ^ r"
proof -
  assume r: "r < n"
  have "digits n (c(r := Suc (c r))) = (\<Sum>s<n. c s * 256 ^ s + (if s = r then 256 ^ s else 0))"
    unfolding digits_def by (rule sum.cong) auto
  also have "\<dots> = digits n c + 256 ^ r"
    using r by (simp add: sum.distrib digits_def)
  finally show ?thesis .
qed

section \<open>The contract of the occupancy word\<close>

text \<open>
  \<open>valid i\<close>: \<open>i\<close> is a cell of the buffer; \<open>reg i\<close>: its region. The word \<open>enc c\<close> packs the
  counters \<open>c\<close>. The test of a region and the recognition of the last batch are exact as long as
  every counter is below \<open>cap\<close>.
\<close>

locale regional_occupancy =
  fixes valid :: "'i \<Rightarrow> bool"
    and reg :: "'i \<Rightarrow> nat"
    and regions :: nat
    and cap :: nat
    and enc :: "(nat \<Rightarrow> nat) \<Rightarrow> 'o"
    and occupy :: "'i \<Rightarrow> 'o \<Rightarrow> 'o"
    and deoccupy :: "'i \<Rightarrow> 'o \<Rightarrow> 'o"
    and is_free :: "'i \<Rightarrow> 'o \<Rightarrow> bool"
    and is_last :: "'i \<Rightarrow> 'o \<Rightarrow> bool"
  assumes reg_less: "valid i \<Longrightarrow> reg i < regions"
    and occupy_enc: "valid i \<Longrightarrow> occupy i (enc c) = enc (c(reg i := Suc (c (reg i))))"
    and deoccupy_enc: "valid i \<Longrightarrow> deoccupy i (enc (c(reg i := Suc (c (reg i))))) = enc c"
    and is_free_enc: "valid i \<Longrightarrow> (\<And>s. s < regions \<Longrightarrow> c s < cap) \<Longrightarrow>
      is_free i (enc c) \<longleftrightarrow> c (reg i) = 0"
    and is_last_enc: "valid i \<Longrightarrow> (\<And>s. s < regions \<Longrightarrow> c s < cap) \<Longrightarrow>
      is_last i (enc c) \<longleftrightarrow> (\<forall>s<regions. c s = (if s = reg i then 1 else 0))"
begin

text \<open>The word for a multiset of regions: one entry per running batch.\<close>

lemma count_add: "count (add_mset r M) = (count M)(r := Suc (count M r))"
  by (rule ext) simp

lemma occupy_mset: "valid i \<Longrightarrow> occupy i (enc (count M)) = enc (count (add_mset (reg i) M))"
  by (simp add: occupy_enc count_add)

lemma deoccupy_mset:
  assumes "valid i" and "reg i \<in># M"
  shows "deoccupy i (enc (count M)) = enc (count (M - {#reg i#}))"
proof -
  obtain M' where "M = add_mset (reg i) M'" using assms(2) by (meson multi_member_split)
  then show ?thesis using deoccupy_enc [OF assms(1), of "count M'"] by (simp only: count_add) simp
qed

lemma is_free_mset:
  "valid i \<Longrightarrow> (\<And>s. s < regions \<Longrightarrow> count M s < cap) \<Longrightarrow>
    is_free i (enc (count M)) \<longleftrightarrow> reg i \<notin># M"
  by (simp add: is_free_enc count_eq_zero_iff)

lemma is_last_mset:
  assumes "valid i" and "\<And>s. s < regions \<Longrightarrow> count M s < cap"
    and "\<And>r. r \<in># M \<Longrightarrow> r < regions"
  shows "is_last i (enc (count M)) \<longleftrightarrow> M = {#reg i#}"
proof
  assume "is_last i (enc (count M))"
  then have c: "\<forall>s<regions. count M s = (if s = reg i then 1 else 0)"
    using assms(1,2) by (simp add: is_last_enc)
  show "M = {#reg i#}"
  proof (rule multiset_eqI)
    fix s
    show "count M s = count {#reg i#} s"
      using c assms(3) reg_less [OF assms(1)]
      by (cases "s < regions") (auto simp: not_in_iff [symmetric])
  qed
next
  assume "M = {#reg i#}"
  then show "is_last i (enc (count M))" using assms(1,2) by (simp add: is_last_enc)
qed

end

section \<open>The occupancy word of the 64-bit target\<close>

definition enc64 :: "(nat \<Rightarrow> nat) \<Rightarrow> 64 word" where
  "enc64 c = word_of_nat (digits 8 c)"

lemma enc64_zero [simp]: "enc64 (count {#}) = 0"
  by (simp add: enc64_def digits_def)

lemma unat_enc64: "(\<And>s. s < 8 \<Longrightarrow> c s < 256) \<Longrightarrow> unat (enc64 c) = digits 8 c"
  using digits_less [of 8 c] by (simp add: enc64_def unat_of_nat)

lemma byte_eq_0_iff:
  "(w :: 64 word) AND push_bit (8 * r) 255 = 0 \<longleftrightarrow> r < 8 \<longrightarrow> unat w div 256 ^ r mod 256 = 0"
proof -
  have "w AND push_bit (8 * r) 255 = push_bit (8 * r) (take_bit 8 (drop_bit (8 * r) w))"
    by (rule bit_eqI) (auto simp: bit_simps bit_byte_mask REGION_MASK_eq_mask)
  also have "\<dots> = 0 \<longleftrightarrow> r < 8 \<longrightarrow> take_bit 8 (drop_bit (8 * r) w) = 0"
  proof
    assume *: "push_bit (8 * r) (take_bit 8 (drop_bit (8 * r) w)) = 0"
    show "r < 8 \<longrightarrow> take_bit 8 (drop_bit (8 * r) w) = 0"
    proof
      assume "r < 8"
      then have "drop_bit (8 * r) (push_bit (8 * r) (take_bit 8 (drop_bit (8 * r) w)))
          = take_bit 8 (drop_bit (8 * r) w)"
        by (intro bit_eqI) (auto simp: bit_simps)
      with * show "take_bit 8 (drop_bit (8 * r) w) = 0" by simp
    qed
  next
    assume "r < 8 \<longrightarrow> take_bit 8 (drop_bit (8 * r) w) = 0"
    then show "push_bit (8 * r) (take_bit 8 (drop_bit (8 * r) w)) = 0"
      by (cases "r < 8") (simp_all add: push_bit_eq_mult exp_eq_0_imp_not_bit)
  qed
  also have "take_bit 8 (drop_bit (8 * r) w) = 0 \<longleftrightarrow> unat w div 256 ^ r mod 256 = 0"
  proof -
    have "unat (take_bit 8 (drop_bit (8 * r) w)) = unat w div (2 ^ 8) ^ r mod 2 ^ 8"
      by (simp only: take_bit_eq_mask unat_and_mask unat_drop_bit power_mult)
    then show ?thesis by (simp add: unat_eq_0 [symmetric] del: unat_eq_0)
  qed
  finally show ?thesis .
qed

interpretation occ64: regional_occupancy
  "\<lambda>i :: 64 word. 6 \<le> k \<and> k < 32 \<and> unat i < 2 ^ k"
  "\<lambda>i. region k (unat i)" 8 256 enc64
  "\<lambda>i w. w + one_shifted (2 ^ k) i"
  "\<lambda>i w. w - one_shifted (2 ^ k) i"
  "\<lambda>i w. w AND region_mask (2 ^ k) i = 0"
  "\<lambda>i w. w = one_shifted (2 ^ k) i" for k
proof (unfold_locales, goal_cases)
  case (1 i)
  then show ?case by simp
next
  case (2 i c)
  then show ?case
    by (simp add: one_shifted_64 enc64_def digits_upd)
next
  case (3 i c)
  then show ?case
    by (simp add: one_shifted_64 enc64_def digits_upd)
next
  case (4 i c)
  then show ?case
    using digit [of 8 c "region k (unat i)"]
    by (simp add: region_mask_64 byte_eq_0_iff unat_enc64)
next
  case (5 i c)
  define r where "r = region k (unat i)"
  have r: "r < 8" using 5 by (simp add: r_def)
  have "unat (word_of_nat (256 ^ r) :: 64 word) = 256 ^ r"
    unfolding unat_of_nat using power_strict_increasing [OF r, of "256 :: nat"] by simp
  moreover have "256 ^ r = digits 8 (\<lambda>s. if s = r then 1 else 0)"
    using r by (simp add: digits_single)
  ultimately have "enc64 c = word_of_nat (256 ^ r) \<longleftrightarrow> digits 8 c = digits 8 (\<lambda>s. if s = r then 1 else 0)"
    using 5(2) by (simp add: word_unat_eq_iff unat_enc64)
  also have "\<dots> \<longleftrightarrow> (\<forall>s<8. c s = (if s = r then 1 else 0))"
    using digits_inject [of 8 c "\<lambda>s. if s = r then 1 else 0"] 5(2)
    by (auto intro: digits_cong)
  finally show ?case using 5(1) by (simp add: one_shifted_64 r_def)
qed

end
