(* ===== verification/Slot.thy ===== *)
theory Slot
  imports Helpers
begin

unbundle bit_operations_syntax

text \<open>
  The slot word: a counter of the tasks written so far in the upper half, the phase flag in bit 0.
  The locale states what the batching protocol needs of it: adding one task, toggling the phase,
  comparing two phases, reading the counter and the cell it points at. The interpretation
  discharges this for the 64-bit target, where the counter has 32 bits and wraps around.
\<close>

section \<open>The contract of the slot word\<close>

text \<open>
  \<open>mk c p\<close> is the slot word after \<open>c\<close> tasks with phase \<open>p\<close>; the counter it holds is \<open>c\<close> modulo
  \<open>wrap\<close>, and the cell it points at is \<open>c\<close> modulo \<open>cells\<close>.
\<close>

locale slot_word =
  fixes valid :: bool
    and wrap :: nat
    and cells :: nat
    and mk :: "nat \<Rightarrow> bool \<Rightarrow> 's"
    and bump :: "'s \<Rightarrow> 's"
    and toggle :: "'s \<Rightarrow> 's"
    and same_phase :: "'s \<Rightarrow> 's \<Rightarrow> bool"
    and counter :: "'s \<Rightarrow> nat"
    and index :: "'s \<Rightarrow> nat"
  assumes bump_mk: "bump (mk c p) = mk (Suc c) p"
    and toggle_mk: "toggle (mk c p) = mk c (\<not> p)"
    and same_phase_mk: "same_phase (mk c p) (mk d q) \<longleftrightarrow> p = q"
    and counter_mk: "counter (mk c p) = c mod wrap"
    and index_mk: "valid \<Longrightarrow> index (mk c p) = c mod cells"
begin

lemma bump_pow: "(bump ^^ n) (mk c p) = mk (c + n) p"
  by (induction n) (simp_all add: bump_mk)

lemma toggle_toggle: "toggle (toggle (mk c p)) = mk c p"
  by (simp add: toggle_mk)

text \<open>
  The negotiation of a batch: its owner's slot and the shared slot agree on the phase exactly
  while nobody has toggled it.
\<close>

lemma toggle_opens: "\<not> same_phase (toggle (mk c p)) (mk d p)"
  by (simp add: toggle_mk same_phase_mk)

lemma bump_keeps_phase: "same_phase (bump (mk c p)) (mk d q) \<longleftrightarrow> p = q"
  by (simp add: bump_mk same_phase_mk)

lemma counter_distance:
  assumes "a \<le> b" and "b < a + wrap"
  shows "(counter (mk b q) + wrap - counter (mk a p)) mod wrap = b - a"
proof -
  have w: "0 < wrap" using assms by linarith
  then have le: "a mod wrap \<le> b mod wrap + wrap"
    using mod_less_divisor [OF w, of a] by linarith
  then have "int ((b mod wrap + wrap - a mod wrap) mod wrap)
      = (int b mod int wrap + int wrap - int a mod int wrap) mod int wrap"
    by (simp add: zmod_int)
  also have "\<dots> = (int b mod int wrap - int a mod int wrap + int wrap) mod int wrap"
    by (rule arg_cong [of _ _ "\<lambda>x. x mod int wrap"]) simp
  also have "\<dots> = (int b - int a) mod int wrap"
    by (simp only: mod_add_self2 mod_diff_eq)
  also have "\<dots> = int (b - a)"
    using assms by simp
  finally show ?thesis by (simp only: counter_mk of_nat_eq_iff)
qed

end

section \<open>The slot word of the 64-bit target\<close>

definition mk_slot :: "nat \<Rightarrow> bool \<Rightarrow> 64 word" where
  "mk_slot c p = word_of_nat (c * 2 ^ 32 + of_bool p)"

lemma two_halves_mod:
  "b < 2 ^ 32 \<Longrightarrow> (c * 2 ^ 32 + b) mod 2 ^ 64 = c mod 2 ^ 32 * 2 ^ 32 + (b :: nat)"
  using mod_mult2_eq [of "c * 2 ^ 32 + b" "2 ^ 32" "2 ^ 32"]
  by (simp add: mult.commute)

lemma unat_mk_slot: "unat (mk_slot c p) = c mod 2 ^ 32 * 2 ^ 32 + of_bool p"
  using two_halves_mod [of "of_bool p" c] by (simp add: mk_slot_def unat_of_nat del: of_nat_add)

lemma mk_slot_0: "mk_slot 0 False = 0" and mk_slot_PHASE: "mk_slot 0 True = PHASE"
  by (simp_all add: mk_slot_def PHASE_def)

lemma even_mk_slot [simp]: "even (mk_slot c p) \<longleftrightarrow> \<not> p"
  by (cases p) (simp_all add: mk_slot_def)

interpretation slot64: slot_word
  "k \<le> 32" "2 ^ 32" "2 ^ k" mk_slot
  "\<lambda>s. s + push_bit (INDEX_SHIFT TYPE(64)) 1"
  "\<lambda>s. s XOR PHASE"
  "\<lambda>s t. (s XOR t) AND PHASE = 0"
  "\<lambda>s. unat (drop_bit (INDEX_SHIFT TYPE(64)) s)"
  "\<lambda>s. unat (slot_index (2 ^ k) s)" for k
proof (unfold_locales, goal_cases)
  case (1 c p)
  then show ?case by (simp add: mk_slot_def INDEX_SHIFT_def push_bit_eq_mult)
next
  case (2 c p)
  then show ?case
    by (cases p) (simp_all add: PHASE_def xor_one_eq, simp_all add: mk_slot_def)
next
  case (3 c p d q)
  then show ?case
    by (cases p; cases q) (simp_all add: PHASE_def and_one_eq mod_2_eq_odd even_xor_iff)
next
  case (4 c p)
  then show ?case by (simp add: word_nat INDEX_SHIFT_def unat_mk_slot)
next
  case (5 c p)
  then have "(2::nat) ^ k dvd 2 ^ 32" by (rule le_imp_power_dvd)
  then have "c mod 2 ^ 32 mod 2 ^ k = c mod 2 ^ k" by (rule mod_mod_cancel)
  then show ?case by (simp add: word_nat unat_mk_slot)
qed

end
