(* ===== verification/Queue.thy ===== *)
theory Queue
  imports Occupancy Slot
begin

unbundle bit_operations_syntax

text \<open>
  \<open>queue.rs\<close>: the shared part \<open>Inner\<close> (slot and occupancy words, the buffer, the deque of
  pending wakers), the thread-owned \<open>StackQueue\<close> around it, and its operations. The buffer cells
  are a type parameter \<open>'c\<close>: \<open>BufferCell\<close> for \<open>push\<close>, \<open>TaskRef\<close> for \<open>enqueue\<close>.

  \<open>Worker\<close> and \<open>Stealer\<close> are the two handles of one deque of the package \<open>crossbeam-deque\<close>. Its
  state is the field \<open>stealer\<close>, of a type \<open>'d\<close>; its \<open>steal\<close> and \<open>push\<close> are arguments of the
  operations that call them. \<open>Context\<close> and \<open>LocalRef\<close> of \<open>async-local\<close> point at \<open>Inner\<close> and hold
  nothing of their own: an operation that has such a reference takes and returns the \<open>inner\<close>
  record. Each atomic operation reads or writes one field here; their memory orderings are in theory \<open>Views\<close>.
\<close>

section \<open>State\<close>

text \<open>
  \<open>BufferCell\<close>: \<open>Some t\<close> is a live value, \<open>None\<close> a cell whose value is not there, because it was
  never written or has been moved out by a bitwise read.
\<close>

type_synonym 't buffer_cell = "'t option"

record ('u, 'c, 'd) inner =
  slot :: 'u
  occupancy :: 'u
  buffer :: "'c list"
  stealer :: 'd

record ('u, 'c, 'd) stack_queue =
  own_slot :: 'u
  own_occupancy :: 'u
  inner :: "('u, 'c, 'd) inner"

datatype queue_full = QueueFull

text \<open>
  The handles a new batch is given out as; the reference to \<open>Inner\<close> that they hold is implicit.
\<close>

record 'u pending_assignment =
  pa_base_slot :: 'u

record 'u unbounded_range =
  ur_base_slot :: 'u

text \<open>The result of \<open>Stealer::steal\<close>.\<close>

datatype 'wk steal = Empty | Success 'wk | Retry

definition inner_from :: "'c \<Rightarrow> 'w::len word \<Rightarrow> 'd \<Rightarrow> ('w word, 'c, 'd) inner" where
  "inner_from uninit N d =
     \<lparr>slot = 0, occupancy = 0, buffer = replicate (unat N) uninit, stealer = d\<rparr>"

text \<open>\<open>None\<close>: one of the debug assertions fails.\<close>

definition stack_queue_default ::
    "'c \<Rightarrow> 'w::len word \<Rightarrow> 'd \<Rightarrow> ('w word, 'c, 'd) stack_queue option" where
  "stack_queue_default uninit N d =
     (if N = next_power_of_two N \<and> N \<ge> MIN_BUFFER_LEN \<and> N \<le> MAX_BUFFER_LEN
      then Some \<lparr>own_slot = PHASE, own_occupancy = 0, inner = inner_from uninit N d\<rparr>
      else None)"

section \<open>Access to the cells\<close>

text \<open>
  The words of the owner and the cells of the buffer are \<open>UnsafeCell\<close>s; a closure gets a pointer to
  one. A closure that writes returns its result and the new contents. Reading past the end of the
  buffer is a fault.
\<close>

definition with_buffer_cell ::
    "('c \<Rightarrow> 'r \<times> 'c) \<Rightarrow> 'w::len word \<Rightarrow> ('w word, 'c, 'd) inner \<Rightarrow> fault + 'r \<times> ('w word, 'c, 'd) inner" where
  [simp]: "with_buffer_cell f index s =
     (if unat index < length (buffer s)
      then let (r, cell) = f (buffer s ! unat index) in Inr (r, s\<lparr>buffer := (buffer s)[unat index := cell]\<rparr>)
      else Inl OutOfBounds)"

definition with_slot :: "('u \<Rightarrow> 'r) \<Rightarrow> ('u, 'c, 'd) stack_queue \<Rightarrow> 'r" where
  [simp]: "with_slot f q = f (own_slot q)"

definition with_slot_mut :: "('u \<Rightarrow> 'r \<times> 'u) \<Rightarrow> ('u, 'c, 'd) stack_queue \<Rightarrow> 'r \<times> ('u, 'c, 'd) stack_queue" where
  [simp]: "with_slot_mut f q = (let (r, val) = f (own_slot q) in (r, q\<lparr>own_slot := val\<rparr>))"

definition with_occupancy :: "('u \<Rightarrow> 'r) \<Rightarrow> ('u, 'c, 'd) stack_queue \<Rightarrow> 'r" where
  [simp]: "with_occupancy f q = f (own_occupancy q)"

definition with_occupancy_mut :: "('u \<Rightarrow> 'r \<times> 'u) \<Rightarrow> ('u, 'c, 'd) stack_queue \<Rightarrow> 'r \<times> ('u, 'c, 'd) stack_queue" where
  [simp]: "with_occupancy_mut f q = (let (r, val) = f (own_occupancy q) in (r, q\<lparr>own_occupancy := val\<rparr>))"

section \<open>Operations of the thread that owns the queue\<close>

definition current_write_index ::
    "'w::len word \<Rightarrow> ('w word, 'c, 'd) stack_queue \<Rightarrow> 'w word" where
  "current_write_index N q = with_slot (\<lambda>val. slot_index N val) q"

lemma current_write_index_eq: "current_write_index N q = slot_index N (own_slot q)"
  by (simp add: current_write_index_def)

definition check_regional_occupancy ::
    "'w::len word \<Rightarrow> 'w word \<Rightarrow> ('w word, 'c, 'd) stack_queue
      \<Rightarrow> (queue_full + unit) \<times> ('w word, 'c, 'd) stack_queue" where
  "check_regional_occupancy N index q =
     (let mask = region_mask N index in
      if with_occupancy (\<lambda>occ. occ AND mask) q = 0 then (Inr (), q)
      else
        let occ = occupancy (inner q);
            q' = snd (with_occupancy_mut (\<lambda>val. ((), occ)) q)
        in if occ AND mask = 0 then (Inr (), q') else (Inl QueueFull, q'))"

definition occupy_region ::
    "'w::len word \<Rightarrow> 'w word \<Rightarrow> ('w word, 'c, 'd) stack_queue
      \<Rightarrow> ('w word, 'c, 'd) stack_queue" where
  "occupy_region N index q =
     (let occ = occupancy (inner q) + one_shifted N index
      in snd (with_occupancy_mut (\<lambda>val. ((), occ)) (q\<lparr>inner := (inner q)\<lparr>occupancy := occ\<rparr>\<rparr>)))"

definition replace_slot ::
    "'w::len word \<Rightarrow> ('w word, 'c, 'd) stack_queue
      \<Rightarrow> 'w word \<times> ('w word, 'c, 'd) stack_queue" where
  "replace_slot s q = with_slot_mut (\<lambda>val. (val, s)) q"

text \<open>The guard of \<open>enqueue\<close> and \<open>push\<close>: the region is checked where the write index enters it.\<close>

definition region_check ::
    "'w::len word \<Rightarrow> 'w word \<Rightarrow> ('w word, 'c, 'd) stack_queue
      \<Rightarrow> (queue_full + unit) \<times> ('w word, 'c, 'd) stack_queue" where
  "region_check N write_index q =
     (if write_index AND (region_size N - 1) = 0
      then check_regional_occupancy N write_index q
      else (Inr (), q))"

text \<open>
  \<open>slot.fetch_add(1 << INDEX_SHIFT)\<close> and the \<open>replace_slot\<close> after it: the slot before the
  addition, the owner's slot before it, and the new queue.
\<close>

definition claim_slot ::
    "('w::len word, 'c, 'd) stack_queue
      \<Rightarrow> 'w word \<times> 'w word \<times> ('w word, 'c, 'd) stack_queue" where
  "claim_slot q =
     (let base_slot = slot (inner q);
          next_slot = base_slot + push_bit (INDEX_SHIFT TYPE('w)) 1;
          q1 = q\<lparr>inner := (inner q)\<lparr>slot := next_slot\<rparr>\<rparr>;
          (prev_slot, q2) = replace_slot next_slot q1
      in (base_slot, prev_slot, q2))"

text \<open>
  \<open>StackQueue::enqueue\<close>. The closure \<open>write_with\<close> gets the index of the cell, the cell, and the
  state \<open>'s\<close> it captures.
\<close>

definition enqueue ::
    "('w::len word \<Rightarrow> 'c \<Rightarrow> 's \<Rightarrow> 'c \<times> 's) \<Rightarrow> 'w word
      \<Rightarrow> ('w word, 'c, 'd) stack_queue \<Rightarrow> 's
      \<Rightarrow> fault + (queue_full + 'w word pending_assignment option) \<times> ('w word, 'c, 'd) stack_queue \<times> 's" where
  "enqueue write_with N q s =
     (let write_index = current_write_index N q in
      case region_check N write_index q of
        (Inl QueueFull, q1) \<Rightarrow> Inr (Inl QueueFull, q1, s)
      | (Inr _, q1) \<Rightarrow>
          if unat write_index < length (buffer (inner q1)) then
            let (cell, s') = write_with write_index (buffer (inner q1) ! unat write_index) s;
                q2 = q1\<lparr>inner := (inner q1)\<lparr>buffer := (buffer (inner q1))[unat write_index := cell]\<rparr>\<rparr>;
                (base_slot, prev_slot, q3) = claim_slot q2
            in if (base_slot XOR prev_slot) AND PHASE = 0 then Inr (Inr None, q3, s')
               else Inr (Inr (Some \<lparr>pa_base_slot = base_slot\<rparr>), occupy_region N write_index q3, s')
          else Inl OutOfBounds)"

text \<open>\<open>StackQueue::push\<close>: \<open>Inl task\<close> gives the task back, as the \<open>Err\<close> of the source does.\<close>

definition push ::
    "'w::len word \<Rightarrow> 't \<Rightarrow> ('w word, 't buffer_cell, 'd) stack_queue
      \<Rightarrow> fault + ('t + 'w word unbounded_range option) \<times> ('w word, 't buffer_cell, 'd) stack_queue" where
  "push N task q =
     (let write_index = current_write_index N q in
      case region_check N write_index q of
        (Inl QueueFull, q1) \<Rightarrow> Inr (Inl task, q1)
      | (Inr _, q1) \<Rightarrow>
          bind_sum (with_buffer_cell (\<lambda>cell. ((), Some task)) write_index (inner q1)) (\<lambda>(u, s).
          let (base_slot, prev_slot, q2) = claim_slot (q1\<lparr>inner := s\<rparr>)
          in if (base_slot XOR prev_slot) AND PHASE = 0 then Inr (Inr None, q2)
             else Inr (Inr (Some \<lparr>ur_base_slot = base_slot\<rparr>), occupy_region N write_index q2)))"

section \<open>Release of a region\<close>

text \<open>
  The loop of \<open>deoccupy_region\<close>: it wakes at most \<open>batch_limit\<close> pending tasks. A \<open>Retry\<close> does
  not count, so the loop ends only if the deque does not answer \<open>Retry\<close> for ever; \<open>None\<close> is the
  loop that does not end.
\<close>

partial_function (option) wake_loop ::
    "('d \<Rightarrow> 'wk steal \<times> 'd) \<Rightarrow> 'w::len word \<Rightarrow> 'd \<Rightarrow> 'wk list \<Rightarrow> ('d \<times> 'wk list) option" where
  "wake_loop steal batch_limit d woken =
     (if batch_limit > 0 then
        case steal d of
          (Empty, d') \<Rightarrow> Some (d', woken)
        | (Success waker, d') \<Rightarrow> wake_loop steal (batch_limit - 1) d' (woken @ [waker])
        | (Retry, d') \<Rightarrow> wake_loop steal batch_limit d' woken
      else Some (d, woken))"

definition deoccupy_region ::
    "('d \<Rightarrow> 'wk steal \<times> 'd) \<Rightarrow> 'w::len word \<Rightarrow> 'w word \<Rightarrow> ('w word, 'c, 'd) inner
      \<Rightarrow> fault + 'wk list \<times> ('w word, 'c, 'd) inner" where
  "deoccupy_region steal N index s =
     (let shifted = one_shifted N index;
          prev = occupancy s;
          s' = s\<lparr>occupancy := prev - shifted\<rparr>
      in if prev = shifted then
           case wake_loop steal (region_size N) (stealer s') [] of
             None \<Rightarrow> Inl Diverges
           | Some (d, woken) \<Rightarrow> Inr (woken, s'\<lparr>stealer := d\<rparr>)
         else Inr ([], s'))"

section \<open>Construction\<close>

lemma buffer_sizes_64:
  "(N :: 64 word) = next_power_of_two N \<and> MIN_BUFFER_LEN \<le> N \<and> N \<le> MAX_BUFFER_LEN
    \<longleftrightarrow> (\<exists>k. 6 \<le> k \<and> k < 32 \<and> N = 2 ^ k)"
proof
  assume N: "N = next_power_of_two N \<and> MIN_BUFFER_LEN \<le> N \<and> N \<le> MAX_BUFFER_LEN"
  then have "N \<noteq> 0" by (auto simp: MIN_BUFFER_LEN_def)
  with N next_power_of_two_fixed [of N] obtain k where k: "k < 64" "N = 2 ^ k" by auto
  have "(2::nat) ^ 6 \<le> 2 ^ k" "(2::nat) ^ k < 2 ^ 32"
    using N k by (auto simp: MIN_BUFFER_LEN_def MAX_BUFFER_LEN_def word_le_nat_alt unat_exp)
  then have "6 \<le> k" "k < 32"
    by (simp_all only: power_increasing_iff power_strict_increasing_iff one_less_numeral_iff semiring_norm)
  with k show "\<exists>k. 6 \<le> k \<and> k < 32 \<and> N = 2 ^ k" by auto
next
  assume "\<exists>k. 6 \<le> k \<and> k < 32 \<and> N = 2 ^ k"
  then obtain k where k: "6 \<le> k" "k < 32" and N: "N = 2 ^ k" by auto
  have "(2::nat) ^ 6 \<le> 2 ^ k" "(2::nat) ^ k < 2 ^ 32"
    using k by (simp_all only: power_increasing_iff power_strict_increasing_iff one_less_numeral_iff semiring_norm)
  then show "N = next_power_of_two N \<and> MIN_BUFFER_LEN \<le> N \<and> N \<le> MAX_BUFFER_LEN"
    using k by (simp add: N next_power_of_two_exp MIN_BUFFER_LEN_def MAX_BUFFER_LEN_def
        word_le_nat_alt unat_exp)
qed

text \<open>
  \<open>StackQueue::default\<close> accepts a size exactly when it is a power of two within the bounds,
  and starts with phases that differ, so the first task pushed opens a batch.
\<close>

theorem default_accepts_64:
  "(\<exists>q. stack_queue_default uninit (N :: 64 word) d = Some q) \<longleftrightarrow> (\<exists>k. 6 \<le> k \<and> k < 32 \<and> N = 2 ^ k)"
  unfolding buffer_sizes_64 [symmetric] by (simp add: stack_queue_default_def)

section \<open>Release of a region: wake-ups\<close>

text \<open>
  What the crate relies on of the deque (\<open>Worker::new_fifo\<close>): \<open>contents\<close> are the wakers in the
  deque, oldest first; a successful steal takes the oldest; \<open>Empty\<close> is answered only when there
  is none; a \<open>Retry\<close> changes nothing. \<open>steal_progress\<close>: a steal is answered \<open>Retry\<close> a bounded
  number of times in a row.
\<close>

definition fifo_deque ::
    "('d \<Rightarrow> 'wk \<Rightarrow> 'd) \<Rightarrow> ('d \<Rightarrow> 'wk steal \<times> 'd) \<Rightarrow> ('d \<Rightarrow> 'wk list) \<Rightarrow> bool" where
  "fifo_deque dpush steal contents \<longleftrightarrow>
     (\<forall>d w. contents (dpush d w) = contents d @ [w]) \<and>
     (\<forall>d d'. steal d = (Empty, d') \<longrightarrow> contents d = [] \<and> contents d' = []) \<and>
     (\<forall>d d' w. steal d = (Success w, d') \<longrightarrow> contents d = w # contents d') \<and>
     (\<forall>d d'. steal d = (Retry, d') \<longrightarrow> contents d' = contents d)"

definition steal_progress :: "('d \<Rightarrow> 'wk steal \<times> 'd) \<Rightarrow> ('d \<Rightarrow> nat) \<Rightarrow> bool" where
  "steal_progress steal retries \<longleftrightarrow> (\<forall>d d'. steal d = (Retry, d') \<longrightarrow> retries d' < retries d)"

text \<open>A deque that is a list, for the witnesses.\<close>

definition list_push :: "'wk list \<Rightarrow> 'wk \<Rightarrow> 'wk list" where
  "list_push d w = d @ [w]"

definition list_steal :: "'wk list \<Rightarrow> 'wk steal \<times> 'wk list" where
  "list_steal d = (case d of [] \<Rightarrow> (Empty, []) | w # ws \<Rightarrow> (Success w, ws))"

lemma list_deque [simp]:
  "fifo_deque list_push list_steal (\<lambda>d. d)" "steal_progress list_steal (\<lambda>d. 0)"
  by (auto simp: fifo_deque_def steal_progress_def list_push_def list_steal_def split: list.splits)

lemma wake_loop_result:
  assumes "fifo_deque dpush steal contents" and "steal_progress steal retries"
  shows "\<exists>d'. wake_loop steal limit d woken = Some (d', woken @ take (unat limit) (contents d))
    \<and> contents d' = drop (unat limit) (contents d)"
proof (induction "unat limit" arbitrary: limit d woken)
  case 0
  then show ?case by (subst wake_loop.simps) (simp add: word_gt_0 unat_eq_0 [symmetric] del: unat_eq_0)
next
  case (Suc n)
  then have "limit \<noteq> 0" by auto
  then have pos: "limit > 0" and n: "n = unat (limit - 1)"
    using Suc.hyps(2) by (simp_all add: word_gt_0 unat_minus_one)
  show ?case
  proof (induction "retries d" arbitrary: d rule: less_induct)
    case less
    obtain r d1 where st: "steal d = (r, d1)" by (cases "steal d") auto
    show ?case
    proof (cases r)
      case Empty
      then have "contents d = []" "contents d1 = []"
        using st assms(1) by (auto simp: fifo_deque_def)
      then show ?thesis using pos st Empty by (subst wake_loop.simps) simp
    next
      case Retry
      then have "contents d1 = contents d" "retries d1 < retries d"
        using st assms by (auto simp: fifo_deque_def steal_progress_def)
      then show ?thesis
        using less [of d1] pos st Retry by (subst wake_loop.simps) simp
    next
      case (Success w)
      then have "contents d = w # contents d1"
        using st assms(1) by (auto simp: fifo_deque_def)
      then show ?thesis
        using Suc.hyps(1) [OF n, of d1 "woken @ [w]"] Suc.hyps(2) [symmetric] n pos st Success
        by (subst wake_loop.simps) auto
    qed
  qed
qed

text \<open>
  The state of a queue on the 64-bit target, with \<open>2 ^ k\<close> cells: \<open>c\<close> tasks were written, the owner
  remembers phase \<open>op\<close>, the shared phase is \<open>ph\<close>, and \<open>M\<close> is the multiset of the regions that
  running batches started in.
\<close>

definition queue_at ::
    "nat \<Rightarrow> nat \<Rightarrow> bool \<Rightarrow> bool \<Rightarrow> nat multiset \<Rightarrow> (64 word, 'c, 'd) stack_queue \<Rightarrow> bool" where
  "queue_at k c op ph M q \<longleftrightarrow>
     own_slot q = mk_slot c op \<and> slot (inner q) = mk_slot c ph \<and>
     occupancy (inner q) = enc64 (count M) \<and> length (buffer (inner q)) = 2 ^ k"

lemma default_queue_at:
  assumes "6 \<le> k" "k < 32"
  shows "\<exists>q. stack_queue_default uninit (2 ^ k :: 64 word) d = Some q \<and>
    queue_at k 0 True False {#} q \<and> stealer (inner q) = d \<and> own_occupancy q = 0 \<and>
    buffer (inner q) = replicate (2 ^ k) uninit"
proof -
  have "stack_queue_default uninit (2 ^ k :: 64 word) d
      = Some \<lparr>own_slot = PHASE, own_occupancy = 0, inner = inner_from uninit (2 ^ k) d\<rparr>"
    using buffer_sizes_64 [of "2 ^ k"] assms unfolding stack_queue_default_def by auto
  then show ?thesis
    using assms by (simp add: queue_at_def inner_from_def mk_slot_0 mk_slot_PHASE unat_exp)
qed

lemma deoccupy_region_step:
  fixes s :: "(64 word, 'c, 'd) inner"
  assumes "6 \<le> k" "k < 32" "unat i < 2 ^ k"
    and "occupancy s = enc64 (count M)" "region k (unat i) \<in># M"
    and "\<forall>r\<in>#M. r < 8" "\<forall>r. count M r < 256"
    and "fifo_deque dpush steal contents" "steal_progress steal retries"
  shows "\<exists>woken s'. deoccupy_region steal (2 ^ k) i s = Inr (woken, s') \<and>
    occupancy s' = enc64 (count (M - {#region k (unat i)#})) \<and>
    slot s' = slot s \<and> buffer s' = buffer s \<and>
    woken @ contents (stealer s') = contents (stealer s) \<and>
    length woken = (if M = {#region k (unat i)#} then min (2 ^ (k - 3)) (length (contents (stealer s))) else 0)"
proof -
  have i: "6 \<le> k \<and> k < 32 \<and> unat i < 2 ^ k" using assms by simp
  have sub: "occupancy s - one_shifted (2 ^ k) i = enc64 (count (M - {#region k (unat i)#}))"
    using occ64.deoccupy_mset [OF i assms(5)] assms(4) by simp
  have last: "occupancy s = one_shifted (2 ^ k) i \<longleftrightarrow> M = {#region k (unat i)#}"
    using occ64.is_last_mset [OF i, of M] assms(4,6,7) by simp
  show ?thesis
  proof (cases "M = {#region k (unat i)#}")
    case False
    then show ?thesis using last sub by (simp add: deoccupy_region_def Let_def)
  next
    case True
    obtain d' where "wake_loop steal (region_size (2 ^ k :: 64 word)) (stealer s) []
        = Some (d', take (2 ^ (k - 3)) (contents (stealer s)))"
      "contents d' = drop (2 ^ (k - 3)) (contents (stealer s))"
      using wake_loop_result [OF assms(8,9), of "region_size (2 ^ k :: 64 word)" "stealer s" "[]"] assms(1,2)
      by (auto simp: unat_exp)
    then show ?thesis using True last sub by (simp add: deoccupy_region_def Let_def)
  qed
qed

text \<open>
  Leaving a region: the occupancy loses the batch, and exactly when it was the last running
  batch of the whole queue the oldest pending wakers are woken, at most one region's worth.
\<close>

theorem deoccupy_region_spec:
  fixes s :: "(64 word, 'c, 'd) inner"
  assumes "6 \<le> k" "k < 32" "unat i < 2 ^ k"
    and "occupancy s = enc64 (count M)" "region k (unat i) \<in># M"
    and "\<forall>r\<in>#M. r < 8" "\<forall>r. count M r < 256"
    and "fifo_deque dpush steal contents" "steal_progress steal retries"
  shows "\<exists>woken s'. deoccupy_region steal (2 ^ k) i s = Inr (woken, s') \<and>
    occupancy s' = enc64 (count (M - {#region k (unat i)#})) \<and>
    slot s' = slot s \<and> buffer s' = buffer s \<and>
    woken @ contents (stealer s') = contents (stealer s) \<and>
    length woken = (if M = {#region k (unat i)#} then min (2 ^ (k - 3)) (length (contents (stealer s))) else 0)"
  by (rule deoccupy_region_step [OF assms])

theorem deoccupy_region_spec_witness:
  "\<exists>woken s'. deoccupy_region list_steal (64 :: 64 word) 9
      \<lparr>slot = 0, occupancy = enc64 (count {#1#}), buffer = ([] :: nat list), stealer = [''a'', ''b'']\<rparr> = Inr (woken, s') \<and>
    occupancy s' = 0 \<and> length woken = 2"
  using deoccupy_region_spec [of 6 9 "\<lparr>slot = 0, occupancy = enc64 (count {#1#}), buffer = [], stealer = [''a'', ''b'']\<rparr>"
      "{#1#}" list_push list_steal "\<lambda>d. d" "\<lambda>d. 0"]
  by (fastforce simp: region_def)

section \<open>Adding a task\<close>

lemma at_region_start:
  assumes "6 \<le> k" "k < 32"
  shows "(slot_index (2 ^ k) (mk_slot c p) AND (region_size (2 ^ k) - 1) = 0) \<longleftrightarrow> 2 ^ (k - 3) dvd c"
proof -
  have "(2::nat) ^ (k - 3) dvd 2 ^ k" by (rule le_imp_power_dvd) simp
  then have "2 ^ (k - 3) dvd c mod 2 ^ k \<longleftrightarrow> 2 ^ (k - 3) dvd c" by (simp add: dvd_mod_iff)
  then show ?thesis
    using assms slot64.index_mk [of k c p] by (simp add: and_exp_minus_1_eq_0_iff)
qed

lemma region_check_frame:
  "region_check N i q = (r, q1) \<Longrightarrow> own_slot q1 = own_slot q \<and> inner q1 = inner q"
  by (auto simp: region_check_def check_regional_occupancy_def Let_def split: if_splits)

lemma claim_slot_mk:
  assumes "own_slot q = mk_slot c op" "slot (inner q) = mk_slot c ph"
  shows "claim_slot q = (mk_slot c ph, mk_slot c op,
    q\<lparr>inner := (inner q)\<lparr>slot := mk_slot (Suc c) ph\<rparr>, own_slot := mk_slot (Suc c) ph\<rparr>)"
  using assms slot64.bump_mk [of c ph] by (simp add: claim_slot_def replace_slot_def Let_def)

lemma write_index_mk:
  assumes "k < 32"
  shows "unat (slot_index (2 ^ k) (mk_slot c p)) = c mod 2 ^ k"
  using assms slot64.index_mk [of k c p] by simp

text \<open>A region that is free in the cache passes the check, which then changes nothing.\<close>

lemma region_check_free:
  assumes "own_slot q = mk_slot c op" "own_occupancy q = enc64 (count B)" "region k c \<notin># B"
    and "\<forall>r. count B r < 256" "6 \<le> k" "k < 32"
  shows "region_check (2 ^ k) (slot_index (2 ^ k) (own_slot q)) q = (Inr (), q)"
proof -
  define i where "i = slot_index (2 ^ k) (own_slot q)"
  have i: "unat i = c mod 2 ^ k" using assms(1,6) by (simp add: i_def write_index_mk)
  then have "own_occupancy q AND region_mask (2 ^ k) i = 0"
    using occ64.is_free_mset [of k i B] assms by (simp add: region_def)
  then show ?thesis by (simp add: region_check_def check_regional_occupancy_def i_def [symmetric])
qed

text \<open>
  What \<open>enqueue\<close> does when the region is not busy: the cell the counter points at is written, the
  counter advances, and a new batch is handed out when the previous one has been bounded.
\<close>

lemma enqueue_step:
  assumes "queue_at k c op ph M q" "6 \<le> k" "k < 32"
    and "region_check (2 ^ k) (slot_index (2 ^ k) (own_slot q)) q = (Inr (), q1)"
    and "write_with (slot_index (2 ^ k) (own_slot q)) (buffer (inner q) ! (c mod 2 ^ k)) s = (cell, s')"
  shows "\<exists>q'. enqueue write_with (2 ^ k) q s =
      Inr (Inr (if ph = op then None else Some \<lparr>pa_base_slot = mk_slot c ph\<rparr>), q', s') \<and>
    queue_at k (Suc c) ph ph (if ph = op then M else add_mset (region k c) M) q' \<and>
    buffer (inner q') = (buffer (inner q))[c mod 2 ^ k := cell] \<and>
    stealer (inner q') = stealer (inner q) \<and>
    own_occupancy q' = (if ph = op then own_occupancy q1 else occupancy (inner q'))"
proof -
  define i where "i = slot_index (2 ^ k) (own_slot q)"
  have q: "own_slot q = mk_slot c op" "slot (inner q) = mk_slot c ph"
      "occupancy (inner q) = enc64 (count M)" "length (buffer (inner q)) = 2 ^ k"
    using assms(1) by (simp_all add: queue_at_def)
  have i: "unat i = c mod 2 ^ k" using assms(3) q(1) by (simp add: i_def write_index_mk)
  have q1: "own_slot q1 = own_slot q" "inner q1 = inner q"
    using region_check_frame [OF assms(4)] by simp_all
  have "enc64 (count M) + one_shifted (2 ^ k) i = enc64 (count (add_mset (region k c) M))"
    using occ64.occupy_mset [of k i M] assms(2,3) by (simp add: i region_def)
  then show ?thesis
    using assms(4,5) q q1 i i_def [unfolded q(1), symmetric] slot64.same_phase_mk [of c ph c op]
    by (simp add: enqueue_def current_write_index_def claim_slot_mk occupy_region_def queue_at_def Let_def)
qed

text \<open>
  What \<open>push\<close> does when the region is not busy: the task goes to the cell the counter points
  at, the counter advances, and a new batch is handed out, and its region occupied, exactly when
  the previous batch has been bounded (the phases differ).
\<close>

lemma push_step:
  assumes "queue_at k c op ph M q" "6 \<le> k" "k < 32"
    and "region_check (2 ^ k) (slot_index (2 ^ k) (own_slot q)) q = (Inr (), q1)"
  shows "\<exists>q'. push (2 ^ k) t q =
      Inr (Inr (if ph = op then None else Some \<lparr>ur_base_slot = mk_slot c ph\<rparr>), q') \<and>
    queue_at k (Suc c) ph ph (if ph = op then M else add_mset (region k c) M) q' \<and>
    buffer (inner q') = (buffer (inner q))[c mod 2 ^ k := Some t] \<and>
    stealer (inner q') = stealer (inner q) \<and>
    own_occupancy q' = (if ph = op then own_occupancy q1 else occupancy (inner q'))"
proof -
  define i where "i = slot_index (2 ^ k) (own_slot q)"
  have q: "own_slot q = mk_slot c op" "slot (inner q) = mk_slot c ph"
      "occupancy (inner q) = enc64 (count M)" "length (buffer (inner q)) = 2 ^ k"
    using assms(1) by (simp_all add: queue_at_def)
  have i: "unat i = c mod 2 ^ k" using assms(3) q(1) by (simp add: i_def write_index_mk)
  have q1: "own_slot q1 = own_slot q" "inner q1 = inner q"
    using region_check_frame [OF assms(4)] by simp_all
  have "enc64 (count M) + one_shifted (2 ^ k) i = enc64 (count (add_mset (region k c) M))"
    using occ64.occupy_mset [of k i M] assms(2,3) by (simp add: i region_def)
  then show ?thesis
    using assms(4) q q1 i i_def [unfolded q(1), symmetric] slot64.same_phase_mk [of c ph c op]
    by (simp add: push_def current_write_index_def claim_slot_mk occupy_region_def queue_at_def Let_def)
qed

lemma region_check_result:
  assumes "queue_at k c op ph M q" "6 \<le> k" "k < 32" "\<forall>r. count M r < 256"
    and "marked \<longleftrightarrow> own_occupancy q AND region_mask (2 ^ k) (slot_index (2 ^ k) (own_slot q)) \<noteq> 0"
  shows "region_check (2 ^ k) (slot_index (2 ^ k) (own_slot q)) q =
    (if 2 ^ (k - 3) dvd c \<and> marked
     then (if region k c \<in># M then Inl QueueFull else Inr (), q\<lparr>own_occupancy := occupancy (inner q)\<rparr>)
     else (Inr (), q))"
proof -
  define i where "i = slot_index (2 ^ k) (own_slot q)"
  have q: "own_slot q = mk_slot c op" "occupancy (inner q) = enc64 (count M)"
    using assms(1) by (simp_all add: queue_at_def)
  have i: "unat i = c mod 2 ^ k" using assms(3) q(1) by (simp add: i_def write_index_mk)
  have "occupancy (inner q) AND region_mask (2 ^ k) i = 0 \<longleftrightarrow> region k c \<notin># M"
    using occ64.is_free_mset [of k i M] assms(2-4) by (simp add: q i region_def)
  moreover have "i AND (region_size (2 ^ k) - 1) = 0 \<longleftrightarrow> 2 ^ (k - 3) dvd c"
    using at_region_start [OF assms(2,3)] by (simp add: i_def q)
  ultimately show ?thesis
    using assms(5) by (simp add: i_def region_check_def check_regional_occupancy_def Let_def)
qed

text \<open>
  C17. \<open>push\<close> on every path, with at most 255 running batches per region. It gives the task back, changing nothing but the cached occupancy, exactly
  when the write index enters a region that is marked busy both in the cache and in the shared word.
  Otherwise the task goes to the cell the counter points at, the counter advances, and a new batch
  is handed out, and its region occupied, exactly when the previous batch has been bounded.
\<close>

theorem push_spec:
  assumes "queue_at k c op ph M q" "6 \<le> k" "k < 32" "\<forall>r. count M r < 256"
  shows "\<exists>r q'. push (2 ^ k) t q = Inr (r, q') \<and>
    (if 2 ^ (k - 3) dvd c \<and> region k c \<in># M \<and>
        own_occupancy q AND region_mask (2 ^ k) (slot_index (2 ^ k) (own_slot q)) \<noteq> 0
     then r = Inl t \<and> q' = q\<lparr>own_occupancy := occupancy (inner q)\<rparr>
     else r = Inr (if ph = op then None else Some \<lparr>ur_base_slot = mk_slot c ph\<rparr>) \<and>
       queue_at k (Suc c) ph ph (if ph = op then M else add_mset (region k c) M) q' \<and>
       buffer (inner q') = (buffer (inner q))[c mod 2 ^ k := Some t] \<and>
       stealer (inner q') = stealer (inner q))"
proof (cases "2 ^ (k - 3) dvd c \<and> region k c \<in># M \<and>
    own_occupancy q AND region_mask (2 ^ k) (slot_index (2 ^ k) (own_slot q)) \<noteq> 0")
  case True
  then have "region_check (2 ^ k) (current_write_index (2 ^ k) q) q
      = (Inl QueueFull, q\<lparr>own_occupancy := occupancy (inner q)\<rparr>)"
    using region_check_result [OF assms refl] by (simp add: current_write_index_def)
  then show ?thesis using True by (simp add: push_def Let_def)
next
  case False
  then have "fst (region_check (2 ^ k) (slot_index (2 ^ k) (own_slot q)) q) = Inr ()"
    by (simp add: region_check_result [OF assms refl])
  then obtain q1 where "region_check (2 ^ k) (slot_index (2 ^ k) (own_slot q)) q = (Inr (), q1)"
    by (metis prod.collapse)
  then show ?thesis using push_step [OF assms(1-3), of q1 t] False by fastforce
qed

theorem push_spec_witness:
  "\<exists>q q' :: (64 word, nat buffer_cell, unit) stack_queue.
    stack_queue_default None (2 ^ 6) () = Some q \<and>
    push (2 ^ 6) 5 q = Inr (Inr (Some \<lparr>ur_base_slot = 0\<rparr>), q') \<and>
    buffer (inner q') ! 0 = Some 5"
proof -
  obtain q :: "(64 word, nat buffer_cell, unit) stack_queue"
    where q: "stack_queue_default None (2 ^ 6) () = Some q" "queue_at 6 0 True False {#} q"
      "buffer (inner q) = replicate 64 None"
    using default_queue_at [of 6 None "()"] by auto
  from push_spec [OF q(2), of 5] q show ?thesis
    by (auto simp: mk_slot_0)
qed

section \<open>Overflow of a region's counter\<close>

lemma occupy_region_pow:
  "occupancy (inner ((occupy_region N i ^^ n) q)) = occupancy (inner q) + of_nat n * one_shifted N i"
  "0 < n \<Longrightarrow> own_occupancy ((occupy_region N i ^^ n) q) = occupancy (inner q) + of_nat n * one_shifted N i"
proof -
  show 1: "occupancy (inner ((occupy_region N i ^^ n) q)) = occupancy (inner q) + of_nat n * one_shifted N i" for n
    by (induction n) (simp_all add: occupy_region_def Let_def algebra_simps)
  show "0 < n \<Longrightarrow> own_occupancy ((occupy_region N i ^^ n) q) = occupancy (inner q) + of_nat n * one_shifted N i"
    by (cases n) (simp_all add: occupy_region_def Let_def 1 algebra_simps)
qed

text \<open>
  The comment on \<open>occupy_region\<close> holds for every region but the last: 256 batches in one
  region overflow its counter, and the next region is then reported full.
\<close>

theorem region_overflow_blocks_next:
  assumes "6 \<le> k" "k < 32" "unat i < 2 ^ k" "unat j < 2 ^ k"
    and "region k (unat j) = Suc (region k (unat i))"
    and "occupancy (inner q) = (0 :: 64 word)"
  shows "fst (check_regional_occupancy (2 ^ k) j ((occupy_region (2 ^ k) i ^^ 256) q)) = Inl QueueFull"
proof -
  define r where "r = region k (unat i)"
  have r: "Suc r < 8" using assms(1,5) region_less [of k "unat j"] by (simp add: r_def)
  have "of_nat 256 * one_shifted (2 ^ k) i = (word_of_nat (256 ^ Suc r) :: 64 word)"
    using assms by (simp add: one_shifted_64 r_def)
  also have "256 ^ Suc r = digits 8 (\<lambda>s. if s = Suc r then 1 else 0)"
    using r by (simp add: digits_single del: power_Suc)
  also have "(\<lambda>s. if s = Suc r then 1 else 0) = count {#Suc r#}" by (rule ext) simp
  finally have "of_nat 256 * one_shifted (2 ^ k) i = enc64 (count {#Suc r#})"
    by (simp only: enc64_def)
  then show ?thesis
    using occ64.is_free_mset [of k j "{#Suc r#}"] assms
    by (simp add: check_regional_occupancy_def Let_def r_def occupy_region_pow)
qed

theorem region_overflow_blocks_next_witness:
  "fst (check_regional_occupancy (2 ^ 11) 256 ((occupy_region (2 ^ 11) 3 ^^ 256)
      \<lparr>own_slot = 0, own_occupancy = 0, inner = \<lparr>slot = 0, occupancy = 0 :: 64 word, buffer = [()], stealer = ()\<rparr>\<rparr>))
    = Inl QueueFull"
  by (rule region_overflow_blocks_next) (simp_all add: region_def)

text \<open>
  C39. For the last region it does not hold: the overflow is lost from the word, and a region in
  which 256 batches run is reported free.
\<close>

theorem last_region_overflow_lost:
  assumes "6 \<le> k" "k < 32" "unat i < 2 ^ k" "region k (unat i) = 7"
    and "occupancy (inner q) = (0 :: 64 word)"
  shows "fst (check_regional_occupancy (2 ^ k) i ((occupy_region (2 ^ k) i ^^ 256) q)) = Inr ()"
proof -
  have "of_nat 256 * one_shifted (2 ^ k) i = (0 :: 64 word)"
    using assms by (simp add: one_shifted_64)
  then show ?thesis
    using assms by (simp add: check_regional_occupancy_def occupy_region_pow Let_def)
qed

theorem last_region_overflow_lost_witness:
  "fst (check_regional_occupancy (2 ^ 11) 1792 ((occupy_region (2 ^ 11) 1792 ^^ 256)
      \<lparr>own_slot = 0, own_occupancy = 0, inner = \<lparr>slot = 0, occupancy = 0 :: 64 word, buffer = [()], stealer = ()\<rparr>\<rparr>))
    = Inr ()"
  by (rule last_region_overflow_lost) (simp_all add: region_def)

text \<open>
  C40. On the 32-bit target the overlap of the regions makes the same happen with the smallest
  buffer: 16 batches in region 0 and 15 in region 1 leave no bit in the mask of region 0.
\<close>

theorem region_reported_free_32:
  fixes q :: "(32 word, 'c, 'd) stack_queue"
  assumes "occupancy (inner q) = 0"
  shows "fst (check_regional_occupancy 64 0
    ((occupy_region 64 16 ^^ 15) ((occupy_region 64 0 ^^ 16) q))) = Inr ()"
proof -
  have "(64 :: 32 word) = 2 ^ 6" by simp
  then have "trailing_zeros (64 :: 32 word) = 6" by (simp only:) (rule trailing_zeros_exp, simp)
  then have "one_shifted (64 :: 32 word) 0 = 1" "one_shifted (64 :: 32 word) 16 = 16"
    "region_mask (64 :: 32 word) 0 = 255"
    by (simp_all add: one_shifted_def region_shift_def region_mask_def current_region_def
        REGION_COUNT_32 REGION_MASK_def)
  then show ?thesis
    using assms by (simp add: check_regional_occupancy_def occupy_region_pow Let_def)
qed

theorem region_reported_free_32_witness:
  "fst (check_regional_occupancy 64 0 ((occupy_region 64 16 ^^ 15) ((occupy_region 64 0 ^^ 16)
      \<lparr>own_slot = 0, own_occupancy = 0, inner = \<lparr>slot = 0, occupancy = 0 :: 32 word, buffer = [()], stealer = ()\<rparr>\<rparr>)))
    = Inr ()"
  by (rule region_reported_free_32) simp

end
