(* ===== verification/Assignment.thy ===== *)
theory Assignment
  imports Queue
begin

unbundle bit_operations_syntax

text \<open>
  \<open>assignment.rs\<close>, the part for \<open>BufferCell\<close> buffers: \<open>UnboundedRange\<close>, \<open>BoundedRange\<close> and
  \<open>BufferIter\<close>, with their destructors. An operation takes the \<open>inner\<close> record its \<open>LocalRef\<close>
  points at and returns the new one. The arguments \<open>steal\<close> (of the deque) and \<open>drops\<close> (the value of
  \<open>needs_drop::<T>()\<close>) are parameters. A destructor returns the values it dropped and the wakers it
  woke; an operation that consumes its handle with \<open>mem::forget\<close> runs no destructor.
\<close>

section \<open>Ranges and cells\<close>

record 'u index_range =
  range_start :: 'u
  range_end :: 'u

text \<open>
  The slices \<open>as_slices\<close> forms of a circular buffer, as lists of cells: the same code in
  \<open>TaskAssignment\<close> and \<open>BoundedRange\<close>.
\<close>

definition as_slices ::
    "'w::len word \<Rightarrow> 'w word index_range \<Rightarrow> 'c list \<Rightarrow> 'c list \<times> 'c list" where
  "as_slices N r buf =
     (let s = unat (range_start r AND (N - 1));
          e = unat (range_end r AND (N - 1))
      in if e > s then (take (e - s) (drop s buf), [])
         else (take (unat N - s) (drop s buf), take e buf))"

text \<open>\<open>assume_init_read\<close> and \<open>assume_init_drop\<close> of one cell: the value leaves the cell.\<close>

definition read_cell :: "nat \<Rightarrow> 't buffer_cell list \<Rightarrow> fault + 't \<times> 't buffer_cell list" where
  "read_cell i buf =
     (if i < length buf then
        case buf ! i of None \<Rightarrow> Inl UninitRead | Some t \<Rightarrow> Inr (t, buf[i := None])
      else Inl OutOfBounds)"

text \<open>\<open>for index in range\<close> with a read of the cell at \<open>index & (N - 1)\<close>.\<close>

fun drop_cells ::
    "'w::len word \<Rightarrow> 'w word list \<Rightarrow> 't buffer_cell list \<Rightarrow> fault + 't list \<times> 't buffer_cell list" where
  "drop_cells N [] buf = Inr ([], buf)"
| "drop_cells N (index # rest) buf =
     bind_sum (read_cell (unat (index AND (N - 1))) buf) (\<lambda>(t, buf1).
     bind_sum (drop_cells N rest buf1) (\<lambda>(ts, buf2). Inr (t # ts, buf2)))"

section \<open>UnboundedRange\<close>

definition set_bounds ::
    "'w::len word unbounded_range \<Rightarrow> ('w word, 'c, 'd) inner
      \<Rightarrow> 'w word index_range \<times> ('w word, 'c, 'd) inner" where
  "set_bounds ur s =
     (let end_slot = slot s;
          s' = s\<lparr>slot := end_slot XOR PHASE\<rparr>
      in (\<lparr>range_start = drop_bit (INDEX_SHIFT TYPE('w)) (ur_base_slot ur),
           range_end = drop_bit (INDEX_SHIFT TYPE('w)) end_slot\<rparr>, s'))"

text \<open>\<open>BoundedRange\<close> holds the range only.\<close>

type_synonym 'u bounded_range = "'u index_range"

definition into_bounded ::
    "'w::len word unbounded_range \<Rightarrow> ('w word, 'c, 'd) inner
      \<Rightarrow> 'w word bounded_range \<times> ('w word, 'c, 'd) inner" where
  "into_bounded ur s = set_bounds ur s"

definition unbounded_range_drop ::
    "('d \<Rightarrow> 'wk steal \<times> 'd) \<Rightarrow> bool \<Rightarrow> 'w::len word \<Rightarrow> 'w word unbounded_range
      \<Rightarrow> ('w word, 't buffer_cell, 'd) inner
      \<Rightarrow> fault + 't list \<times> 'wk list \<times> ('w word, 't buffer_cell, 'd) inner" where
  "unbounded_range_drop steal drops N ur s =
     (let (task_range, s1) = set_bounds ur s;
          start_index = range_start task_range AND (N - 1)
      in bind_sum
           (if drops
            then drop_cells N (range_indices (range_start task_range) (range_end task_range)) (buffer s1)
            else Inr ([], buffer s1)) (\<lambda>(dropped, buf).
         bind_sum (deoccupy_region steal N start_index (s1\<lparr>buffer := buf\<rparr>)) (\<lambda>(woken, s2).
         Inr (dropped, woken, s2))))"

section \<open>BoundedRange\<close>

definition bounded_deoccupy_buffer ::
    "('d \<Rightarrow> 'wk steal \<times> 'd) \<Rightarrow> 'w::len word \<Rightarrow> 'w word bounded_range
      \<Rightarrow> ('w word, 'c, 'd) inner \<Rightarrow> fault + 'wk list \<times> ('w word, 'c, 'd) inner" where
  "bounded_deoccupy_buffer steal N br s = deoccupy_region steal N (range_start br AND (N - 1)) s"

text \<open>
  The slices are transmuted to slices of values, so every cell in them has to hold one.
\<close>

definition bounded_as_slices ::
    "'w::len word \<Rightarrow> 'w word bounded_range \<Rightarrow> ('w word, 't buffer_cell, 'd) inner
      \<Rightarrow> fault + 't list \<times> 't list" where
  "bounded_as_slices N br s =
     (case as_slices N br (buffer s) of
        (front, back) \<Rightarrow>
          if None \<in> set front \<or> None \<in> set back then Inl UninitRead
          else Inr (map the front, map the back))"

definition bounded_iter ::
    "'w::len word \<Rightarrow> 'w word bounded_range \<Rightarrow> ('w word, 't buffer_cell, 'd) inner
      \<Rightarrow> fault + 't list" where
  "bounded_iter N br s =
     bind_sum (bounded_as_slices N br s) (\<lambda>(front, back). Inr (front @ back))"

text \<open>
  The indices of the cells in the two slices. \<open>to_vec\<close> copies the cells bitwise and forgets the
  range, so the values leave the buffer.
\<close>

definition slice_indices :: "'w::len word \<Rightarrow> 'w word index_range \<Rightarrow> nat list" where
  "slice_indices N r =
     (let s = unat (range_start r AND (N - 1));
          e = unat (range_end r AND (N - 1))
      in if e > s then [s..<e] else [s..<unat N] @ [0..<e])"

definition to_vec ::
    "('d \<Rightarrow> 'wk steal \<times> 'd) \<Rightarrow> 'w::len word \<Rightarrow> 'w word bounded_range
      \<Rightarrow> ('w word, 't buffer_cell, 'd) inner
      \<Rightarrow> fault + 't list \<times> 'wk list \<times> ('w word, 't buffer_cell, 'd) inner" where
  "to_vec steal N br s =
     bind_sum (bounded_as_slices N br s) (\<lambda>(front, back).
     let moved_out = fold (\<lambda>i buf. buf[i := None]) (slice_indices N br) (buffer s)
     in bind_sum (bounded_deoccupy_buffer steal N br (s\<lparr>buffer := moved_out\<rparr>)) (\<lambda>(woken, s').
        Inr (front @ back, woken, s')))"

definition bounded_range_drop ::
    "('d \<Rightarrow> 'wk steal \<times> 'd) \<Rightarrow> bool \<Rightarrow> 'w::len word \<Rightarrow> 'w word bounded_range
      \<Rightarrow> ('w word, 't buffer_cell, 'd) inner
      \<Rightarrow> fault + 't list \<times> 'wk list \<times> ('w word, 't buffer_cell, 'd) inner" where
  "bounded_range_drop steal drops N br s =
     bind_sum
       (if drops then drop_cells N (range_indices (range_start br) (range_end br)) (buffer s)
        else Inr ([], buffer s)) (\<lambda>(dropped, buf).
     bind_sum (bounded_deoccupy_buffer steal N br (s\<lparr>buffer := buf\<rparr>)) (\<lambda>(woken, s').
     Inr (dropped, woken, s')))"

section \<open>BufferIter\<close>

record 'u buffer_iter =
  current :: 'u
  iter_range :: "'u index_range"

definition into_iter :: "'w::len word bounded_range \<Rightarrow> 'w word buffer_iter" where
  "into_iter br = \<lparr>current = range_start br, iter_range = br\<rparr>"

definition iter_deoccupy_buffer ::
    "('d \<Rightarrow> 'wk steal \<times> 'd) \<Rightarrow> 'w::len word \<Rightarrow> 'w word buffer_iter
      \<Rightarrow> ('w word, 'c, 'd) inner \<Rightarrow> fault + 'wk list \<times> ('w word, 'c, 'd) inner" where
  "iter_deoccupy_buffer steal N it s =
     deoccupy_region steal N (range_start (iter_range it) AND (N - 1)) s"

definition iter_next ::
    "'w::len word \<Rightarrow> 'w word buffer_iter \<Rightarrow> 't buffer_cell list
      \<Rightarrow> fault + 't option \<times> 'w word buffer_iter \<times> 't buffer_cell list" where
  "iter_next N it buf =
     (if current it < range_end (iter_range it) then
        bind_sum (read_cell (unat (current it AND (N - 1))) buf) (\<lambda>(task, buf').
        Inr (Some task, it\<lparr>current := current it + 1\<rparr>, buf'))
      else Inr (None, it, buf))"

text \<open>\<open>while self.next().is_some() {}\<close>, with the values it drops.\<close>

function iter_drain ::
    "'w::len word \<Rightarrow> 'w word buffer_iter \<Rightarrow> 't buffer_cell list
      \<Rightarrow> fault + 't list \<times> 'w word buffer_iter \<times> 't buffer_cell list" where
  "iter_drain N it buf =
     (case iter_next N it buf of
        Inl f \<Rightarrow> Inl f
      | Inr (None, it', buf') \<Rightarrow> Inr ([], it', buf')
      | Inr (Some t, it', buf') \<Rightarrow>
          bind_sum (iter_drain N it' buf') (\<lambda>(ts, it'', buf''). Inr (t # ts, it'', buf'')))"
  by pat_completeness auto
termination
proof (relation "measure (\<lambda>(N, it, buf). unat (range_end (iter_range it)) - unat (current it))", goal_cases)
  case 1
  then show ?case by simp
next
  case (2 N it buf a b t ba it' buf')
  then have lt: "unat (current it) < unat (range_end (iter_range it))"
      and it': "it' = it\<lparr>current := current it + 1\<rparr>"
    by (auto simp: iter_next_def word_less_nat_alt split: if_splits)
  have "unat (current it + 1) = Suc (unat (current it))" using lt by (rule unat_plus_1)
  with lt it' show ?case by simp
qed

declare iter_drain.simps [simp del]

definition buffer_iter_drop ::
    "('d \<Rightarrow> 'wk steal \<times> 'd) \<Rightarrow> bool \<Rightarrow> 'w::len word \<Rightarrow> 'w word buffer_iter
      \<Rightarrow> ('w word, 't buffer_cell, 'd) inner
      \<Rightarrow> fault + 't list \<times> 'wk list \<times> ('w word, 't buffer_cell, 'd) inner" where
  "buffer_iter_drop steal drops N it s =
     bind_sum (if drops then iter_drain N it (buffer s) else Inr ([], it, buffer s))
       (\<lambda>(dropped, it', buf).
     bind_sum (iter_deoccupy_buffer steal N it' (s\<lparr>buffer := buf\<rparr>)) (\<lambda>(woken, s').
     Inr (dropped, woken, s')))"

section \<open>Windows of the buffer\<close>

text \<open>
  The cells of a batch that holds the tasks \<open>a\<close> to \<open>b - 1\<close> (counted from the creation of the
  queue) are a window of the circular buffer. \<open>window\<close> reads it in order and \<open>clear_window\<close> moves
  its values out.
\<close>

definition window :: "nat \<Rightarrow> nat \<Rightarrow> nat \<Rightarrow> 'c list \<Rightarrow> 'c list" where
  "window n a b buf = map (\<lambda>i. buf ! (i mod n)) [a..<b]"

definition clear_window :: "nat \<Rightarrow> nat \<Rightarrow> nat \<Rightarrow> 't buffer_cell list \<Rightarrow> 't buffer_cell list" where
  "clear_window n a b buf = fold (\<lambda>i buf. buf[i mod n := None]) [a..<b] buf"

definition window_live :: "nat \<Rightarrow> nat \<Rightarrow> nat \<Rightarrow> 't buffer_cell list \<Rightarrow> bool" where
  "window_live n a b buf \<longleftrightarrow> (\<forall>i\<in>{a..<b}. buf ! (i mod n) \<noteq> None)"

lemma length_window [simp]: "length (window n a b buf) = b - a"
  by (simp add: window_def)

lemma window_empty [simp]: "b \<le> a \<Longrightarrow> window n a b buf = []"
  by (simp add: window_def)

lemma window_Cons: "a < b \<Longrightarrow> window n a b buf = buf ! (a mod n) # window n (Suc a) b buf"
  by (simp add: window_def upt_conv_Cons)

lemma length_clear_window [simp]: "length (clear_window n a b buf) = length buf"
proof -
  have "length (fold (\<lambda>i buf. buf[i mod n := None]) xs buf) = length buf" for xs :: "nat list"
    by (induction xs arbitrary: buf) auto
  then show ?thesis by (simp add: clear_window_def)
qed

lemma clear_window_empty [simp]: "b \<le> a \<Longrightarrow> clear_window n a b buf = buf"
  by (simp add: clear_window_def)

lemma clear_window_Cons:
  "a < b \<Longrightarrow> clear_window n a b buf = clear_window n (Suc a) b (buf[a mod n := None])"
  by (simp add: clear_window_def upt_conv_Cons)

lemma clear_window_append:
  "a \<le> b \<Longrightarrow> b \<le> c \<Longrightarrow> clear_window n b c (clear_window n a b buf) = clear_window n a c buf"
  using upt_add_eq_append [of a b "c - b"] by (simp add: clear_window_def)

lemma nth_clear_window:
  assumes "j < length buf"
  shows "clear_window n a b buf ! j = (if \<exists>i\<in>{a..<b}. i mod n = j then None else buf ! j)"
  using assms
proof (induction "b - a" arbitrary: a buf)
  case 0
  then show ?case by simp
next
  case (Suc m)
  then have "a < b" "m = b - Suc a" by linarith+
  moreover from \<open>a < b\<close> have "{a..<b} = insert a {Suc a..<b}" by auto
  ultimately show ?case
    using Suc.hyps(1) [of "Suc a" "buf[a mod n := None]"] Suc.prems
    by (simp add: clear_window_Cons nth_list_update)
qed

lemma window_upd_outside:
  assumes "\<And>i. a \<le> i \<Longrightarrow> i < b \<Longrightarrow> i mod n \<noteq> j"
  shows "window n a b (buf[j := x]) = window n a b buf"
  unfolding window_def using assms by (auto simp: nth_upd_other)

lemma mod_next_lap: "b \<le> a + n \<Longrightarrow> Suc a \<le> i \<Longrightarrow> i < b \<Longrightarrow> i mod n \<noteq> a mod n"
  using mod_window_distinct [of b a n i a] by force

lemma window_live_Cons:
  assumes "a < b" "b \<le> a + n" "window_live n a b buf"
  shows "buf ! (a mod n) \<noteq> None" "window_live n (Suc a) b (buf[a mod n := None])"
  using assms mod_next_lap [OF assms(2)]
  by (auto simp: window_live_def nth_upd_other)

text \<open>
  The contract of the code that takes all values out of a range: it returns them in the order they
  were written and leaves every cell of the range, and no other, without a value. \<open>handles a b\<close>
  are the ranges the code treats this way.
\<close>

locale range_consumer =
  fixes n :: nat
    and handles :: "nat \<Rightarrow> nat \<Rightarrow> bool"
    and consume :: "nat \<Rightarrow> nat \<Rightarrow> 't buffer_cell list \<Rightarrow> fault + 't list \<times> 't buffer_cell list"
  assumes consume_live: "handles a b \<Longrightarrow> a < b \<Longrightarrow> b \<le> a + n \<Longrightarrow> length buf = n \<Longrightarrow>
    window_live n a b buf \<Longrightarrow>
    consume a b buf = Inr (map the (window n a b buf), clear_window n a b buf)"
begin

text \<open>Consuming one batch leaves a batch in other cells as it was.\<close>

lemma consume_disjoint:
  assumes "handles a b" "a < b" "b \<le> a + n" "length buf = n" "window_live n a b buf"
    and "\<And>i j. i \<in> {a..<b} \<Longrightarrow> j \<in> {c..<d} \<Longrightarrow> i mod n \<noteq> j mod n"
  shows "\<exists>ts buf'. consume a b buf = Inr (ts, buf') \<and> window n c d buf' = window n c d buf"
proof -
  have "window n c d (clear_window n a b buf) = window n c d buf"
    unfolding window_def
    using assms(2-4,6) by (auto simp: nth_clear_window)
  with consume_live [OF assms(1-5)] show ?thesis by blast
qed

text \<open>Every value is taken once: the cells hold none afterwards.\<close>

lemma consume_empties:
  assumes "handles a b" "a < b" "b \<le> a + n" "length buf = n" "window_live n a b buf"
  shows "\<exists>ts buf'. consume a b buf = Inr (ts, buf') \<and> length ts = b - a \<and>
    (\<forall>i\<in>{a..<b}. buf' ! (i mod n) = None)"
  using consume_live [OF assms] assms(2-4) by (auto simp: nth_clear_window)

end

section \<open>The ranges of the 64-bit target\<close>

text \<open>
  The range of a batch with the tasks \<open>a\<close> to \<open>b - 1\<close>: the bounds are counters of 32 bits.
  \<open>same_cycle\<close>: the counter does not wrap around inside the batch.
\<close>

definition bounds64 :: "nat \<Rightarrow> nat \<Rightarrow> 64 word index_range" where
  "bounds64 a b = \<lparr>range_start = word_of_nat (a mod 2 ^ 32), range_end = word_of_nat (b mod 2 ^ 32)\<rparr>"

definition same_cycle :: "nat \<Rightarrow> nat \<Rightarrow> bool" where
  "same_cycle a b \<longleftrightarrow> a div 2 ^ 32 = b div 2 ^ 32"

lemma unat_counter [simp]: "unat (word_of_nat (a mod 2 ^ 32) :: 64 word) = a mod 2 ^ 32"
proof -
  have "a mod 2 ^ 32 < 2 ^ 32" by simp
  then have "a mod 2 ^ 32 < 2 ^ LENGTH(64)" by simp
  then show ?thesis by (simp only: unat_of_nat mod_less)
qed

lemma counter_mod [simp]: "k \<le> 32 \<Longrightarrow> a mod 2 ^ 32 mod 2 ^ k = (a::nat) mod 2 ^ k"
  by (rule mod_mod_cancel) (rule le_imp_power_dvd)

lemma same_cycle_diff:
  assumes "same_cycle a b" "a \<le> b"
  shows "b mod 2 ^ 32 = a mod 2 ^ 32 + (b - a)"
  using assms unfolding same_cycle_def by (rule mod_diff_same_div)

lemma bounds64_masked:
  assumes "k \<le> 32"
  shows "unat (range_start (bounds64 a b) AND (2 ^ k - 1)) = a mod 2 ^ k"
    "unat (range_end (bounds64 a b) AND (2 ^ k - 1)) = b mod 2 ^ k"
  using assms by (simp_all only: unat_and_exp_minus_1 bounds64_def index_range.simps unat_counter counter_mod)

lemma bounds64_unat [simp]:
  "unat (range_start (bounds64 a b)) = a mod 2 ^ 32" "unat (range_end (bounds64 a b)) = b mod 2 ^ 32"
  by (simp_all only: bounds64_def index_range.simps unat_counter)

lemma slice_indices_64:
  assumes "k \<le> 32" "a < b" "b \<le> a + 2 ^ k"
  shows "slice_indices (2 ^ k) (bounds64 a b) = map (\<lambda>i. i mod 2 ^ k) [a..<b]"
  using mod_window [OF assms(2,3)] bounds64_masked [OF assms(1)] assms(1)
  by (simp add: slice_indices_def Let_def unat_exp)

text \<open>
  The two slices of a batch are its tasks in order, also when the batch goes round the end of
  the buffer, fills the whole buffer, or spans a wrap-around of the counter.
\<close>

lemma as_slices_64:
  assumes "k \<le> 32" "a < b" "b \<le> a + 2 ^ k" "length buf = 2 ^ k"
  shows "fst (as_slices (2 ^ k) (bounds64 a b) buf) @ snd (as_slices (2 ^ k) (bounds64 a b) buf)
    = window (2 ^ k) a b buf"
proof -
  have lt: "b mod 2 ^ k < length buf" using assms(4) by simp
  have "window (2 ^ k) a b buf = map ((!) buf) (map (\<lambda>i. i mod 2 ^ k) [a..<b])"
    by (simp add: window_def)
  then show ?thesis
    using mod_window [OF assms(2,3)] bounds64_masked [OF assms(1)] assms(1,4) lt
    by (simp add: as_slices_def Let_def unat_exp map_nth_upt)
qed

section \<open>Bounding a batch\<close>

text \<open>
  Bounding reads the counter and toggles the phase in one step: the range runs from the
  first task of the batch to the last task claimed so far, and the next task starts a new batch.
\<close>

lemma set_bounds_spec:
  assumes "ur_base_slot ur = mk_slot a p" "slot s = mk_slot b q"
  shows "into_bounded ur s = (bounds64 a b, s\<lparr>slot := mk_slot b (\<not> q)\<rparr>)"
proof -
  have "drop_bit 32 (mk_slot c r) = word_of_nat (c mod 2 ^ 32)" for c r
    by (rule word_unat_eq_iff [THEN iffD2], subst unat_counter)
      (simp only: unat_drop_bit unat_mk_slot, simp)
  then show ?thesis
    using assms slot64.toggle_mk [of b q]
    by (simp add: into_bounded_def set_bounds_def INDEX_SHIFT_def bounds64_def)
qed

section \<open>Consuming a batch\<close>

lemma read_cell_live:
  "i < length buf \<Longrightarrow> buf ! i \<noteq> None \<Longrightarrow> read_cell i buf = Inr (the (buf ! i), buf[i := None])"
  by (auto simp: read_cell_def)

lemma map_the_window_upd:
  "b \<le> a + n \<Longrightarrow> window n (Suc a) b (buf[a mod n := x]) = window n (Suc a) b buf"
  using mod_next_lap [of b a n] by (intro window_upd_outside) auto

lemma drop_cells_window:
  assumes "map (\<lambda>w. unat (w AND (N - 1))) ws = map (\<lambda>i. i mod n) [a..<b]"
    and "b \<le> a + n" "length buf = n" "window_live n a b buf"
  shows "drop_cells N ws buf = Inr (map the (window n a b buf), clear_window n a b buf)"
  using assms
proof (induction ws arbitrary: a buf)
  case Nil
  then have "b \<le> a" by auto
  then show ?case by simp
next
  case (Cons w ws)
  then have ab: "a < b" by (metis list.distinct(1) list.simps(8,9) not_le upt_conv_Nil)
  then have w: "unat (w AND (N - 1)) = a mod n"
      and ws: "map (\<lambda>w. unat (w AND (N - 1))) ws = map (\<lambda>i. i mod n) [Suc a..<b]"
    using Cons.prems(1) by (simp_all add: upt_conv_Cons)
  have "0 < n" using ab Cons.prems(2) by linarith
  then have "read_cell (a mod n) buf = Inr (the (buf ! (a mod n)), buf[a mod n := None])"
    using window_live_Cons(1) [OF ab Cons.prems(2,4)] Cons.prems(3) by (intro read_cell_live) auto
  moreover have "drop_cells N ws (buf[a mod n := None])
      = Inr (map the (window n (Suc a) b buf), clear_window n (Suc a) b (buf[a mod n := None]))"
    using Cons.IH [OF ws, of "buf[a mod n := None]"] window_live_Cons(2) [OF ab Cons.prems(2,4)]
      Cons.prems(2,3) by (simp add: map_the_window_upd)
  ultimately show ?case
    using ab w by (simp add: window_Cons clear_window_Cons)
qed

lemma range_indices_64:
  assumes "k \<le> 32" "same_cycle a b" "a \<le> b"
  shows "map (\<lambda>w. unat (w AND (2 ^ k - 1)))
      (range_indices (range_start (bounds64 a b)) (range_end (bounds64 a b)))
    = map (\<lambda>i. i mod 2 ^ k) [a..<b]"
proof (rule nth_equalityI)
  note len = same_cycle_diff [OF assms(2,3)]
  show "length (map (\<lambda>w. unat (w AND (2 ^ k - 1)))
      (range_indices (range_start (bounds64 a b)) (range_end (bounds64 a b))))
    = length (map (\<lambda>i. i mod 2 ^ k) [a..<b])"
    using len by simp
  fix j
  assume "j < length (map (\<lambda>w. unat (w AND (2 ^ k - 1)))
      (range_indices (range_start (bounds64 a b)) (range_end (bounds64 a b))))"
  then have j: "j < b - a" using len by simp
  have "b mod 2 ^ 32 < (2::nat) ^ 32" by simp
  then have "a mod 2 ^ 32 + j < 2 ^ LENGTH(64)" using len j by simp
  then have "unat (word_of_nat (a mod 2 ^ 32 + j) :: 64 word) = a mod 2 ^ 32 + j"
    by (simp only: unat_of_nat mod_less)
  moreover have "(a mod 2 ^ 32 + j) mod 2 ^ k = (a + j) mod 2 ^ k"
    using counter_mod [OF assms(1), of a] by (metis mod_add_left_eq)
  moreover have "range_indices (range_start (bounds64 a b)) (range_end (bounds64 a b)) ! j
      = word_of_nat (a mod 2 ^ 32 + j)"
    using j len by (simp only: range_indices_def bounds64_unat nth_map nth_upt length_upt)
  ultimately show "map (\<lambda>w. unat (w AND (2 ^ k - 1)))
      (range_indices (range_start (bounds64 a b)) (range_end (bounds64 a b))) ! j
    = map (\<lambda>i. i mod 2 ^ k) [a..<b] ! j"
    using j len by (simp add: unat_and_exp_minus_1 del: of_nat_add)
qed

text \<open>The destructors of \<open>UnboundedRange\<close> and \<open>BoundedRange\<close>: a loop over the range.\<close>

interpretation dropped: range_consumer
  "2 ^ k" "\<lambda>a b. k \<le> 32 \<and> same_cycle a b"
  "\<lambda>a b. drop_cells (2 ^ k :: 64 word)
    (range_indices (range_start (bounds64 a b)) (range_end (bounds64 a b)))" for k
  by unfold_locales (rule drop_cells_window, auto simp: range_indices_64)

lemma same_cycle_between:
  assumes "same_cycle a b" "a \<le> c" "c \<le> b"
  shows "same_cycle c b"
  using assms div_le_mono [of a c "2 ^ 32"] div_le_mono [of c b "2 ^ 32"]
  unfolding same_cycle_def by linarith

text \<open>\<open>iter64 a b c\<close>: an iterator over the tasks \<open>a\<close> to \<open>b - 1\<close> with \<open>c\<close> up next.\<close>

definition iter64 :: "nat \<Rightarrow> nat \<Rightarrow> nat \<Rightarrow> 64 word buffer_iter" where
  "iter64 a b c = \<lparr>current = word_of_nat (c mod 2 ^ 32), iter_range = bounds64 a b\<rparr>"

lemma into_iter_64: "into_iter (bounds64 a b) = iter64 a b a"
  by (simp add: into_iter_def iter64_def bounds64_def)

lemma iter64_unat [simp]: "unat (current (iter64 a b c)) = c mod 2 ^ 32"
  "iter_range (iter64 a b c) = bounds64 a b"
  by (simp_all only: iter64_def buffer_iter.simps unat_counter)

lemma iter64_masked:
  "k \<le> 32 \<Longrightarrow> unat (current (iter64 a b c) AND (2 ^ k - 1)) = c mod 2 ^ k"
  by (simp only: unat_and_exp_minus_1 iter64_unat counter_mod)

lemma iter_next_64:
  assumes "k \<le> 32" "same_cycle c b" "c < b" "b \<le> c + 2 ^ k" "length buf = 2 ^ k"
    and "window_live (2 ^ k) c b buf"
  shows "iter_next (2 ^ k) (iter64 a b c) buf
    = Inr (Some (the (buf ! (c mod 2 ^ k))), iter64 a b (Suc c), buf[c mod 2 ^ k := None])"
proof -
  have len: "b mod 2 ^ 32 = c mod 2 ^ 32 + (b - c)" using assms(2,3) by (intro same_cycle_diff) simp_all
  then have lt: "current (iter64 a b c) < range_end (bounds64 a b)"
    using assms(3) by (simp add: word_less_nat_alt)
  have "same_cycle c (Suc c)"
    using assms(2,3) same_cycle_between [of c b "Suc c"] by (simp add: same_cycle_def)
  then have "Suc c mod 2 ^ 32 = Suc (c mod 2 ^ 32)" using same_cycle_diff [of c "Suc c"] by simp
  then have step: "(iter64 a b c)\<lparr>current := current (iter64 a b c) + 1\<rparr> = iter64 a b (Suc c)"
    by (simp add: iter64_def)
  have "read_cell (c mod 2 ^ k) buf = Inr (the (buf ! (c mod 2 ^ k)), buf[c mod 2 ^ k := None])"
    using window_live_Cons(1) [OF assms(3,4,6)] assms(5) by (intro read_cell_live) auto
  with lt step show ?thesis
    by (simp add: iter_next_def iter64_masked [OF assms(1)])
qed

lemma iter_drain_64:
  assumes "k \<le> 32" "same_cycle c b" "c \<le> b" "b \<le> c + 2 ^ k" "length buf = 2 ^ k"
    and "window_live (2 ^ k) c b buf"
  shows "iter_drain (2 ^ k) (iter64 a b c) buf
    = Inr (map the (window (2 ^ k) c b buf), iter64 a b b, clear_window (2 ^ k) c b buf)"
  using assms(2-6)
proof (induction "b - c" arbitrary: c buf)
  case 0
  then have "c = b" by simp
  moreover have "iter_next (2 ^ k) (iter64 a b b) buf = Inr (None, iter64 a b b, buf)"
    by (simp add: iter_next_def word_less_nat_alt)
  ultimately show ?case by (subst iter_drain.simps) simp
next
  case (Suc m)
  then have cb: "c < b" by linarith
  have "iter_drain (2 ^ k) (iter64 a b (Suc c)) (buf[c mod 2 ^ k := None])
    = Inr (map the (window (2 ^ k) (Suc c) b buf), iter64 a b b,
           clear_window (2 ^ k) (Suc c) b (buf[c mod 2 ^ k := None]))"
    using Suc.hyps(1) [of "Suc c" "buf[c mod 2 ^ k := None]"] Suc.hyps(2) Suc.prems cb
      window_live_Cons(2) [OF cb Suc.prems(3,5)] same_cycle_between [OF Suc.prems(1), of "Suc c"]
    by (simp add: map_the_window_upd)
  then show ?case
    using iter_next_64 [OF assms(1) Suc.prems(1) cb Suc.prems(3,4,5), of a] cb
    by (subst iter_drain.simps) (simp add: window_Cons clear_window_Cons)
qed

text \<open>\<open>BufferIter\<close>, drained by its destructor or by a loop over \<open>next\<close>.\<close>

interpretation drained: range_consumer
  "2 ^ k" "\<lambda>a b. k \<le> 32 \<and> same_cycle a b"
  "\<lambda>a b buf. bind_sum (iter_drain (2 ^ k) (into_iter (bounds64 a b)) buf) (\<lambda>(ts, it, buf'). Inr (ts, buf'))"
  for k
  by unfold_locales (simp add: into_iter_64 iter_drain_64)

text \<open>\<open>to_vec\<close>: the slices are copied and the range forgotten.\<close>

definition copy_out ::
    "'w::len word \<Rightarrow> 'w word bounded_range \<Rightarrow> 't buffer_cell list \<Rightarrow> fault + 't list \<times> 't buffer_cell list" where
  "copy_out N br buf =
     bind_sum (bounded_iter N br \<lparr>slot = 0, occupancy = 0, buffer = buf, stealer = ()\<rparr>) (\<lambda>ts.
     Inr (ts, fold (\<lambda>i buf. buf[i := None]) (slice_indices N br) buf))"

lemma bounded_iter_64:
  assumes "k \<le> 32" "a < b" "b \<le> a + 2 ^ k" "length (buffer s) = 2 ^ k" "window_live (2 ^ k) a b (buffer s)"
  shows "bounded_iter (2 ^ k) (bounds64 a b) s = Inr (map the (window (2 ^ k) a b (buffer s)))"
proof -
  obtain f g where fg: "as_slices (2 ^ k) (bounds64 a b) (buffer s) = (f, g)" by fastforce
  then have w: "f @ g = window (2 ^ k) a b (buffer s)"
    using as_slices_64 [OF assms(1-4)] by simp
  have "None \<notin> set (window (2 ^ k) a b (buffer s))"
    using assms(5) by (auto simp: window_def window_live_def)
  then have "None \<notin> set f" "None \<notin> set g" by (simp_all flip: w)
  then show ?thesis
    by (simp add: bounded_iter_def bounded_as_slices_def fg flip: w map_append)
qed

lemma clear_slices_64:
  assumes "k \<le> 32" "a < b" "b \<le> a + 2 ^ k"
  shows "fold (\<lambda>i buf. buf[i := None]) (slice_indices (2 ^ k) (bounds64 a b)) buf = clear_window (2 ^ k) a b buf"
  by (simp add: slice_indices_64 [OF assms] clear_window_def fold_map comp_def)

interpretation copied: range_consumer
  "2 ^ k" "\<lambda>a b. k \<le> 32" "\<lambda>a b. copy_out (2 ^ k) (bounds64 a b)" for k
  by unfold_locales (simp add: copy_out_def bounded_iter_64 clear_slices_64)

section \<open>Handing out, dropping and leaving a batch\<close>

text \<open>
  What all ways to end a batch share: the cells of the tasks \<open>c\<close> to \<open>b - 1\<close> not yet taken are
  cleared, the occupancy loses the region the batch started in, and the slot is untouched.
\<close>

definition batch_done ::
    "nat \<Rightarrow> nat \<Rightarrow> nat \<Rightarrow> nat \<Rightarrow> nat multiset \<Rightarrow> (64 word, 't buffer_cell, 'd) inner
      \<Rightarrow> (64 word, 't buffer_cell, 'd) inner \<Rightarrow> bool" where
  "batch_done k a c b M s s' \<longleftrightarrow>
     buffer s' = clear_window (2 ^ k) c b (buffer s) \<and>
     occupancy s' = enc64 (count (M - {#region k a#})) \<and> slot s' = slot s"

text \<open>And this of its region and of the wakers: the oldest are woken when it was the last batch.\<close>

definition batch_freed ::
    "nat \<Rightarrow> ('d \<Rightarrow> 'wk list) \<Rightarrow> nat \<Rightarrow> nat multiset \<Rightarrow> (64 word, 'c, 'd) inner \<Rightarrow> 'wk list
      \<Rightarrow> (64 word, 'c, 'd) inner \<Rightarrow> bool" where
  "batch_freed k contents a M s woken s' \<longleftrightarrow>
     occupancy s' = enc64 (count (M - {#region k a#})) \<and> slot s' = slot s \<and>
     length (buffer s') = length (buffer s) \<and> woken @ contents (stealer s') = contents (stealer s) \<and>
     length woken = (if M = {#region k a#} then min (2 ^ (k - 3)) (length (contents (stealer s))) else 0)"

definition occupied_by :: "nat \<Rightarrow> nat multiset \<Rightarrow> nat \<Rightarrow> (64 word, 'c, 'd) inner \<Rightarrow> bool" where
  "occupied_by k M a s \<longleftrightarrow>
     6 \<le> k \<and> k < 32 \<and> length (buffer s) = 2 ^ k \<and>
     occupancy s = enc64 (count M) \<and> region k a \<in># M \<and> (\<forall>r\<in>#M. r < 8) \<and> (\<forall>r. count M r < 256)"

lemma deoccupy_range:
  assumes "occupied_by k M a s" "fifo_deque dpush steal contents" "steal_progress steal retries"
  shows "\<exists>woken s'. deoccupy_region steal (2 ^ k) (range_start (bounds64 a b) AND (2 ^ k - 1))
      (s\<lparr>buffer := buf\<rparr>) = Inr (woken, s') \<and>
    occupancy s' = enc64 (count (M - {#region k a#})) \<and> slot s' = slot s \<and> buffer s' = buf \<and>
    woken @ contents (stealer s') = contents (stealer s) \<and>
    length woken = (if M = {#region k a#} then min (2 ^ (k - 3)) (length (contents (stealer s))) else 0)"
proof -
  let ?i = "range_start (bounds64 a b) AND (2 ^ k - 1)"
  have i: "unat ?i = a mod 2 ^ k" using assms(1) by (simp add: bounds64_masked occupied_by_def)
  then have r: "region k (unat ?i) = region k a" by (simp add: region_def)
  show ?thesis
    using deoccupy_region_step [of k ?i "s\<lparr>buffer := buf\<rparr>" M dpush steal contents retries] assms i r
    by (fastforce simp: occupied_by_def)
qed

lemma deoccupy_batch:
  assumes "occupied_by k M a s" "fifo_deque dpush steal contents" "steal_progress steal retries"
  shows "\<exists>woken s'. deoccupy_region steal (2 ^ k) (range_start (bounds64 a b) AND (2 ^ k - 1))
      (s\<lparr>buffer := clear_window (2 ^ k) c b (buffer s)\<rparr>) = Inr (woken, s') \<and>
    batch_done k a c b M s s' \<and> batch_freed k contents a M s woken s'"
  using deoccupy_range [OF assms, of b "clear_window (2 ^ k) c b (buffer s)"]
  by (auto simp: batch_done_def batch_freed_def)

text \<open>
  \<open>to_vec\<close> hands out exactly the tasks of the batch, in the order they were pushed, moves them
  out of the buffer, and frees the region; for every batch that fits the buffer.
\<close>

lemma to_vec_spec:
  assumes "occupied_by k M a s" "a < b" "b \<le> a + 2 ^ k" "window_live (2 ^ k) a b (buffer s)"
    and "fifo_deque dpush steal contents" "steal_progress steal retries"
  shows "\<exists>woken s'. to_vec steal (2 ^ k) (bounds64 a b) s
      = Inr (map the (window (2 ^ k) a b (buffer s)), woken, s') \<and> batch_done k a a b M s s' \<and>
    batch_freed k contents a M s woken s'"
proof -
  have k: "k \<le> 32" and len: "length (buffer s) = 2 ^ k" using assms(1) by (simp_all add: occupied_by_def)
  obtain f g where fg: "bounded_as_slices (2 ^ k) (bounds64 a b) s = Inr (f, g)"
      and "f @ g = map the (window (2 ^ k) a b (buffer s))"
    using bounded_iter_64 [OF k assms(2,3) len assms(4)] by (auto simp: bounded_iter_def)
  with deoccupy_batch [OF assms(1,5,6), of b a] show ?thesis
    by (auto simp: to_vec_def bounded_deoccupy_buffer_def clear_slices_64 [OF k assms(2,3)])
qed

text \<open>
  Dropping an iterator that still has the tasks \<open>c\<close> to \<open>b - 1\<close> drops exactly these, each once, if they
  need it, and frees the region, provided the counter does not wrap around inside the batch.
\<close>

lemma buffer_iter_drop_spec:
  assumes "occupied_by k M a s" "a \<le> c" "c \<le> b" "b \<le> a + 2 ^ k" "window_live (2 ^ k) c b (buffer s)"
    and "same_cycle a b" "fifo_deque dpush steal contents" "steal_progress steal retries"
  shows "\<exists>woken s'. buffer_iter_drop steal drops (2 ^ k) (iter64 a b c) s
      = Inr (if drops then map the (window (2 ^ k) c b (buffer s)) else [], woken, s') \<and>
    (drops \<longrightarrow> batch_done k a c b M s s') \<and> batch_freed k contents a M s woken s'"
proof -
  have k: "k \<le> 32" and len: "length (buffer s) = 2 ^ k" using assms(1) by (simp_all add: occupied_by_def)
  have "iter_drain (2 ^ k) (iter64 a b c) (buffer s)
      = Inr (map the (window (2 ^ k) c b (buffer s)), iter64 a b b, clear_window (2 ^ k) c b (buffer s))"
    using assms(2-5) same_cycle_between [OF assms(6,2,3)] k len by (intro iter_drain_64) simp_all
  with deoccupy_batch [OF assms(1,7,8), of b c] deoccupy_range [OF assms(1,7,8), of b "buffer s"] show ?thesis
    by (cases drops) (auto simp: buffer_iter_drop_def iter_deoccupy_buffer_def batch_freed_def)
qed

text \<open>
  Dropping an unbounded range first bounds the batch, and then drops exactly its tasks, if they need
  it, and frees its region; the next task opens a new batch. Again for a batch within one cycle.
\<close>

lemma unbounded_range_dropped:
  assumes "occupied_by k M a s" "a < b" "b \<le> a + 2 ^ k" "window_live (2 ^ k) a b (buffer s)"
    and "same_cycle a b" "fifo_deque dpush steal contents" "steal_progress steal retries"
    and "slot s = mk_slot b q"
  shows "\<exists>woken s'. unbounded_range_drop steal drops (2 ^ k) \<lparr>ur_base_slot = mk_slot a p\<rparr> s
      = Inr (if drops then map the (window (2 ^ k) a b (buffer s)) else [], woken, s') \<and>
    (drops \<longrightarrow> batch_done k a a b M (s\<lparr>slot := mk_slot b (\<not> q)\<rparr>) s') \<and>
    batch_freed k contents a M (s\<lparr>slot := mk_slot b (\<not> q)\<rparr>) woken s'"
proof -
  let ?s = "s\<lparr>slot := mk_slot b (\<not> q)\<rparr>"
  have k: "k \<le> 32" and len: "length (buffer s) = 2 ^ k" and occ: "occupied_by k M a ?s"
    using assms(1) by (simp_all add: occupied_by_def)
  have "set_bounds \<lparr>ur_base_slot = mk_slot a p\<rparr> s = (bounds64 a b, ?s)"
    using set_bounds_spec [of "\<lparr>ur_base_slot = mk_slot a p\<rparr>" a p s b q] assms(8)
    by (simp add: into_bounded_def)
  moreover have "drop_cells (2 ^ k) (range_indices (range_start (bounds64 a b)) (range_end (bounds64 a b))) (buffer s)
      = Inr (map the (window (2 ^ k) a b (buffer s)), clear_window (2 ^ k) a b (buffer s))"
    using assms(2-5) k len by (intro dropped.consume_live) simp_all
  ultimately show ?thesis
    using deoccupy_batch [OF occ assms(6,7), of b a] deoccupy_range [OF occ assms(6,7), of b "buffer s"]
    by (cases drops) (auto simp: unbounded_range_drop_def batch_freed_def)
qed

theorem unbounded_range_drop_spec:
  assumes "occupied_by k M a s" "a < b" "b \<le> a + 2 ^ k" "window_live (2 ^ k) a b (buffer s)"
    and "same_cycle a b" "fifo_deque dpush steal contents" "steal_progress steal retries"
    and "slot s = mk_slot b q"
  shows "\<exists>woken s'. unbounded_range_drop steal True (2 ^ k) \<lparr>ur_base_slot = mk_slot a p\<rparr> s
      = Inr (map the (window (2 ^ k) a b (buffer s)), woken, s') \<and>
    batch_done k a a b M (s\<lparr>slot := mk_slot b (\<not> q)\<rparr>) s'"
  using unbounded_range_dropped [OF assms, of True p] by auto

text \<open>
  The destructor of a bounded range: likewise, without bounding.
\<close>

theorem bounded_range_drop_spec:
  assumes "occupied_by k M a s" "a < b" "b \<le> a + 2 ^ k" "window_live (2 ^ k) a b (buffer s)"
    and "same_cycle a b" "fifo_deque dpush steal contents" "steal_progress steal retries"
  shows "\<exists>woken s'. bounded_range_drop steal True (2 ^ k) (bounds64 a b) s
      = Inr (map the (window (2 ^ k) a b (buffer s)), woken, s') \<and> batch_done k a a b M s s'"
proof -
  have k: "k \<le> 32" and len: "length (buffer s) = 2 ^ k" using assms(1) by (simp_all add: occupied_by_def)
  have "drop_cells (2 ^ k) (range_indices (range_start (bounds64 a b)) (range_end (bounds64 a b))) (buffer s)
      = Inr (map the (window (2 ^ k) a b (buffer s)), clear_window (2 ^ k) a b (buffer s))"
    using assms(2-5) k len by (intro dropped.consume_live) simp_all
  then show ?thesis
    using deoccupy_batch [OF assms(1,6,7), of b a]
    by (auto simp: bounded_range_drop_def bounded_deoccupy_buffer_def)
qed

section \<open>A batch across the wrap-around of the counter\<close>

lemma wrapped_bounds:
  assumes "a \<le> b" "b \<le> a + 2 ^ 32" "\<not> same_cycle a b"
  shows "b mod 2 ^ 32 \<le> a mod (2::nat) ^ 32"
proof -
  define w :: nat where "w = 2 ^ 32"
  have "a div w < b div w"
    using assms(1,3) div_le_mono [of a b w] by (simp add: same_cycle_def w_def)
  then have "w * Suc (a div w) \<le> w * (b div w)" by (intro mult_le_mono2) simp
  moreover have "w * (a div w) + a mod w = a" "w * (b div w) + b mod w = b" by simp_all
  ultimately show ?thesis using assms(2) unfolding w_def [symmetric] mult_Suc_right by linarith
qed

lemma wrapped_counters:
  assumes "a < b" "b \<le> a + 2 ^ k" "k \<le> 32" "\<not> same_cycle a b"
  shows "b mod 2 ^ 32 \<le> a mod (2::nat) ^ 32"
proof -
  have "(2::nat) ^ k \<le> 2 ^ 32" using assms(3) by (simp only: power_increasing_iff one_less_numeral_iff semiring_norm)
  then show ?thesis using assms by (intro wrapped_bounds) auto
qed

text \<open>
  C37. \<open>BufferIter\<close> and the destructors compare the counters themselves, so a batch that spans a
  wrap-around of the counter has no elements for them, although its slices hold all its tasks:
  iterating over it or dropping it loses the tasks.
\<close>

theorem wrapped_batch_is_empty_for_iter:
  assumes "a < b" "b \<le> a + 2 ^ k" "k \<le> 32" "\<not> same_cycle a b" "length buf = 2 ^ k"
  shows "iter_drain (2 ^ k) (into_iter (bounds64 a b)) buf = Inr ([], into_iter (bounds64 a b), buf) \<and>
    range_indices (range_start (bounds64 a b)) (range_end (bounds64 a b)) = [] \<and>
    length (fst (as_slices (2 ^ k) (bounds64 a b) buf) @ snd (as_slices (2 ^ k) (bounds64 a b) buf)) = b - a"
proof -
  note le = wrapped_counters [OF assms(1-4)]
  then have "iter_next (2 ^ k) (iter64 a b a) buf = Inr (None, iter64 a b a, buf)"
    by (simp add: iter_next_def word_less_nat_alt)
  then have "iter_drain (2 ^ k) (iter64 a b a) buf = Inr ([], iter64 a b a, buf)"
    by (subst iter_drain.simps) simp
  then show ?thesis
    using le as_slices_64 [OF assms(3,1,2,5)] by (simp add: into_iter_64 word_le_nat_alt)
qed

theorem wrapped_batch_is_empty_for_iter_witness:
  "iter_drain (2 ^ 2) (into_iter (bounds64 (2 ^ 32 - 1) (2 ^ 32 + 2))) [Some ''x'', Some ''y'', None, Some ''w'']
    = Inr ([], into_iter (bounds64 (2 ^ 32 - 1) (2 ^ 32 + 2)), [Some ''x'', Some ''y'', None, Some ''w''])"
  using wrapped_batch_is_empty_for_iter [of "2 ^ 32 - 1" "2 ^ 32 + 2" 2 "[Some ''x'', Some ''y'', None, Some ''w'']"]
  by (simp add: same_cycle_def)

section \<open>All ways to empty a batch\<close>

text \<open>What a loop over the range of a batch takes, and what it leaves: all tasks, or none of them.\<close>

definition loop_result :: "nat \<Rightarrow> nat \<Rightarrow> nat \<Rightarrow> 't buffer_cell list \<Rightarrow> 't list \<times> 't buffer_cell list" where
  "loop_result k a b buf = (if same_cycle a b then (map the (window (2 ^ k) a b buf), clear_window (2 ^ k) a b buf) else ([], buf))"

lemma loops_take:
  assumes "k \<le> 32" "a < b" "b \<le> a + 2 ^ k" "length buf = 2 ^ k" "window_live (2 ^ k) a b buf"
  shows "drop_cells (2 ^ k) (range_indices (range_start (bounds64 a b)) (range_end (bounds64 a b))) buf = Inr (loop_result k a b buf)"
    and "\<exists>it. iter_range it = bounds64 a b \<and>
      iter_drain (2 ^ k) (into_iter (bounds64 a b)) buf = Inr (fst (loop_result k a b buf), it, snd (loop_result k a b buf))"
proof -
  show "drop_cells (2 ^ k) (range_indices (range_start (bounds64 a b)) (range_end (bounds64 a b))) buf = Inr (loop_result k a b buf)"
  proof (cases "same_cycle a b")
    case True
    then show ?thesis using dropped.consume_live [OF _ assms(2-5)] assms(1) by (simp add: loop_result_def)
  next
    case False
    then show ?thesis using wrapped_counters [OF assms(2,3,1)] by (simp add: loop_result_def word_le_nat_alt)
  qed
  show "\<exists>it. iter_range it = bounds64 a b \<and>
      iter_drain (2 ^ k) (into_iter (bounds64 a b)) buf = Inr (fst (loop_result k a b buf), it, snd (loop_result k a b buf))"
  proof (cases "same_cycle a b")
    case True
    then show ?thesis using iter_drain_64 [OF assms(1) True _ assms(3-5), of a] assms(2)
      by (intro exI [of _ "iter64 a b b"]) (simp add: loop_result_def into_iter_64)
  next
    case False
    have "iter_next (2 ^ k) (iter64 a b a) buf = Inr (None, iter64 a b a, buf)"
      using wrapped_counters [OF assms(2,3,1) False] by (simp add: iter_next_def word_less_nat_alt)
    then show ?thesis using False
      by (intro exI [of _ "iter64 a b a"]) (subst iter_drain.simps, simp add: loop_result_def into_iter_64)
  qed
qed

lemma emptied_iff:
  assumes "occupied_by k M a s" "a < b" "fifo_deque dpush steal contents" "steal_progress steal retries"
  shows "bind_sum (deoccupy_region steal (2 ^ k) (range_start (bounds64 a b) AND (2 ^ k - 1)) (s\<lparr>buffer := snd (loop_result k a b (buffer s))\<rparr>))
      (\<lambda>(woken, s'). Inr (fst (loop_result k a b (buffer s)), woken, s'))
    = bind_sum (deoccupy_region steal (2 ^ k) (range_start (bounds64 a b) AND (2 ^ k - 1)) (s\<lparr>buffer := clear_window (2 ^ k) a b (buffer s)\<rparr>))
      (\<lambda>(woken, s'). Inr (map the (window (2 ^ k) a b (buffer s)), woken, s')) \<longleftrightarrow> same_cycle a b"
proof (cases "same_cycle a b")
  case False
  have "window (2 ^ k) a b (buffer s) \<noteq> []" using assms(2) by (simp add: window_Cons)
  then show ?thesis
    using False deoccupy_range [OF assms(1,3,4), of b "buffer s"] deoccupy_range [OF assms(1,3,4), of b "clear_window (2 ^ k) a b (buffer s)"]
    by (auto simp: loop_result_def)
qed (simp add: loop_result_def)

text \<open>
  C27. \<open>into_bounded\<close> followed by \<open>to_vec\<close> returns the tasks of every batch that fits the buffer. To drop
  the iterator or the bounded range, or the range before it was bounded, gives the very same
  result, tasks in order, wakers, and everything in the queue, exactly when the 32-bit counter does not
  wrap around inside the batch. All of it for tasks that need to be dropped.
\<close>

theorem emptying_agrees:
  assumes "occupied_by k M a s" "a < b" "b \<le> a + 2 ^ k" "window_live (2 ^ k) a b (buffer s)"
    and "fifo_deque dpush steal contents" "steal_progress steal retries"
    and "ur_base_slot ur = mk_slot a p" "slot s = mk_slot b q"
  shows "\<exists>br s1 woken s'. into_bounded ur s = (br, s1) \<and>
    to_vec steal (2 ^ k) br s1 = Inr (map the (window (2 ^ k) a b (buffer s)), woken, s') \<and> batch_done k a a b M s1 s' \<and>
    (buffer_iter_drop steal True (2 ^ k) (into_iter br) s1 = to_vec steal (2 ^ k) br s1 \<longleftrightarrow> same_cycle a b) \<and>
    (bounded_range_drop steal True (2 ^ k) br s1 = to_vec steal (2 ^ k) br s1 \<longleftrightarrow> same_cycle a b) \<and>
    (unbounded_range_drop steal True (2 ^ k) ur s = to_vec steal (2 ^ k) br s1 \<longleftrightarrow> same_cycle a b)"
proof -
  let ?br = "bounds64 a b" and ?s = "s\<lparr>slot := mk_slot b (\<not> q)\<rparr>"
  have k: "k \<le> 32" and len: "length (buffer ?s) = 2 ^ k" and occ: "occupied_by k M a ?s"
    using assms(1) by (simp_all add: occupied_by_def)
  have live: "window_live (2 ^ k) a b (buffer ?s)" using assms(4) by simp
  have into: "into_bounded ur s = (?br, ?s)" by (rule set_bounds_spec [OF assms(7,8)])
  obtain f g where fg: "bounded_as_slices (2 ^ k) ?br ?s = Inr (f, g)" "f @ g = map the (window (2 ^ k) a b (buffer ?s))"
    using bounded_iter_64 [OF k assms(2,3) len live] by (auto simp: bounded_iter_def)
  then have copied: "to_vec steal (2 ^ k) ?br ?s = bind_sum (deoccupy_region steal (2 ^ k) (range_start ?br AND (2 ^ k - 1))
      (?s\<lparr>buffer := clear_window (2 ^ k) a b (buffer ?s)\<rparr>)) (\<lambda>(woken, s'). Inr (map the (window (2 ^ k) a b (buffer ?s)), woken, s'))"
    by (simp add: to_vec_def bounded_deoccupy_buffer_def clear_slices_64 [OF k assms(2,3)])
  obtain it where it: "iter_range it = ?br" "iter_drain (2 ^ k) (into_iter ?br) (buffer ?s)
      = Inr (fst (loop_result k a b (buffer ?s)), it, snd (loop_result k a b (buffer ?s)))"
    using loops_take(2) [OF k assms(2,3) len live] by blast
  note loop = loops_take(1) [OF k assms(2,3) len live]
  note iff = emptied_iff [OF occ assms(2,5,6)]
  have "buffer_iter_drop steal True (2 ^ k) (into_iter ?br) ?s = to_vec steal (2 ^ k) ?br ?s \<longleftrightarrow> same_cycle a b"
    unfolding copied iff [symmetric] by (simp only: buffer_iter_drop_def if_True it bind_sum_simps prod.case iter_deoccupy_buffer_def)
  moreover have "bounded_range_drop steal True (2 ^ k) ?br ?s = to_vec steal (2 ^ k) ?br ?s \<longleftrightarrow> same_cycle a b"
    unfolding copied iff [symmetric] by (simp only: bounded_range_drop_def if_True loop bind_sum_simps case_prod_beta' bounded_deoccupy_buffer_def)
  moreover have "unbounded_range_drop steal True (2 ^ k) ur s = to_vec steal (2 ^ k) ?br ?s \<longleftrightarrow> same_cycle a b"
    unfolding copied iff [symmetric] using into
    by (simp only: unbounded_range_drop_def into_bounded_def Let_def fst_conv snd_conv if_True loop bind_sum_simps case_prod_beta')
  ultimately show ?thesis
    using into to_vec_spec [OF occ assms(2,3) live assms(5,6)] by auto
qed

section \<open>Witnesses\<close>

text \<open>A buffer of 64 cells with one running batch, of three tasks, round the end of the buffer.\<close>

definition example_inner :: "(64 word, nat buffer_cell, string list) inner" where
  "example_inner = \<lparr>slot = mk_slot 65 True, occupancy = enc64 (count {#7#}),
     buffer = [Some 3] @ replicate 61 None @ [Some 1, Some 2], stealer = [''w'']\<rparr>"

lemma example_occupied: "occupied_by 6 {#7#} 62 example_inner"
  by (simp add: occupied_by_def example_inner_def region_def)

lemma example_inner_slot: "slot example_inner = mk_slot 65 True"
  by (simp add: example_inner_def)

lemma example_upt: "[62..<65] = [62, 63, 64 :: nat]" "[63..<65] = [63, 64 :: nat]"
  by (simp_all add: upt_conv_Cons)

lemma example_window:
  "window_live (2 ^ 6) 62 65 (buffer example_inner)"
  "window_live (2 ^ 6) 63 65 (buffer example_inner)"
  "map the (window (2 ^ 6) 62 65 (buffer example_inner)) = [1, 2, 3]"
  "map the (window (2 ^ 6) 63 65 (buffer example_inner)) = [2, 3]"
  "same_cycle 62 65"
  unfolding window_live_def window_def atLeastLessThan_upt example_upt
  by (simp_all add: example_inner_def nth_append same_cycle_def)

theorem unbounded_range_drop_spec_witness:
  "\<exists>woken s'. unbounded_range_drop list_steal True (2 ^ 6) \<lparr>ur_base_slot = mk_slot 62 True\<rparr> example_inner
      = Inr ([1, 2, 3], woken, s') \<and>
    batch_done 6 62 62 65 {#7#} (example_inner\<lparr>slot := mk_slot 65 False\<rparr>) s'"
  using unbounded_range_drop_spec [OF example_occupied _ _ example_window(1,5),
      of list_push list_steal "\<lambda>d. d" "\<lambda>d. 0" True True]
  by (simp add: example_window(3) [simplified]) (simp add: example_inner_def)

theorem bounded_range_drop_spec_witness:
  "\<exists>woken s'. bounded_range_drop list_steal True (2 ^ 6) (bounds64 62 65) example_inner
      = Inr ([1, 2, 3], woken, s') \<and> batch_done 6 62 62 65 {#7#} example_inner s'"
  using bounded_range_drop_spec [OF example_occupied _ _ example_window(1,5),
      of list_push list_steal "\<lambda>d. d" "\<lambda>d. 0"]
  by (simp add: example_window(3) [simplified])

theorem emptying_agrees_witness:
  "\<exists>br s1 woken s'. into_bounded \<lparr>ur_base_slot = mk_slot 62 True\<rparr> example_inner = (br, s1) \<and>
    to_vec list_steal (2 ^ 6) br s1 = Inr ([1, 2, 3], woken, s') \<and>
    buffer_iter_drop list_steal True (2 ^ 6) (into_iter br) s1 = Inr ([1, 2, 3], woken, s') \<and>
    bounded_range_drop list_steal True (2 ^ 6) br s1 = Inr ([1, 2, 3], woken, s') \<and>
    unbounded_range_drop list_steal True (2 ^ 6) \<lparr>ur_base_slot = mk_slot 62 True\<rparr> example_inner = Inr ([1, 2, 3], woken, s')"
  using emptying_agrees [where ur = "\<lparr>ur_base_slot = mk_slot 62 True\<rparr>" and p = True and q = True,
      OF example_occupied _ _ example_window(1) list_deque]
  by (auto simp: example_window [simplified] example_inner_slot)

end
