(* ===== verification/TaskRefs.thy ===== *)
theory TaskRefs
  imports Assignment
begin

unbundle bit_operations_syntax

text \<open>
  \<open>task.rs\<close>, the part behind \<open>TaskQueue\<close>: the buffer cell \<open>TaskRef\<close>, the \<open>Receiver\<close> inside a
  pinned \<open>BatchedTask\<close>, the resolution of a task and the destructor of \<open>BatchedTask\<close>; and from
  \<open>assignment.rs\<close> \<open>PendingAssignment\<close> and \<open>TaskAssignment\<close>, which own a range of such cells.

  A \<open>TaskRef\<close> points at the receiver of its task and the receiver points back at the state word
  of the cell. Pinned futures are an explicit store \<open>'f \<rightharpoonup> \<dots>\<close> from their addresses; a write through
  a pointer whose future is gone, or is not \<open>Batched\<close>, is the fault \<open>DanglingReceiver\<close>. The pointer
  to a state word is the index of the cell, which lives as long as the queue.
\<close>

section \<open>Cells, receivers and futures\<close>

definition SETTING_VALUE :: "'w::len word" where
  "SETTING_VALUE = push_bit 0 1"

definition VALUE_SET :: "'w::len word" where
  "VALUE_SET = push_bit 1 1"

definition RX_DROPPED :: "'w::len word" where
  "RX_DROPPED = push_bit 2 1"

record ('u, 't, 'f) task_ref =
  tr_state :: 'u
  tr_rx :: "'f option"
  tr_task :: "'t option"

record ('u, 'v, 'wk) receiver =
  rx_state :: 'u
  rx_value :: "'v option"
  rx_waker :: 'wk

datatype ('u, 't, 'v, 'wk) batched_task =
    Unbatched 't
  | Batched "('u, 'v, 'wk) receiver"
  | Received

type_synonym ('u, 't, 'v, 'wk, 'f) futures = "'f \<rightharpoonup> ('u, 't, 'v, 'wk) batched_task"

text \<open>
  The accessors of the cells of a \<open>TaskRef\<close> and of the value of a \<open>Receiver\<close>: a closure gets a pointer
  to the contents, and returns its result and the new contents. \<open>rx()\<close> assumes that the receiver is set.
\<close>

definition with_state :: "('u \<Rightarrow> 'r \<times> 'u) \<Rightarrow> ('u, 't, 'f) task_ref \<Rightarrow> 'r \<times> ('u, 't, 'f) task_ref" where
  [simp]: "with_state f cell = (let (r, val) = f (tr_state cell) in (r, cell\<lparr>tr_state := val\<rparr>))"

definition set_state_unsync :: "'u \<Rightarrow> ('u, 't, 'f) task_ref \<Rightarrow> ('u, 't, 'f) task_ref" where
  [simp]: "set_state_unsync state cell = cell\<lparr>tr_state := state\<rparr>"

definition task_ref_rx :: "('u, 't, 'f) task_ref \<Rightarrow> fault + 'f" where
  [simp]: "task_ref_rx cell = (case tr_rx cell of None \<Rightarrow> Inl UninitRead | Some f \<Rightarrow> Inr f)"

definition with_rx_mut :: "('f option \<Rightarrow> 'r \<times> 'f option) \<Rightarrow> ('u, 't, 'f) task_ref \<Rightarrow> 'r \<times> ('u, 't, 'f) task_ref" where
  [simp]: "with_rx_mut f cell = (let (r, val) = f (tr_rx cell) in (r, cell\<lparr>tr_rx := val\<rparr>))"

definition with_task_mut :: "('t option \<Rightarrow> 'r \<times> 't option) \<Rightarrow> ('u, 't, 'f) task_ref \<Rightarrow> 'r \<times> ('u, 't, 'f) task_ref" where
  [simp]: "with_task_mut f cell = (let (r, val) = f (tr_task cell) in (r, cell\<lparr>tr_task := val\<rparr>))"

definition with_value_mut :: "('v option \<Rightarrow> 'r \<times> 'v option) \<Rightarrow> ('u, 'v, 'wk) receiver \<Rightarrow> 'r \<times> ('u, 'v, 'wk) receiver" where
  [simp]: "with_value_mut f rx = (let (r, val) = f (rx_value rx) in (r, rx\<lparr>rx_value := val\<rparr>))"

definition task_ref_new_uninit :: "('w::len word, 't, 'f) task_ref" where
  "task_ref_new_uninit = \<lparr>tr_state = 0, tr_rx = None, tr_task = None\<rparr>"

definition task_ref_init :: "'t \<Rightarrow> 'f \<Rightarrow> ('w::len word, 't, 'f) task_ref \<Rightarrow> ('w word, 't, 'f) task_ref" where
  "task_ref_init task rx cell =
     (let cell1 = set_state_unsync 0 cell;
          cell2 = snd (with_rx_mut (\<lambda>val. ((), Some rx)) cell1)
      in snd (with_task_mut (\<lambda>val. ((), Some task)) cell2))"

definition take_task_unchecked ::
    "('w::len word, 't, 'f) task_ref \<Rightarrow> fault + 't \<times> ('w word, 't, 'f) task_ref" where
  "take_task_unchecked cell =
     (let (val, cell') = with_task_mut (\<lambda>val. (val, None)) cell
      in case val of None \<Rightarrow> Inl UninitRead | Some task \<Rightarrow> Inr (task, cell'))"

text \<open>\<open>Deref\<close>, \<open>PartialEq\<close> and \<open>PartialOrd\<close> of a cell read the task of the cell.\<close>

definition task_ref_task :: "('w::len word, 't, 'f) task_ref \<Rightarrow> fault + 't" where
  "task_ref_task cell = (case tr_task cell of None \<Rightarrow> Inl UninitRead | Some task \<Rightarrow> Inr task)"

definition task_ref_eq ::
    "('t \<Rightarrow> 't \<Rightarrow> bool) \<Rightarrow> ('w::len word, 't, 'f) task_ref \<Rightarrow> ('w word, 't, 'f) task_ref \<Rightarrow> fault + bool" where
  "task_ref_eq eq a b =
     bind_sum (task_ref_task a) (\<lambda>x. bind_sum (task_ref_task b) (\<lambda>y. Inr (eq x y)))"

definition task_ref_partial_cmp ::
    "('t \<Rightarrow> 't \<Rightarrow> 'o option) \<Rightarrow> ('w::len word, 't, 'f) task_ref \<Rightarrow> ('w word, 't, 'f) task_ref
      \<Rightarrow> fault + 'o option" where
  "task_ref_partial_cmp cmp a b =
     bind_sum (task_ref_task a) (\<lambda>x. bind_sum (task_ref_task b) (\<lambda>y. Inr (cmp x y)))"

text \<open>
  \<open>Debug\<close>, and under optional features \<open>BelongsTo\<close> of diesel and \<open>ToRedisArgs\<close> of redis, call the
  method of the task, an argument here; \<open>'o\<close> is what is written to.
\<close>

definition task_ref_fmt :: "('t \<Rightarrow> 'o \<Rightarrow> 'o) \<Rightarrow> ('w::len word, 't, 'f) task_ref \<Rightarrow> 'o \<Rightarrow> fault + 'o" where
  "task_ref_fmt fmt cell out = bind_sum (task_ref_task cell) (\<lambda>task. Inr (fmt task out))"

definition task_ref_foreign_key :: "('t \<Rightarrow> 'k option) \<Rightarrow> ('w::len word, 't, 'f) task_ref \<Rightarrow> fault + 'k option" where
  "task_ref_foreign_key foreign_key cell = bind_sum (task_ref_task cell) (\<lambda>task. Inr (foreign_key task))"

definition task_ref_write_redis_args :: "('t \<Rightarrow> 'o \<Rightarrow> 'o) \<Rightarrow> ('w::len word, 't, 'f) task_ref \<Rightarrow> 'o \<Rightarrow> fault + 'o" where
  "task_ref_write_redis_args write_args cell out = bind_sum (task_ref_task cell) (\<lambda>task. Inr (write_args task out))"

definition receiver_new :: "'u \<Rightarrow> 'wk \<Rightarrow> ('u, 'v, 'wk) receiver" where
  "receiver_new state waker = \<lparr>rx_state = state, rx_value = None, rx_waker = waker\<rparr>"

definition batched_task_new :: "'t \<Rightarrow> ('u, 't, 'v, 'wk) batched_task" where
  "batched_task_new task = Unbatched task"

section \<open>Resolution\<close>

text \<open>
  \<open>resolve_unchecked\<close>, run without interference: the wakers it wakes, the value if it drops it,
  the new cell and the new store.
\<close>

definition resolve_unchecked ::
    "'v \<Rightarrow> ('w::len word, 't, 'f) task_ref \<Rightarrow> ('w word, 't, 'v, 'wk, 'f) futures
      \<Rightarrow> fault + 'wk list \<times> 'v list \<times> ('w word, 't, 'f) task_ref \<times> ('w word, 't, 'v, 'wk, 'f) futures" where
  "resolve_unchecked value cell futs =
     (let (state, cell1) = with_state (\<lambda>val. (val, val OR SETTING_VALUE)) cell
      in if state AND RX_DROPPED = 0 then
           bind_sum (task_ref_rx cell1) (\<lambda>f.
           case futs f of
             Some (Batched rx) \<Rightarrow>
               Inr ([rx_waker rx], [],
                    snd (with_state (\<lambda>val. (val, val XOR (SETTING_VALUE OR VALUE_SET))) cell1),
                    futs(f \<mapsto> Batched (snd (with_value_mut (\<lambda>val. ((), Some value)) rx))))
           | _ \<Rightarrow> Inl DanglingReceiver)
         else Inr ([], [value], cell1, futs))"

section \<open>The destructor of BatchedTask\<close>

text \<open>
  The spin loop: \<open>loads i\<close> is what the \<open>i\<close>-th load of the state word reads, which other threads
  decide. \<open>None\<close> is a loop that does not end.
\<close>

partial_function (option) spin_loop :: "(nat \<Rightarrow> 'w::len word) \<Rightarrow> nat \<Rightarrow> 'w word \<Rightarrow> 'w word option" where
  "spin_loop loads i state =
     (if state AND SETTING_VALUE = SETTING_VALUE then spin_loop loads (Suc i) (loads i)
      else Some state)"

text \<open>
  \<open>PinnedDrop for BatchedTask\<close>, run without interference: the values dropped with it and the new
  cell its receiver points at. \<open>drops_task\<close> is \<open>needs_drop::<T::Task>()\<close>.
\<close>

definition batched_task_drop ::
    "bool \<Rightarrow> ('w::len word, 't, 'v, 'wk) batched_task \<Rightarrow> ('w word, 't, 'f) task_ref
      \<Rightarrow> fault + 'v list \<times> ('w word, 't, 'f) task_ref" where
  "batched_task_drop drops_task bt cell =
     (case bt of
        Batched rx \<Rightarrow>
          let prev = tr_state cell;
              cell' = cell\<lparr>tr_state := prev OR RX_DROPPED\<rparr>
          in (case spin_loop (\<lambda>_. tr_state cell') 0 prev of
                None \<Rightarrow> Inl Diverges
              | Some state \<Rightarrow>
                  if drops_task \<and> state AND VALUE_SET = VALUE_SET then
                    case rx_value rx of
                      None \<Rightarrow> Inl UninitRead
                    | Some value \<Rightarrow> Inr ([value], cell')
                  else Inr ([], cell'))
      | _ \<Rightarrow> Inr ([], cell))"

section \<open>PendingAssignment and TaskAssignment\<close>

type_synonym 'u task_assignment = "'u index_range"

definition set_assignment_bounds ::
    "'w::len word pending_assignment \<Rightarrow> ('w word, 'c, 'd) inner
      \<Rightarrow> 'w word index_range \<times> ('w word, 'c, 'd) inner" where
  "set_assignment_bounds pa s =
     (let end_slot = slot s;
          s' = s\<lparr>slot := end_slot XOR PHASE\<rparr>
      in (\<lparr>range_start = drop_bit (INDEX_SHIFT TYPE('w)) (pa_base_slot pa),
           range_end = drop_bit (INDEX_SHIFT TYPE('w)) end_slot\<rparr>, s'))"

definition into_assignment ::
    "'w::len word pending_assignment \<Rightarrow> ('w word, 'c, 'd) inner
      \<Rightarrow> 'w word task_assignment \<times> ('w word, 'c, 'd) inner" where
  "into_assignment pa s = set_assignment_bounds pa s"

text \<open>\<open>TaskAssignment::tasks\<close>: the cells of the two slices in order, given by their indices.\<close>

definition assignment_tasks :: "'w::len word \<Rightarrow> 'w word task_assignment \<Rightarrow> nat list" where
  "assignment_tasks N ta = slice_indices N ta"

definition assignment_deoccupy_buffer ::
    "('d \<Rightarrow> 'wk steal \<times> 'd) \<Rightarrow> 'w::len word \<Rightarrow> 'w word task_assignment
      \<Rightarrow> ('w word, 'c, 'd) inner \<Rightarrow> fault + 'wk list \<times> ('w word, 'c, 'd) inner" where
  "assignment_deoccupy_buffer steal N ta s = deoccupy_region steal N (range_start ta AND (N - 1)) s"

text \<open>The closure of \<open>TaskAssignment::map\<close> on one cell, and its loop over the cells.\<close>

definition map_cell ::
    "('t \<Rightarrow> 'v) \<Rightarrow> ('w::len word, 't, 'f) task_ref \<Rightarrow> ('w word, 't, 'v, 'wk, 'f) futures
      \<Rightarrow> fault + 'wk list \<times> 'v list \<times> ('w word, 't, 'f) task_ref \<times> ('w word, 't, 'v, 'wk, 'f) futures" where
  "map_cell op cell futs =
     bind_sum (take_task_unchecked cell) (\<lambda>(task, cell1). resolve_unchecked (op task) cell1 futs)"

fun map_cells ::
    "('t \<Rightarrow> 'v) \<Rightarrow> nat list \<Rightarrow> ('w::len word, 't, 'f) task_ref list \<Rightarrow> ('w word, 't, 'v, 'wk, 'f) futures
      \<Rightarrow> fault + 'wk list \<times> 'v list \<times> ('w word, 't, 'f) task_ref list \<times> ('w word, 't, 'v, 'wk, 'f) futures" where
  "map_cells op [] buf futs = Inr ([], [], buf, futs)"
| "map_cells op (i # is) buf futs =
     bind_sum (map_cell op (buf ! i) futs) (\<lambda>(ws, vs, cell, futs1).
     bind_sum (map_cells op is (buf[i := cell]) futs1) (\<lambda>(ws', vs', buf', futs').
     Inr (ws @ ws', vs @ vs', buf', futs')))"

definition assignment_map ::
    "('d \<Rightarrow> 'wk steal \<times> 'd) \<Rightarrow> ('t \<Rightarrow> 'v) \<Rightarrow> 'w::len word \<Rightarrow> 'w word task_assignment
      \<Rightarrow> ('w word, ('w word, 't, 'f) task_ref, 'd) inner \<Rightarrow> ('w word, 't, 'v, 'wk, 'f) futures
      \<Rightarrow> fault + 'wk list \<times> 'v list \<times> ('w word, ('w word, 't, 'f) task_ref, 'd) inner
           \<times> ('w word, 't, 'v, 'wk, 'f) futures" where
  "assignment_map steal op N ta s futs =
     bind_sum (map_cells op (assignment_tasks N ta) (buffer s) futs) (\<lambda>(ws, vs, buf, futs').
     bind_sum (assignment_deoccupy_buffer steal N ta (s\<lparr>buffer := buf\<rparr>)) (\<lambda>(ws', s').
     Inr (ws @ ws', vs, s', futs')))"

text \<open>
  \<open>TaskAssignment::resolve_with_iter\<close>: the cells are zipped with the values of an iterator (\<open>next\<close>
  on its state), so the loop stops at the shorter of the two. The tasks dropped come first.
\<close>

definition zip_cell ::
    "bool \<Rightarrow> 'v \<Rightarrow> ('w::len word, 't, 'f) task_ref \<Rightarrow> ('w word, 't, 'v, 'wk, 'f) futures
      \<Rightarrow> fault + 't list \<times> 'wk list \<times> 'v list \<times> ('w word, 't, 'f) task_ref
           \<times> ('w word, 't, 'v, 'wk, 'f) futures" where
  "zip_cell drops_task value cell futs =
     bind_sum (if drops_task
               then bind_sum (take_task_unchecked cell) (\<lambda>(task, cell1). Inr ([task], cell1))
               else Inr ([], cell)) (\<lambda>(ts, cell1).
     bind_sum (resolve_unchecked value cell1 futs) (\<lambda>(ws, vs, cell2, futs1).
     Inr (ts, ws, vs, cell2, futs1)))"

fun resolve_zip ::
    "bool \<Rightarrow> ('i \<Rightarrow> ('v \<times> 'i) option) \<Rightarrow> nat list \<Rightarrow> 'i \<Rightarrow> ('w::len word, 't, 'f) task_ref list
      \<Rightarrow> ('w word, 't, 'v, 'wk, 'f) futures
      \<Rightarrow> fault + 't list \<times> 'wk list \<times> 'v list \<times> ('w word, 't, 'f) task_ref list
           \<times> ('w word, 't, 'v, 'wk, 'f) futures" where
  "resolve_zip drops_task next_value [] it buf futs = Inr ([], [], [], buf, futs)"
| "resolve_zip drops_task next_value (i # is) it buf futs =
     (case next_value it of
        None \<Rightarrow> Inr ([], [], [], buf, futs)
      | Some (value, it') \<Rightarrow>
          bind_sum (zip_cell drops_task value (buf ! i) futs) (\<lambda>(ts, ws, vs, cell, futs1).
          bind_sum (resolve_zip drops_task next_value is it' (buf[i := cell]) futs1)
            (\<lambda>(ts', ws', vs', buf', futs'). Inr (ts @ ts', ws @ ws', vs @ vs', buf', futs'))))"

definition resolve_with_iter ::
    "('d \<Rightarrow> 'wk steal \<times> 'd) \<Rightarrow> bool \<Rightarrow> ('i \<Rightarrow> ('v \<times> 'i) option) \<Rightarrow> 'w::len word \<Rightarrow> 'w word task_assignment
      \<Rightarrow> 'i \<Rightarrow> ('w word, ('w word, 't, 'f) task_ref, 'd) inner \<Rightarrow> ('w word, 't, 'v, 'wk, 'f) futures
      \<Rightarrow> fault + 't list \<times> 'wk list \<times> 'v list \<times> ('w word, ('w word, 't, 'f) task_ref, 'd) inner
           \<times> ('w word, 't, 'v, 'wk, 'f) futures" where
  "resolve_with_iter steal drops_task next_value N ta it s futs =
     bind_sum (resolve_zip drops_task next_value (assignment_tasks N ta) it (buffer s) futs)
       (\<lambda>(ts, ws, vs, buf, futs').
     bind_sum (assignment_deoccupy_buffer steal N ta (s\<lparr>buffer := buf\<rparr>)) (\<lambda>(ws', s').
     Inr (ts, ws @ ws', vs, s', futs')))"

text \<open>The destructor of \<open>TaskAssignment\<close>: the tasks are dropped, no receiver is resolved.\<close>

fun drop_tasks ::
    "nat list \<Rightarrow> ('w::len word, 't, 'f) task_ref list \<Rightarrow> fault + 't list \<times> ('w word, 't, 'f) task_ref list" where
  "drop_tasks [] buf = Inr ([], buf)"
| "drop_tasks (i # is) buf =
     bind_sum (take_task_unchecked (buf ! i)) (\<lambda>(task, cell).
     bind_sum (drop_tasks is (buf[i := cell])) (\<lambda>(ts, buf'). Inr (task # ts, buf')))"

definition task_assignment_drop ::
    "('d \<Rightarrow> 'wk steal \<times> 'd) \<Rightarrow> bool \<Rightarrow> 'w::len word \<Rightarrow> 'w word task_assignment
      \<Rightarrow> ('w word, ('w word, 't, 'f) task_ref, 'd) inner
      \<Rightarrow> fault + 't list \<times> 'wk list \<times> ('w word, ('w word, 't, 'f) task_ref, 'd) inner" where
  "task_assignment_drop steal drops_task N ta s =
     bind_sum (if drops_task then drop_tasks (assignment_tasks N ta) (buffer s) else Inr ([], buffer s))
       (\<lambda>(ts, buf).
     bind_sum (assignment_deoccupy_buffer steal N ta (s\<lparr>buffer := buf\<rparr>)) (\<lambda>(ws, s').
     Inr (ts, ws, s')))"

definition pending_assignment_drop ::
    "('d \<Rightarrow> 'wk steal \<times> 'd) \<Rightarrow> bool \<Rightarrow> 'w::len word \<Rightarrow> 'w word pending_assignment
      \<Rightarrow> ('w word, ('w word, 't, 'f) task_ref, 'd) inner
      \<Rightarrow> fault + 't list \<times> 'wk list \<times> ('w word, ('w word, 't, 'f) task_ref, 'd) inner" where
  "pending_assignment_drop steal drops_task N pa s =
     (let (task_range, s1) = set_assignment_bounds pa s
      in task_assignment_drop steal drops_task N task_range s1)"

section \<open>The contract of the state word\<close>

text \<open>
  The state word carries three flags. The contract: what the resolver (\<open>begin_set\<close>, \<open>finish_set\<close>)
  and the receiver (\<open>drop_rx\<close>) do to them, and what they read.
\<close>

locale negotiation_word =
  fixes enc :: "bool \<Rightarrow> bool \<Rightarrow> bool \<Rightarrow> 's"
    and begin_set :: "'s \<Rightarrow> 's"
    and finish_set :: "'s \<Rightarrow> 's"
    and drop_rx :: "'s \<Rightarrow> 's"
    and is_setting :: "'s \<Rightarrow> bool"
    and is_set :: "'s \<Rightarrow> bool"
    and is_dropped :: "'s \<Rightarrow> bool"
  assumes begin_enc: "begin_set (enc s v d) = enc True v d"
    and finish_enc: "finish_set (enc s v d) = enc (\<not> s) (\<not> v) d"
    and drop_enc: "drop_rx (enc s v d) = enc s v True"
    and is_setting_enc: "is_setting (enc s v d) = s"
    and is_set_enc: "is_set (enc s v d) = v"
    and is_dropped_enc: "is_dropped (enc s v d) = d"
begin

text \<open>The resolver's two steps publish the value, whenever the receiver's step comes in between.\<close>

lemma publish: "finish_set (begin_set (enc False False d)) = enc False True d"
  by (simp add: begin_enc finish_enc)

lemma drop_commutes_begin: "drop_rx (begin_set (enc s v d)) = begin_set (drop_rx (enc s v d))"
  by (simp add: begin_enc drop_enc)

lemma drop_commutes_finish: "drop_rx (finish_set (enc s v d)) = finish_set (drop_rx (enc s v d))"
  by (simp add: finish_enc drop_enc)

text \<open>Whoever comes second sees the other's flag: at least one of the two knows of the race.\<close>

lemma race_is_seen:
  "is_dropped (drop_rx (enc False v False)) \<and> is_setting (begin_set (enc False v False))"
  by (simp add: begin_enc drop_enc is_setting_enc is_dropped_enc)

end

definition flags :: "bool \<Rightarrow> bool \<Rightarrow> bool \<Rightarrow> 64 word" where
  "flags s v d = (of_bool s OR push_bit 1 (of_bool v)) OR push_bit 2 (of_bool d)"

lemma flags_0: "flags False False False = 0"
  by (simp add: flags_def)

lemmas flag_defs = SETTING_VALUE_def VALUE_SET_def RX_DROPPED_def

interpretation state64: negotiation_word flags
  "\<lambda>w. w OR SETTING_VALUE"
  "\<lambda>w. w XOR (SETTING_VALUE OR VALUE_SET)"
  "\<lambda>w. w OR RX_DROPPED"
  "\<lambda>w. w AND SETTING_VALUE = SETTING_VALUE"
  "\<lambda>w. w AND VALUE_SET = VALUE_SET"
  "\<lambda>w. w AND RX_DROPPED \<noteq> 0"
proof (unfold_locales, goal_cases)
  case (1 s v d)
  then show ?case by (cases s; cases v; cases d) (simp_all add: flags_def flag_defs)
next
  case (2 s v d)
  then show ?case by (cases s; cases v; cases d) (simp_all add: flags_def flag_defs)
next
  case (3 s v d)
  then show ?case by (cases s; cases v; cases d) (simp_all add: flags_def flag_defs)
next
  case (4 s v d)
  then show ?case by (cases s; cases v; cases d) (simp_all add: flags_def flag_defs)
next
  case (5 s v d)
  then show ?case by (cases s; cases v; cases d) (simp_all add: flags_def flag_defs)
next
  case (6 s v d)
  then show ?case by (cases s; cases v; cases d) (simp_all add: flags_def flag_defs)
qed

lemmas flag_simps = state64.begin_enc state64.finish_enc state64.drop_enc
  state64.is_setting_enc state64.is_set_enc state64.is_dropped_enc

lemma flags_not_dropped [simp]: "flags s v d AND RX_DROPPED = 0 \<longleftrightarrow> \<not> d"
  using state64.is_dropped_enc [of s v d] by blast

section \<open>Resolving one task\<close>

text \<open>
  \<open>task_cell t f d\<close>: a cell with the task \<open>t\<close> of the future at \<open>f\<close>, waiting to be resolved, whose
  receiver was dropped if \<open>d\<close>. \<open>settled_cell f d\<close>: the same cell after its resolution.
\<close>

definition task_cell :: "'t \<Rightarrow> 'f \<Rightarrow> bool \<Rightarrow> (64 word, 't, 'f) task_ref" where
  "task_cell t f d = \<lparr>tr_state = flags False False d, tr_rx = Some f, tr_task = Some t\<rparr>"

definition settled_cell :: "'f \<Rightarrow> bool \<Rightarrow> (64 word, 't, 'f) task_ref" where
  "settled_cell f d = \<lparr>tr_state = flags d (\<not> d) d, tr_rx = Some f, tr_task = None\<rparr>"

text \<open>What the tasks of a batch show before they are resolved, and after.\<close>

lemma task_cell_delegates:
  "task_ref_eq eq (task_cell t f d) (task_cell u g e) = Inr (eq t u)"
  "task_ref_partial_cmp cmp (task_cell t f d) (task_cell u g e) = Inr (cmp t u)"
  "task_ref_fmt fmt (task_cell t f d) out = Inr (fmt t out)"
  "task_ref_foreign_key key (task_cell t f d) = Inr (key t)"
  "task_ref_write_redis_args wr (task_cell t f d) out = Inr (wr t out)"
  by (simp_all add: task_ref_eq_def task_ref_partial_cmp_def task_ref_fmt_def task_ref_foreign_key_def
      task_ref_write_redis_args_def task_ref_task_def task_cell_def)

lemma settled_cell_delegates:
  "task_ref_task (settled_cell f d) = Inl UninitRead"
  by (simp add: task_ref_task_def settled_cell_def)

lemma init_task_cell: "task_ref_init t f cell = task_cell t f False"
  by (simp add: task_ref_init_def task_cell_def flags_0)

text \<open>\<open>deliver\<close>: the store after the value \<open>v\<close> reached the receiver \<open>rx\<close> of the future at \<open>f\<close>.\<close>

definition deliver ::
    "('u, 't, 'v, 'wk, 'f) futures \<Rightarrow> 'f \<Rightarrow> ('u, 'v, 'wk) receiver \<Rightarrow> 'v \<Rightarrow> ('u, 't, 'v, 'wk, 'f) futures" where
  "deliver futs f rx v = futs(f \<mapsto> Batched (rx\<lparr>rx_value := Some v\<rparr>))"

lemma resolve_live:
  assumes "tr_state cell = flags False False False" "tr_rx cell = Some f" "futs f = Some (Batched rx)"
  shows "resolve_unchecked v cell futs
    = Inr ([rx_waker rx], [], cell\<lparr>tr_state := flags False True False\<rparr>, deliver futs f rx v)"
  using assms by (simp add: resolve_unchecked_def flag_simps deliver_def Let_def)

lemma resolve_dropped:
  assumes "tr_state cell = flags False False True"
  shows "resolve_unchecked v cell futs = Inr ([], [v], cell\<lparr>tr_state := flags True False True\<rparr>, futs)"
  using assms by (simp add: resolve_unchecked_def flag_simps Let_def)

lemma map_cell_live:
  "futs f = Some (Batched rx) \<Longrightarrow>
    map_cell op (task_cell t f False) futs = Inr ([rx_waker rx], [], settled_cell f False, deliver futs f rx (op t))"
  by (simp add: map_cell_def take_task_unchecked_def task_cell_def settled_cell_def resolve_live)

lemma map_cell_dropped:
  "map_cell op (task_cell t f True) futs = Inr ([], [op t], settled_cell f True, futs)"
  by (simp add: map_cell_def take_task_unchecked_def task_cell_def settled_cell_def resolve_dropped)

section \<open>Resolving a batch with map\<close>

text \<open>
  A batch is a list of tasks \<open>x\<close>: in cell \<open>c x\<close> lies the task \<open>t x\<close> of the future at \<open>f x\<close> with
  receiver \<open>rx x\<close>, dropped if \<open>d x\<close>. \<open>deliver_all\<close> is the store after all values were delivered.
\<close>

fun deliver_all ::
    "('x \<Rightarrow> bool) \<Rightarrow> ('x \<Rightarrow> 'f) \<Rightarrow> ('x \<Rightarrow> ('u, 'v, 'wk) receiver) \<Rightarrow> ('x \<Rightarrow> 'v) \<Rightarrow> 'x list
      \<Rightarrow> ('u, 't, 'v, 'wk, 'f) futures \<Rightarrow> ('u, 't, 'v, 'wk, 'f) futures" where
  "deliver_all d f rx v [] futs = futs"
| "deliver_all d f rx v (x # xs) futs =
     deliver_all d f rx v xs (if d x then futs else deliver futs (f x) (rx x) (v x))"

lemma deliver_all_other:
  "(\<And>x. x \<in> set xs \<Longrightarrow> \<not> d x \<Longrightarrow> f x \<noteq> g) \<Longrightarrow> deliver_all d f rx v xs futs g = futs g"
  by (induction xs arbitrary: futs) (auto simp: deliver_def)

lemma deliver_all_at:
  assumes "distinct xs" "inj_on f {x \<in> set xs. \<not> d x}" "x \<in> set xs" "\<not> d x"
  shows "deliver_all d f rx v xs futs (f x) = Some (Batched (rx x\<lparr>rx_value := Some (v x)\<rparr>))"
  using assms
proof (induction xs arbitrary: futs)
  case Nil
  then show ?case by simp
next
  case (Cons y ys)
  have inj: "inj_on f {x \<in> set ys. \<not> d x}"
    using Cons.prems(2) by (rule inj_on_subset) auto
  show ?case
  proof (cases "x = y")
    case False
    then show ?thesis using Cons.IH [OF _ inj] Cons.prems by simp
  next
    case True
    have "f m \<noteq> f y" if "m \<in> set ys" "\<not> d m" for m
      using inj_onD [OF Cons.prems(2), of m y] that Cons.prems(1,4) True by auto
    then have "deliver_all d f rx v ys (deliver futs (f y) (rx y) (v y)) (f y)
        = deliver futs (f y) (rx y) (v y) (f y)"
      by (intro deliver_all_other) auto
    then show ?thesis using True Cons.prems(4) by (simp add: deliver_def)
  qed
qed

lemma nth_settle_other:
  "\<forall>x\<in>set xs. c x \<noteq> j \<Longrightarrow> fold (\<lambda>x buf. buf[c x := g x]) xs buf ! j = buf ! j"
  by (induction xs arbitrary: buf) auto

lemma nth_settle:
  assumes "inj_on c (set xs)" "distinct xs" "x \<in> set xs" "c x < length buf"
  shows "fold (\<lambda>x buf. buf[c x := g x]) xs buf ! c x = g x"
  using assms
proof (induction xs arbitrary: buf)
  case Nil
  then show ?case by simp
next
  case (Cons y ys)
  show ?case
  proof (cases "x = y")
    case True
    then have "\<forall>z\<in>set ys. c z \<noteq> c x" using Cons.prems(1,2) by (auto simp: inj_on_def)
    then show ?thesis using Cons.prems(4) True by (simp add: nth_settle_other)
  next
    case False
    then show ?thesis using Cons.IH Cons.prems by (simp add: inj_on_def)
  qed
qed

lemma length_settle [simp]: "length (fold (\<lambda>x buf. buf[c x := g x]) xs buf) = length buf"
  by (induction xs arbitrary: buf) auto

lemma map_cells_spec:
  assumes "distinct xs" "inj_on c (set xs)"
    and "\<forall>x\<in>set xs. c x < length buf \<and> buf ! c x = task_cell (t x) (f x) (d x)"
    and "inj_on f {x \<in> set xs. \<not> d x}" "\<forall>x\<in>set xs. \<not> d x \<longrightarrow> futs (f x) = Some (Batched (rx x))"
  shows "map_cells op (map c xs) buf futs = Inr
    (map (\<lambda>x. rx_waker (rx x)) (filter (\<lambda>x. \<not> d x) xs), map (\<lambda>x. op (t x)) (filter d xs),
     fold (\<lambda>x buf. buf[c x := settled_cell (f x) (d x)]) xs buf,
     deliver_all d f rx (\<lambda>x. op (t x)) xs futs)"
  using assms
proof (induction xs arbitrary: buf futs)
  case Nil
  then show ?case by simp
next
  case (Cons y ys)
  let ?buf = "buf[c y := settled_cell (f y) (d y)]"
  let ?futs = "if d y then futs else deliver futs (f y) (rx y) (op (t y))"
  have inj: "inj_on f {x \<in> set ys. \<not> d x}" using Cons.prems(4) by (rule inj_on_subset) auto
  have injc: "inj_on c (set ys)" using Cons.prems(2) by (rule inj_on_subset) auto
  have "f m \<noteq> f y" if "m \<in> set ys" "\<not> d m" "\<not> d y" for m
    using inj_onD [OF Cons.prems(4), of m y] that Cons.prems(1) by auto
  then have futs: "\<forall>x\<in>set ys. \<not> d x \<longrightarrow> ?futs (f x) = Some (Batched (rx x))"
    using Cons.prems(5) by (auto simp: deliver_def)
  have "c x \<noteq> c y" if "x \<in> set ys" for x
    using inj_onD [OF Cons.prems(2), of x y] that Cons.prems(1) by auto
  then have cells: "\<forall>x\<in>set ys. c x < length ?buf \<and> ?buf ! c x = task_cell (t x) (f x) (d x)"
    using Cons.prems(3) by (auto simp: nth_upd_other)
  have "map_cell op (buf ! c y) futs = Inr
      (if d y then [] else [rx_waker (rx y)], if d y then [op (t y)] else [], settled_cell (f y) (d y), ?futs)"
    using Cons.prems(3,5) by (cases "d y") (simp_all add: map_cell_live map_cell_dropped)
  then show ?case
    using Cons.IH [OF _ injc cells inj futs] Cons.prems(1) by simp
qed

text \<open>
  What \<open>TaskAssignment::map\<close> does to a batch of the tasks \<open>a\<close> to \<open>b - 1\<close>.
\<close>

lemma assignment_map_result:
  fixes s :: "(64 word, (64 word, 't, 'f) task_ref, 'd) inner"
  assumes "occupied_by k M a s" "a < b" "b \<le> a + 2 ^ k"
    and "\<forall>i\<in>{a..<b}. buffer s ! (i mod 2 ^ k) = task_cell (t i) (f i) (d i)"
    and "inj_on f {i \<in> {a..<b}. \<not> d i}" "\<forall>i\<in>{a..<b}. \<not> d i \<longrightarrow> futs (f i) = Some (Batched (rx i))"
    and "fifo_deque dpush steal contents" "steal_progress steal retries"
  shows "\<exists>woken s' futs'. assignment_map steal op (2 ^ k) (bounds64 a b) s futs =
      Inr (map (\<lambda>i. rx_waker (rx i)) (filter (\<lambda>i. \<not> d i) [a..<b]) @ woken,
           map (\<lambda>i. op (t i)) (filter d [a..<b]), s', futs') \<and>
    (\<forall>i\<in>{a..<b}. \<not> d i \<longrightarrow> futs' (f i) = Some (Batched (rx i\<lparr>rx_value := Some (op (t i))\<rparr>))) \<and>
    (\<forall>g. g \<notin> f ` {i \<in> {a..<b}. \<not> d i} \<longrightarrow> futs' g = futs g) \<and>
    (\<forall>i\<in>{a..<b}. buffer s' ! (i mod 2 ^ k) = settled_cell (f i) (d i)) \<and>
    occupancy s' = enc64 (count (M - {#region k a#})) \<and> slot s' = slot s \<and> length (buffer s') = 2 ^ k \<and>
    batch_freed k contents a M s woken s'"
proof -
  let ?c = "\<lambda>i. i mod 2 ^ k"
  let ?buf = "fold (\<lambda>i buf. buf[?c i := settled_cell (f i) (d i)]) [a..<b] (buffer s)"
  let ?futs = "deliver_all d f rx (\<lambda>i. op (t i)) [a..<b] futs"
  have k: "k \<le> 32" and len: "length (buffer s) = 2 ^ k" using assms(1) by (simp_all add: occupied_by_def)
  have inj: "inj_on ?c (set [a..<b])"
    using mod_window_distinct [OF assms(3)] by (auto intro: inj_onI)
  have dist: "inj_on f {i \<in> set [a..<b]. \<not> d i}" using assms(5) by simp
  have "map_cells op (assignment_tasks (2 ^ k) (bounds64 a b)) (buffer s) futs = Inr
      (map (\<lambda>i. rx_waker (rx i)) (filter (\<lambda>i. \<not> d i) [a..<b]), map (\<lambda>i. op (t i)) (filter d [a..<b]),
       ?buf, ?futs)"
    unfolding assignment_tasks_def slice_indices_64 [OF k assms(2,3)]
    by (rule map_cells_spec) (use inj dist assms(4,6) len in auto)
  moreover obtain woken s' where "deoccupy_region steal (2 ^ k)
      (range_start (bounds64 a b) AND (2 ^ k - 1)) (s\<lparr>buffer := ?buf\<rparr>) = Inr (woken, s')"
    "occupancy s' = enc64 (count (M - {#region k a#}))" "slot s' = slot s" "buffer s' = ?buf"
    "batch_freed k contents a M s woken s'"
    using deoccupy_range [OF assms(1,7,8), of b ?buf] by (auto simp: batch_freed_def)
  moreover have "\<forall>i\<in>{a..<b}. ?buf ! ?c i = settled_cell (f i) (d i)"
    using nth_settle [OF inj, of _ "buffer s" "\<lambda>i. settled_cell (f i) (d i)"] len by auto
  moreover have "\<forall>i\<in>{a..<b}. \<not> d i \<longrightarrow> ?futs (f i) = Some (Batched (rx i\<lparr>rx_value := Some (op (t i))\<rparr>))"
    by (intro ballI impI deliver_all_at) (use dist in auto)
  moreover have "\<forall>g. g \<notin> f ` {i \<in> {a..<b}. \<not> d i} \<longrightarrow> ?futs g = futs g"
    by (intro allI impI deliver_all_other) auto
  ultimately show ?thesis
    using len by (auto simp: assignment_map_def assignment_deoccupy_buffer_def)
qed

lemma set_assignment_bounds_64:
  "slot s = mk_slot b q \<Longrightarrow> set_assignment_bounds \<lparr>pa_base_slot = mk_slot a p\<rparr> s
    = (bounds64 a b, s\<lparr>slot := mk_slot b (\<not> q)\<rparr>)"
  using set_bounds_spec [of "\<lparr>ur_base_slot = mk_slot a p\<rparr>" a p s b q]
  by (simp add: set_assignment_bounds_def into_bounded_def set_bounds_def Let_def)

text \<open>
  C18. Processing a pending assignment: \<open>into_assignment\<close> bounds the batch, so that the next task opens
  a new one, and \<open>map\<close> takes every task once and in order; its value reaches the receiver it was
  enqueued with, and wakes it, if that receiver is still there, and is dropped if not; no other
  future changes; the region is freed.
\<close>

theorem process_batch_spec:
  fixes s :: "(64 word, (64 word, 't, 'f) task_ref, 'd) inner"
  assumes "occupied_by k M a s" "a < b" "b \<le> a + 2 ^ k" "slot s = mk_slot b q"
    and "\<forall>i\<in>{a..<b}. buffer s ! (i mod 2 ^ k) = task_cell (t i) (f i) (d i)"
    and "inj_on f {i \<in> {a..<b}. \<not> d i}" "\<forall>i\<in>{a..<b}. \<not> d i \<longrightarrow> futs (f i) = Some (Batched (rx i))"
    and "fifo_deque dpush steal contents" "steal_progress steal retries"
  shows "\<exists>ta s0 woken s' futs'. into_assignment \<lparr>pa_base_slot = mk_slot a p\<rparr> s = (ta, s0) \<and>
    assignment_map steal op (2 ^ k) ta s0 futs =
      Inr (map (\<lambda>i. rx_waker (rx i)) (filter (\<lambda>i. \<not> d i) [a..<b]) @ woken,
           map (\<lambda>i. op (t i)) (filter d [a..<b]), s', futs') \<and>
    (\<forall>i\<in>{a..<b}. \<not> d i \<longrightarrow> futs' (f i) = Some (Batched (rx i\<lparr>rx_value := Some (op (t i))\<rparr>))) \<and>
    (\<forall>g. g \<notin> f ` {i \<in> {a..<b}. \<not> d i} \<longrightarrow> futs' g = futs g) \<and>
    (\<forall>i\<in>{a..<b}. buffer s' ! (i mod 2 ^ k) = settled_cell (f i) (d i)) \<and>
    occupancy s' = enc64 (count (M - {#region k a#})) \<and> slot s' = mk_slot b (\<not> q)"
proof -
  let ?s = "s\<lparr>slot := mk_slot b (\<not> q)\<rparr>"
  have "occupied_by k M a ?s" "\<forall>i\<in>{a..<b}. buffer ?s ! (i mod 2 ^ k) = task_cell (t i) (f i) (d i)"
    using assms(1,5) by (simp_all add: occupied_by_def)
  from assignment_map_result [OF this(1) assms(2,3) this(2) assms(6-9), of op]
    set_assignment_bounds_64 [OF assms(4), of a p]
  show ?thesis by (fastforce simp: into_assignment_def)
qed

section \<open>Resolving a batch with an iterator\<close>

text \<open>An iterator over a list of values.\<close>

definition list_next :: "'v list \<Rightarrow> ('v \<times> 'v list) option" where
  "list_next vs = (case vs of [] \<Rightarrow> None | v # vs' \<Rightarrow> Some (v, vs'))"

lemma list_next_simps [simp]: "list_next [] = None" "list_next (v # vs) = Some (v, vs)"
  by (simp_all add: list_next_def)

text \<open>The cell after its resolution, whose task was dropped only if tasks need it.\<close>

definition zipped_cell :: "bool \<Rightarrow> 't \<Rightarrow> 'f \<Rightarrow> bool \<Rightarrow> (64 word, 't, 'f) task_ref" where
  "zipped_cell drops t f d = (settled_cell f d)\<lparr>tr_task := if drops then None else Some t\<rparr>"

lemma zip_cell_task:
  assumes "\<not> d \<longrightarrow> futs f = Some (Batched rx)"
  shows "zip_cell drops v (task_cell t f d) futs
    = Inr (if drops then [t] else [], if d then [] else [rx_waker rx], if d then [v] else [],
           zipped_cell drops t f d, if d then futs else deliver futs f rx v)"
  using assms
  by (cases d; cases drops)
    (simp_all add: zip_cell_def take_task_unchecked_def task_cell_def zipped_cell_def settled_cell_def
      resolve_live resolve_dropped)

lemma resolve_zip_spec:
  assumes "distinct xs" "inj_on c (set xs)"
    and "\<forall>x\<in>set xs. c x < length buf \<and> buf ! c x = task_cell (t x) (f x) (d x)"
    and "inj_on f {x \<in> set xs. \<not> d x}" "\<forall>x\<in>set xs. \<not> d x \<longrightarrow> futs (f x) = Some (Batched (rx x))"
    and "rest = [] \<or> extra = []"
  shows "resolve_zip drops list_next (map c xs @ rest) (map v xs @ extra) buf futs = Inr
    (if drops then map t xs else [], map (\<lambda>x. rx_waker (rx x)) (filter (\<lambda>x. \<not> d x) xs),
     map v (filter d xs), fold (\<lambda>x buf. buf[c x := zipped_cell drops (t x) (f x) (d x)]) xs buf,
     deliver_all d f rx v xs futs)"
  using assms(1-5)
proof (induction xs arbitrary: buf futs)
  case Nil
  then show ?case using assms(6) by (cases rest) auto
next
  case (Cons y ys)
  let ?buf = "buf[c y := zipped_cell drops (t y) (f y) (d y)]"
  let ?futs = "if d y then futs else deliver futs (f y) (rx y) (v y)"
  have inj: "inj_on f {x \<in> set ys. \<not> d x}" using Cons.prems(4) by (rule inj_on_subset) auto
  have injc: "inj_on c (set ys)" using Cons.prems(2) by (rule inj_on_subset) auto
  have "f m \<noteq> f y" if "m \<in> set ys" "\<not> d m" "\<not> d y" for m
    using inj_onD [OF Cons.prems(4), of m y] that Cons.prems(1) by auto
  then have futs: "\<forall>x\<in>set ys. \<not> d x \<longrightarrow> ?futs (f x) = Some (Batched (rx x))"
    using Cons.prems(5) by (auto simp: deliver_def)
  have "c x \<noteq> c y" if "x \<in> set ys" for x
    using inj_onD [OF Cons.prems(2), of x y] that Cons.prems(1) by auto
  then have cells: "\<forall>x\<in>set ys. c x < length ?buf \<and> ?buf ! c x = task_cell (t x) (f x) (d x)"
    using Cons.prems(3) by (auto simp: nth_upd_other)
  have y: "buf ! c y = task_cell (t y) (f y) (d y)" "\<not> d y \<longrightarrow> futs (f y) = Some (Batched (rx y))"
    using Cons.prems(3,5) by auto
  have IH: "resolve_zip drops list_next (map c ys @ rest) (map v ys @ extra) ?buf ?futs = Inr
    (if drops then map t ys else [], map (\<lambda>x. rx_waker (rx x)) (filter (\<lambda>x. \<not> d x) ys),
     map v (filter d ys), fold (\<lambda>x buf. buf[c x := zipped_cell drops (t x) (f x) (d x)]) ys ?buf,
     deliver_all d f rx v ys ?futs)"
    using Cons.IH [OF _ injc cells inj futs] Cons.prems(1) by simp
  show ?case
    using IH by (simp add: y(1) zip_cell_task [where f = "f y" and rx = "rx y" and d = "d y" and futs = futs, OF y(2)])
qed

text \<open>
  \<open>resolve_with_iter\<close> resolves the tasks in order with the values of the iterator, as many as
  both have; when the iterator is the shorter one, the tasks left over are neither dropped nor
  resolved, and their region is freed all the same.
\<close>

theorem resolve_with_iter_spec:
  fixes s :: "(64 word, (64 word, 't, 'f) task_ref, 'd) inner"
  assumes "occupied_by k M a s" "a < b" "b \<le> a + 2 ^ k"
    and "\<forall>i\<in>{a..<b}. buffer s ! (i mod 2 ^ k) = task_cell (t i) (f i) (d i)"
    and "inj_on f {i \<in> {a..<b}. \<not> d i}" "\<forall>i\<in>{a..<b}. \<not> d i \<longrightarrow> futs (f i) = Some (Batched (rx i))"
    and "fifo_deque dpush steal contents" "steal_progress steal retries"
    and "e = a + min (b - a) (length vs)"
  shows "\<exists>ws s' futs'. resolve_with_iter steal drops list_next (2 ^ k) (bounds64 a b) vs s futs =
      Inr (if drops then map t [a..<e] else [], ws, map (\<lambda>i. vs ! (i - a)) (filter d [a..<e]), s', futs') \<and>
    (\<forall>i\<in>{a..<e}. \<not> d i \<longrightarrow> futs' (f i) = Some (Batched (rx i\<lparr>rx_value := Some (vs ! (i - a))\<rparr>))) \<and>
    (\<forall>i\<in>{e..<b}. buffer s' ! (i mod 2 ^ k) = task_cell (t i) (f i) (d i) \<and>
      (\<not> d i \<longrightarrow> futs' (f i) = Some (Batched (rx i)))) \<and>
    occupancy s' = enc64 (count (M - {#region k a#}))"
proof -
  let ?c = "\<lambda>i. i mod 2 ^ k" and ?v = "\<lambda>i. vs ! (i - a)"
  let ?g = "\<lambda>i. zipped_cell drops (t i) (f i) (d i)"
  let ?buf = "fold (\<lambda>i buf. buf[?c i := ?g i]) [a..<e] (buffer s)"
  let ?futs = "deliver_all d f rx ?v [a..<e] futs"
  have k: "k \<le> 32" and len: "length (buffer s) = 2 ^ k" using assms(1) by (simp_all add: occupied_by_def)
  have e: "a \<le> e" "e \<le> b" "e - a \<le> length vs" using assms(2,9) by simp_all
  have idx: "map ?c [a..<b] = map ?c [a..<e] @ map ?c [e..<b]"
    using upt_add_eq_append [of a e "b - e"] e by simp
  have vals: "vs = map ?v [a..<e] @ drop (e - a) vs"
    using e(3) by (intro nth_equalityI) (auto simp: nth_append)
  have rest: "map ?c [e..<b] = [] \<or> drop (e - a) vs = []"
    using assms(9) by (auto simp: min_def split: if_splits)
  have inj: "inj_on ?c (set [a..<e])"
    using mod_window_distinct [OF assms(3)] e by (auto intro!: inj_onI)
  have dist: "inj_on f {i \<in> set [a..<e]. \<not> d i}"
    using assms(5) by (rule inj_on_subset) (use e in auto)
  have "resolve_zip drops list_next (assignment_tasks (2 ^ k) (bounds64 a b)) vs (buffer s) futs = Inr
      (if drops then map t [a..<e] else [], map (\<lambda>i. rx_waker (rx i)) (filter (\<lambda>i. \<not> d i) [a..<e]),
       map ?v (filter d [a..<e]), ?buf, ?futs)"
    unfolding assignment_tasks_def slice_indices_64 [OF k assms(2,3)] idx
    by (subst (1) vals, rule resolve_zip_spec) (use inj dist assms(4,6) len e rest in auto)
  moreover obtain woken s' where "deoccupy_region steal (2 ^ k)
      (range_start (bounds64 a b) AND (2 ^ k - 1)) (s\<lparr>buffer := ?buf\<rparr>) = Inr (woken, s')"
    "occupancy s' = enc64 (count (M - {#region k a#}))" "buffer s' = ?buf"
    using deoccupy_range [OF assms(1,7,8), of b ?buf] by blast
  moreover have "\<forall>i\<in>{a..<e}. \<not> d i \<longrightarrow> ?futs (f i) = Some (Batched (rx i\<lparr>rx_value := Some (?v i)\<rparr>))"
    by (intro ballI impI deliver_all_at) (use dist in auto)
  moreover have "?buf ! ?c i = buffer s ! ?c i" if "i \<in> {e..<b}" for i
  proof -
    have "?c j \<noteq> ?c i" if "j \<in> set [a..<e]" for j
      using mod_window_distinct [OF assms(3), of j i] that \<open>i \<in> {e..<b}\<close> e by auto
    then show ?thesis by (intro nth_settle_other) auto
  qed
  moreover have "?futs (f i) = futs (f i)" if "i \<in> {e..<b}" "\<not> d i" for i
  proof (rule deliver_all_other)
    fix j
    assume "j \<in> set [a..<e]" "\<not> d j"
    then show "f j \<noteq> f i" using inj_onD [OF assms(5), of j i] that e by auto
  qed
  ultimately show ?thesis
    using assms(4,6) e by (auto simp: resolve_with_iter_def assignment_deoccupy_buffer_def)
qed

section \<open>Dropping an assignment\<close>

lemma drop_tasks_spec:
  assumes "distinct xs" "inj_on c (set xs)"
    and "\<forall>x\<in>set xs. c x < length buf \<and> buf ! c x = task_cell (t x) (f x) (d x)"
  shows "drop_tasks (map c xs) buf = Inr (map t xs,
    fold (\<lambda>x buf. buf[c x := (task_cell (t x) (f x) (d x))\<lparr>tr_task := None\<rparr>]) xs buf)"
  using assms
proof (induction xs arbitrary: buf)
  case Nil
  then show ?case by simp
next
  case (Cons y ys)
  let ?buf = "buf[c y := (task_cell (t y) (f y) (d y))\<lparr>tr_task := None\<rparr>]"
  have injc: "inj_on c (set ys)" using Cons.prems(2) by (rule inj_on_subset) auto
  have "c x \<noteq> c y" if "x \<in> set ys" for x
    using inj_onD [OF Cons.prems(2), of x y] that Cons.prems(1) by auto
  then have cells: "\<forall>x\<in>set ys. c x < length ?buf \<and> ?buf ! c x = task_cell (t x) (f x) (d x)"
    using Cons.prems(3) by (auto simp: nth_upd_other)
  have "take_task_unchecked (buf ! c y) = Inr (t y, (task_cell (t y) (f y) (d y))\<lparr>tr_task := None\<rparr>)"
    using Cons.prems(3) by (simp add: take_task_unchecked_def task_cell_def)
  then show ?case using Cons.IH [OF _ injc cells] Cons.prems(1) by simp
qed

text \<open>
  Dropping a pending assignment bounds the batch, drops its tasks, each once, and frees its
  region. No receiver hears of it: the flags of every cell stay as they were.
\<close>

theorem pending_assignment_drop_spec:
  fixes s :: "(64 word, (64 word, 't, 'f) task_ref, 'd) inner"
  assumes "occupied_by k M a s" "a < b" "b \<le> a + 2 ^ k"
    and "\<forall>i\<in>{a..<b}. buffer s ! (i mod 2 ^ k) = task_cell (t i) (f i) (d i)"
    and "fifo_deque dpush steal contents" "steal_progress steal retries" "slot s = mk_slot b q"
  shows "\<exists>woken s'. pending_assignment_drop steal True (2 ^ k) \<lparr>pa_base_slot = mk_slot a p\<rparr> s
      = Inr (map t [a..<b], woken, s') \<and>
    (\<forall>i\<in>{a..<b}. buffer s' ! (i mod 2 ^ k) = (task_cell (t i) (f i) (d i))\<lparr>tr_task := None\<rparr>) \<and>
    occupancy s' = enc64 (count (M - {#region k a#})) \<and> slot s' = mk_slot b (\<not> q)"
proof -
  let ?s = "s\<lparr>slot := mk_slot b (\<not> q)\<rparr>" and ?c = "\<lambda>i. i mod 2 ^ k"
  let ?g = "\<lambda>i. (task_cell (t i) (f i) (d i))\<lparr>tr_task := None\<rparr>"
  let ?buf = "fold (\<lambda>i buf. buf[?c i := ?g i]) [a..<b] (buffer s)"
  have k: "k \<le> 32" and len: "length (buffer s) = 2 ^ k" and occ: "occupied_by k M a ?s"
    using assms(1) by (simp_all add: occupied_by_def)
  have inj: "inj_on ?c (set [a..<b])" using mod_window_distinct [OF assms(3)] by (auto intro: inj_onI)
  have "drop_tasks (assignment_tasks (2 ^ k) (bounds64 a b)) (buffer s) = Inr (map t [a..<b], ?buf)"
    unfolding assignment_tasks_def slice_indices_64 [OF k assms(2,3)]
    by (rule drop_tasks_spec) (use inj assms(4) len in auto)
  moreover obtain woken s' where "deoccupy_region steal (2 ^ k)
      (range_start (bounds64 a b) AND (2 ^ k - 1)) (?s\<lparr>buffer := ?buf\<rparr>) = Inr (woken, s')"
    "occupancy s' = enc64 (count (M - {#region k a#}))" "slot s' = mk_slot b (\<not> q)" "buffer s' = ?buf"
    using deoccupy_range [OF occ assms(5,6), of b ?buf] by auto
  moreover have "\<forall>i\<in>{a..<b}. ?buf ! ?c i = ?g i"
    using nth_settle [OF inj, of _ "buffer s" ?g] len by auto
  ultimately show ?thesis
    by (auto simp: pending_assignment_drop_def set_assignment_bounds_64 [OF assms(7)]
        task_assignment_drop_def assignment_deoccupy_buffer_def)
qed

section \<open>Dropping a receiver\<close>

lemma spin_loop_clear [simp]: "state AND SETTING_VALUE \<noteq> SETTING_VALUE \<Longrightarrow> spin_loop loads i state = Some state"
  by (subst spin_loop.simps) simp

lemma spin_loop_setting:
  "state AND SETTING_VALUE = SETTING_VALUE \<Longrightarrow> spin_loop loads i state = spin_loop loads (Suc i) (loads i)"
  by (subst spin_loop.simps) simp

lemma spin_loop_ends:
  "loads (i + n) AND SETTING_VALUE \<noteq> SETTING_VALUE \<Longrightarrow> \<exists>s. spin_loop loads i state = Some s"
proof (induction n arbitrary: i state)
  case 0
  then show ?case by (cases "state AND SETTING_VALUE = SETTING_VALUE") (simp_all add: spin_loop_setting)
next
  case (Suc n)
  then have "loads (Suc i + n) AND SETTING_VALUE \<noteq> SETTING_VALUE" by simp
  from Suc.IH [OF this] show ?case
    by (cases "state AND SETTING_VALUE = SETTING_VALUE") (simp_all add: spin_loop_setting)
qed

lemma spin_loop_result:
  assumes "spin_loop loads i state = Some s"
  shows "s AND SETTING_VALUE \<noteq> SETTING_VALUE \<and> (s = state \<or> (\<exists>j\<ge>i. s = loads j))"
proof (rule spin_loop.raw_induct [OF _ assms])
  fix rec :: "(nat \<Rightarrow> 'a word) \<Rightarrow> nat \<Rightarrow> 'a word \<Rightarrow> 'a word option"
    and loads :: "nat \<Rightarrow> 'a word" and i state s
  assume IH: "\<And>loads i state s. rec loads i state = Some s \<Longrightarrow>
      s AND SETTING_VALUE \<noteq> SETTING_VALUE \<and> (s = state \<or> (\<exists>j\<ge>i. s = loads j))"
    and body: "(if state AND SETTING_VALUE = SETTING_VALUE then rec loads (Suc i) (loads i) else Some state) = Some s"
  show "s AND SETTING_VALUE \<noteq> SETTING_VALUE \<and> (s = state \<or> (\<exists>j\<ge>i. s = loads j))"
  proof (cases "state AND SETTING_VALUE = SETTING_VALUE")
    case True
    then have "rec loads (Suc i) (loads i) = Some s" using body by simp
    from IH [OF this] show ?thesis by (metis Suc_leD le_refl)
  next
    case False
    then show ?thesis using body by simp
  qed
qed

text \<open>
  The destructor's spin loop runs forever exactly when the flag is set to begin with and every
  later load reads it set: it waits for the resolver and for nothing else.
\<close>

theorem spin_loop_terminates_iff:
  "spin_loop loads 0 state = None \<longleftrightarrow>
    state AND SETTING_VALUE = SETTING_VALUE \<and> (\<forall>j. loads j AND SETTING_VALUE = SETTING_VALUE)"
proof
  assume never: "spin_loop loads 0 state = None"
  then show "state AND SETTING_VALUE = SETTING_VALUE \<and> (\<forall>j. loads j AND SETTING_VALUE = SETTING_VALUE)"
    using spin_loop_ends [of loads 0] by (metis add_0 option.distinct(1) spin_loop_clear)
next
  assume "state AND SETTING_VALUE = SETTING_VALUE \<and> (\<forall>j. loads j AND SETTING_VALUE = SETTING_VALUE)"
  then show "spin_loop loads 0 state = None"
    using spin_loop_result [of loads 0 state] by (cases "spin_loop loads 0 state") auto
qed

lemma spin_loop_stuck:
  "state AND SETTING_VALUE = SETTING_VALUE \<Longrightarrow> s AND SETTING_VALUE = SETTING_VALUE \<Longrightarrow>
    spin_loop (\<lambda>_. s) i state = None"
  using spin_loop_result [of "\<lambda>_. s" i state] by (cases "spin_loop (\<lambda>_. s) i state") auto

text \<open>
  Dropping a future nobody interferes with: before its resolution it leaves its mark in the cell;
  after it, the value that was set is dropped if tasks need dropping (the code asks this of the type
  of tasks, not of values); in the other two states nothing happens.
\<close>

theorem batched_task_drop_spec:
  fixes rx :: "(64 word, 'v, 'wk) receiver"
  shows "batched_task_drop drops (Batched rx :: (64 word, 't, 'v, 'wk) batched_task) (task_cell t f False)
      = Inr ([], task_cell t f True) \<and>
    batched_task_drop drops (Batched (rx\<lparr>rx_value := Some v\<rparr>) :: (64 word, 't, 'v, 'wk) batched_task)
        (settled_cell f False :: (64 word, 't, 'f) task_ref)
      = Inr (if drops then [v] else [], \<lparr>tr_state = flags False True True, tr_rx = Some f, tr_task = None\<rparr>) \<and>
    batched_task_drop drops (Unbatched u :: (64 word, 't, 'v, 'wk) batched_task) cell = Inr ([], cell) \<and>
    batched_task_drop drops (Received :: (64 word, 't, 'v, 'wk) batched_task) cell = Inr ([], cell)"
  by (simp add: batched_task_drop_def task_cell_def settled_cell_def flag_simps Let_def)

text \<open>
  C38. A receiver keeps its pointer to the state word when its cell is reused. If a future that was
  resolved but not polled is dropped only after that, it marks the new task as dropped: the new
  task is processed, but its value reaches nobody and nobody is woken.
\<close>

theorem stale_receiver_marks_new_task:
  fixes stale :: "(64 word, 'v, 'wk) receiver" and futs :: "(64 word, 't, 'v, 'wk, 'f) futures"
  shows "\<exists>cell'. batched_task_drop drops (Batched stale :: (64 word, 't, 'v, 'wk) batched_task)
      (task_ref_init t f cell) = Inr ([], cell') \<and>
    map_cell op cell' futs = Inr ([], [op t], settled_cell f True, futs)"
  by (simp add: batched_task_drop_def task_cell_def init_task_cell flag_simps Let_def
      map_cell_dropped [unfolded task_cell_def])

text \<open>
  And if the new task was itself dropped and then resolved, its flag \<open>SETTING_VALUE\<close> stays set
  until the cell is used again, and the destructor of the stale future spins on it.
\<close>

theorem stale_receiver_spins:
  fixes stale :: "(64 word, 'v, 'wk) receiver" and futs :: "(64 word, 't, 'v, 'wk, 'f) futures"
  shows "\<exists>cell'. map_cell op (task_cell t f True) futs = Inr ([], [op t], cell', futs) \<and>
    batched_task_drop drops (Batched stale :: (64 word, 't, 'v, 'wk) batched_task) cell' = Inl Diverges"
  by (simp add: map_cell_dropped batched_task_drop_def settled_cell_def flag_simps Let_def spin_loop_stuck)

section \<open>Witnesses\<close>

text \<open>
  A buffer of 64 cells with a batch of three tasks round its end; the future of the second was
  dropped.
\<close>

definition example_tasks :: "(64 word, (64 word, nat, nat) task_ref, string list) inner" where
  "example_tasks = \<lparr>slot = mk_slot 65 True, occupancy = enc64 (count {#7#}),
     buffer = [task_cell 64 64 False] @ replicate 61 task_ref_new_uninit
       @ [task_cell 62 62 False, task_cell 63 63 True], stealer = [''w'']\<rparr>"

definition example_rx :: "nat \<Rightarrow> (64 word, nat, string) receiver" where
  "example_rx i = receiver_new 0 (if i = 62 then ''a'' else ''b'')"

definition example_futs :: "(64 word, nat, nat, string, nat) futures" where
  "example_futs = [62 \<mapsto> Batched (example_rx 62), 64 \<mapsto> Batched (example_rx 64)]"

lemma example_batch: "{62..<65} = {62, 63, 64 :: nat}" "[62..<65] = [62, 63, 64 :: nat]"
  by (auto simp: upt_conv_Cons)

lemma example_tasks_ok:
  "occupied_by 6 {#7#} 62 example_tasks"
  "\<forall>i\<in>{62..<65}. buffer example_tasks ! (i mod 2 ^ 6) = task_cell i i (i = 63)"
  "inj_on (\<lambda>i. i) {i \<in> {62..<65}. \<not> i = (63 :: nat)}"
  "\<forall>i\<in>{62..<65}. \<not> i = 63 \<longrightarrow> example_futs i = Some (Batched (example_rx i))"
  unfolding example_batch
  by (simp_all add: occupied_by_def example_tasks_def region_def nth_append example_futs_def)

theorem process_batch_spec_witness:
  "\<exists>ta s0 woken s' futs'. into_assignment \<lparr>pa_base_slot = mk_slot 62 True\<rparr> example_tasks = (ta, s0) \<and>
    assignment_map list_steal (\<lambda>t. 2 * t) (2 ^ 6) ta s0 example_futs
      = Inr ([''a'', ''b''] @ woken, [126], s', futs') \<and>
    futs' 62 = Some (Batched (example_rx 62\<lparr>rx_value := Some 124\<rparr>)) \<and> futs' 63 = None"
proof -
  have "slot example_tasks = mk_slot 65 True" by (simp add: example_tasks_def)
  from process_batch_spec [OF example_tasks_ok(1) _ _ this example_tasks_ok(2-4) list_deque, of True "\<lambda>t. 2 * t"]
  obtain ta s0 woken s' futs' where
    "into_assignment \<lparr>pa_base_slot = mk_slot 62 True\<rparr> example_tasks = (ta, s0)"
    "assignment_map list_steal (\<lambda>t. 2 * t) (2 ^ 6) ta s0 example_futs
      = Inr (map (\<lambda>i. rx_waker (example_rx i)) (filter (\<lambda>i. \<not> i = 63) [62..<65]) @ woken,
             map (\<lambda>i. 2 * i) (filter (\<lambda>i. i = 63) [62..<65]), s', futs')"
    "\<forall>i\<in>{62..<65}. \<not> i = 63 \<longrightarrow> futs' i = Some (Batched (example_rx i\<lparr>rx_value := Some (2 * i)\<rparr>))"
    "\<forall>g. g \<notin> (\<lambda>i. i) ` {i \<in> {62..<65}. \<not> i = 63} \<longrightarrow> futs' g = example_futs g"
    by auto
  then show ?thesis
    unfolding example_batch by (simp add: example_rx_def receiver_new_def example_futs_def)
qed

theorem resolve_with_iter_spec_witness:
  "\<exists>ws s' futs'. resolve_with_iter list_steal True list_next (2 ^ 6) (bounds64 62 65) [7] example_tasks example_futs
      = Inr ([62], ws, [], s', futs') \<and>
    buffer s' ! (64 mod 2 ^ 6) = task_cell 64 64 False \<and> futs' 64 = Some (Batched (example_rx 64))"
proof -
  have e: "63 = 62 + min (65 - 62) (length [7 :: nat])" by simp
  have up: "[62..<63] = [62 :: nat]" "{63..<65} = {63, 64 :: nat}" by (auto simp: upt_conv_Cons)
  obtain ws s' futs' where
    "resolve_with_iter list_steal True list_next (2 ^ 6) (bounds64 62 65) [7] example_tasks example_futs
      = Inr (if True then map (\<lambda>i. i) [62..<63] else [], ws,
             map (\<lambda>i. [7] ! (i - 62)) (filter (\<lambda>i. i = 63) [62..<63]), s', futs')"
    "\<forall>i\<in>{63..<65}. buffer s' ! (i mod 2 ^ 6) = task_cell i i (i = 63) \<and>
      (\<not> i = 63 \<longrightarrow> futs' i = Some (Batched (example_rx i)))"
    using resolve_with_iter_spec [OF example_tasks_ok(1) _ _ example_tasks_ok(2-4) list_deque e, of True]
    by auto
  then show ?thesis unfolding up by simp
qed

theorem pending_assignment_drop_spec_witness:
  "\<exists>woken s'. pending_assignment_drop list_steal True (2 ^ 6) \<lparr>pa_base_slot = mk_slot 62 True\<rparr> example_tasks
      = Inr ([62, 63, 64], woken, s') \<and> slot s' = mk_slot 65 False"
proof -
  have "slot example_tasks = mk_slot 65 True" by (simp add: example_tasks_def)
  from pending_assignment_drop_spec [OF example_tasks_ok(1) _ _ example_tasks_ok(2) list_deque this, of True]
  obtain woken s' where
    "pending_assignment_drop list_steal True (2 ^ 6) \<lparr>pa_base_slot = mk_slot 62 True\<rparr> example_tasks
      = Inr (map (\<lambda>i. i) [62..<65], woken, s')" "slot s' = mk_slot 65 False"
    by auto
  then show ?thesis unfolding example_batch by simp
qed

end
