(* ===== verification/Futures.thy ===== *)
theory Futures
  imports TaskRefs
begin

unbundle bit_operations_syntax

text \<open>
  The futures of \<open>task.rs\<close> and the entry points of \<open>queue.rs\<close> that run them: \<open>BatchedTask\<close>,
  \<open>BackgroundEnqueue\<close>, \<open>BatchReduce\<close> and \<open>BatchCollect\<close> with their \<open>poll\<close>, and
  \<open>StackQueue::background_process\<close>.

  \<open>T::queue()\<close> is the queue of the thread that polls, an argument here. \<open>tokio::spawn\<close> only starts
  another future: what is spawned is part of the result. \<open>queue.pending.push\<close> is \<open>dpush\<close>, a
  parameter, on the deque of the queue. The waker of the context is the argument \<open>waker\<close>.
\<close>

section \<open>BatchedTask\<close>

datatype 'a poll = Ready 'a | Pending

definition pending_push :: "('d \<Rightarrow> 'wk \<Rightarrow> 'd) \<Rightarrow> 'wk \<Rightarrow> ('u, 'c, 'd) stack_queue \<Rightarrow> ('u, 'c, 'd) stack_queue" where
  "pending_push dpush waker q = q\<lparr>inner := (inner q)\<lparr>stealer := dpush (stealer (inner q)) waker\<rparr>\<rparr>"

text \<open>
  The closure \<open>poll\<close> gives to \<open>enqueue\<close>: the future becomes \<open>Batched\<close> with a receiver that points at
  the cell, and the cell is initialised with the task and a pointer to the receiver. It is called
  in the state \<open>Unbatched\<close> only (\<open>unreachable_unchecked\<close> otherwise).
\<close>

definition write_task ::
    "'f \<Rightarrow> 'wk \<Rightarrow> 'w::len word \<Rightarrow> ('w word, 't, 'f) task_ref \<Rightarrow> ('w word, 't, 'v, 'wk, 'f) futures
      \<Rightarrow> ('w word, 't, 'f) task_ref \<times> ('w word, 't, 'v, 'wk, 'f) futures" where
  "write_task self waker index cell futs =
     (case futs self of
        Some (Unbatched task) \<Rightarrow>
          (task_ref_init task self cell, futs(self \<mapsto> Batched (receiver_new index waker)))
      | _ \<Rightarrow> (cell, futs))"

text \<open>\<open>BatchedTask::poll\<close> of the future pinned at \<open>self\<close>; the assignment it spawns, if any.\<close>

definition batched_task_poll ::
    "('d \<Rightarrow> 'wk \<Rightarrow> 'd) \<Rightarrow> 'w::len word \<Rightarrow> 'f \<Rightarrow> 'wk
      \<Rightarrow> ('w word, ('w word, 't, 'f) task_ref, 'd) stack_queue \<Rightarrow> ('w word, 't, 'v, 'wk, 'f) futures
      \<Rightarrow> fault + 'v poll \<times> 'w word pending_assignment option
           \<times> ('w word, ('w word, 't, 'f) task_ref, 'd) stack_queue \<times> ('w word, 't, 'v, 'wk, 'f) futures" where
  "batched_task_poll dpush N self waker q futs =
     (case futs self of
        None \<Rightarrow> Inl DanglingReceiver
      | Some (Unbatched _) \<Rightarrow>
          bind_sum (enqueue (write_task self waker) N q futs) (\<lambda>(assignment, q', futs').
            case assignment of
              Inr (Some a) \<Rightarrow> Inr (Pending, Some a, q', futs')
            | Inr None \<Rightarrow> Inr (Pending, None, q', futs')
            | Inl QueueFull \<Rightarrow> Inr (Pending, None, pending_push dpush waker q', futs'))
      | Some (Batched rx) \<Rightarrow>
          (case rx_value rx of
             None \<Rightarrow> Inl UninitRead
           | Some value \<Rightarrow> Inr (Ready value, None, q, futs(self \<mapsto> Received)))
      | Some Received \<Rightarrow> Inr (Pending, None, q, futs))"

section \<open>BackgroundQueue\<close>

datatype 't background_enqueue = BackgroundPending 't | Enqueued

text \<open>What \<open>background_process\<close> spawns: the processing of a batch, or the future that enqueues.\<close>

datatype ('u, 't) spawned = BatchProcess "'u unbounded_range" | SpawnEnqueue "'t background_enqueue"

definition background_enqueue_new :: "'t \<Rightarrow> 't background_enqueue" where
  "background_enqueue_new task = BackgroundPending task"

definition background_enqueue_poll ::
    "('d \<Rightarrow> 'wk \<Rightarrow> 'd) \<Rightarrow> 'w::len word \<Rightarrow> 'wk \<Rightarrow> 't background_enqueue
      \<Rightarrow> ('w word, 't buffer_cell, 'd) stack_queue
      \<Rightarrow> fault + 'w word unbounded_range option poll \<times> 't background_enqueue
           \<times> ('w word, 't buffer_cell, 'd) stack_queue" where
  "background_enqueue_poll dpush N waker fut q =
     (case fut of
        BackgroundPending task \<Rightarrow>
          bind_sum (push N task q) (\<lambda>(r, q').
            case r of
              Inr assignment \<Rightarrow> Inr (Ready assignment, Enqueued, q')
            | Inl task \<Rightarrow> Inr (Pending, BackgroundPending task, pending_push dpush waker q'))
      | Enqueued \<Rightarrow> Inr (Ready None, Enqueued, q))"

definition background_process ::
    "'w::len word \<Rightarrow> 't \<Rightarrow> ('w word, 't buffer_cell, 'd) stack_queue
      \<Rightarrow> fault + ('w word, 't) spawned option \<times> ('w word, 't buffer_cell, 'd) stack_queue" where
  "background_process N task q =
     bind_sum (push N task q) (\<lambda>(r, q').
       case r of
         Inr (Some assignment) \<Rightarrow> Inr (Some (BatchProcess assignment), q')
       | Inr None \<Rightarrow> Inr (None, q')
       | Inl task \<Rightarrow> Inr (Some (SpawnEnqueue (background_enqueue_new task)), q'))"

section \<open>The entry points of the traits\<close>

text \<open>
  The provided methods of \<open>TaskQueue\<close> and \<open>BackgroundQueue\<close>, both called \<open>auto_batch\<close>. The first makes a
  future; the second acts at once, on the queue of the calling thread.
\<close>

definition task_queue_auto_batch :: "'t \<Rightarrow> ('u, 't, 'v, 'wk) batched_task" where
  "task_queue_auto_batch task = batched_task_new task"

definition background_auto_batch ::
    "'w::len word \<Rightarrow> 't \<Rightarrow> ('w word, 't buffer_cell, 'd) stack_queue
      \<Rightarrow> fault + ('w word, 't) spawned option \<times> ('w word, 't buffer_cell, 'd) stack_queue" where
  "background_auto_batch N task q = background_process N task q"

section \<open>BatchReducer\<close>

text \<open>
  A reducer gets the iterator over the batch by value: it calls \<open>next\<close> as often as it likes, looking
  at what it gets, and returns; the iterator is dropped on return. That is a tree of calls.
\<close>

datatype ('t, 'r) reducer = Finish 'r | Next "'t option \<Rightarrow> ('t, 'r) reducer"

primrec run_reducer ::
    "('d \<Rightarrow> 'wk steal \<times> 'd) \<Rightarrow> bool \<Rightarrow> 'w::len word \<Rightarrow> ('t, 'r) reducer \<Rightarrow> 'w word buffer_iter
      \<Rightarrow> ('w word, 't buffer_cell, 'd) inner
      \<Rightarrow> fault + 'r \<times> 't list \<times> 'wk list \<times> ('w word, 't buffer_cell, 'd) inner" where
  "run_reducer steal drops N (Finish r) = (\<lambda>it s.
     bind_sum (buffer_iter_drop steal drops N it s) (\<lambda>(dropped, woken, s'). Inr (r, dropped, woken, s')))"
| "run_reducer steal drops N (Next k) = (\<lambda>it s.
     bind_sum (iter_next N it (buffer s)) (\<lambda>(task, it', buf).
     run_reducer steal drops N (k task) it' (s\<lparr>buffer := buf\<rparr>)))"

text \<open>
  The batch a future holds belongs to the queue it was pushed to, of the thread \<open>home\<close>, while the
  future may be polled on any thread: the queues are a function of the threads.
\<close>

datatype ('th, 'u, 't, 'r) batch_reduce =
    ReduceUnbatched 't "('t, 'r) reducer"
  | ReduceCollecting 'th "'u unbounded_range" "('t, 'r) reducer"
  | ReduceBatched

definition batch_reduce_new :: "'t \<Rightarrow> ('t, 'r) reducer \<Rightarrow> ('th, 'u, 't, 'r) batch_reduce" where
  "batch_reduce_new task reducer = ReduceUnbatched task reducer"

text \<open>
  \<open>BatchReduce::poll\<close> on the thread \<open>here\<close>: the result, the tasks dropped, the wakers woken, the new
  future and the new queues.
\<close>

definition batch_reduce_poll ::
    "('d \<Rightarrow> 'wk \<Rightarrow> 'd) \<Rightarrow> ('d \<Rightarrow> 'wk steal \<times> 'd) \<Rightarrow> bool \<Rightarrow> 'w::len word \<Rightarrow> 'th \<Rightarrow> 'wk
      \<Rightarrow> ('th, 'w word, 't, 'r) batch_reduce \<Rightarrow> ('th \<Rightarrow> ('w word, 't buffer_cell, 'd) stack_queue)
      \<Rightarrow> fault + 'r option poll \<times> 't list \<times> 'wk list \<times> ('th, 'w word, 't, 'r) batch_reduce
           \<times> ('th \<Rightarrow> ('w word, 't buffer_cell, 'd) stack_queue)" where
  "batch_reduce_poll dpush steal drops N here waker fut queues =
     (case fut of
        ReduceUnbatched task reducer \<Rightarrow>
          bind_sum (push N task (queues here)) (\<lambda>(r, q').
            case r of
              Inr (Some batch) \<Rightarrow>
                Inr (Pending, [], [waker], ReduceCollecting here batch reducer, queues(here := q'))
            | Inr None \<Rightarrow> Inr (Ready None, [], [], ReduceBatched, queues(here := q'))
            | Inl task \<Rightarrow>
                Inr (Pending, [], [], ReduceUnbatched task reducer,
                     queues(here := pending_push dpush waker q')))
      | ReduceCollecting home batch reducer \<Rightarrow>
          (let q = queues home; (br, s) = into_bounded batch (inner q)
           in bind_sum (run_reducer steal drops N reducer (into_iter br) s) (\<lambda>(r, dropped, woken, s').
              Inr (Ready (Some r), dropped, woken, ReduceBatched, queues(home := q\<lparr>inner := s'\<rparr>))))
      | ReduceBatched \<Rightarrow> Inr (Ready None, [], [], ReduceBatched, queues))"

datatype ('th, 'u, 't) batch_collect =
    CollectUnbatched 't
  | CollectCollecting 'th "'u unbounded_range"
  | CollectBatched

definition batch_collect_new :: "'t \<Rightarrow> ('th, 'u, 't) batch_collect" where
  "batch_collect_new task = CollectUnbatched task"

definition batch_collect_poll ::
    "('d \<Rightarrow> 'wk \<Rightarrow> 'd) \<Rightarrow> ('d \<Rightarrow> 'wk steal \<times> 'd) \<Rightarrow> 'w::len word \<Rightarrow> 'th \<Rightarrow> 'wk
      \<Rightarrow> ('th, 'w word, 't) batch_collect \<Rightarrow> ('th \<Rightarrow> ('w word, 't buffer_cell, 'd) stack_queue)
      \<Rightarrow> fault + 't list option poll \<times> 'wk list \<times> ('th, 'w word, 't) batch_collect
           \<times> ('th \<Rightarrow> ('w word, 't buffer_cell, 'd) stack_queue)" where
  "batch_collect_poll dpush steal N here waker fut queues =
     (case fut of
        CollectUnbatched task \<Rightarrow>
          bind_sum (push N task (queues here)) (\<lambda>(r, q').
            case r of
              Inr (Some batch) \<Rightarrow> Inr (Pending, [waker], CollectCollecting here batch, queues(here := q'))
            | Inr None \<Rightarrow> Inr (Ready None, [], CollectBatched, queues(here := q'))
            | Inl task \<Rightarrow>
                Inr (Pending, [], CollectUnbatched task, queues(here := pending_push dpush waker q')))
      | CollectCollecting home batch \<Rightarrow>
          (let q = queues home; (br, s) = into_bounded batch (inner q)
           in bind_sum (to_vec steal N br s) (\<lambda>(tasks, woken, s').
              Inr (Ready (Some tasks), woken, CollectBatched, queues(home := q\<lparr>inner := s'\<rparr>))))
      | CollectBatched \<Rightarrow> Inr (Ready None, [], CollectBatched, queues))"

text \<open>The provided methods of the trait \<open>BatchReducer\<close>.\<close>

definition reducer_batch_reduce :: "'t \<Rightarrow> ('t, 'r) reducer \<Rightarrow> ('th, 'u, 't, 'r) batch_reduce" where
  "reducer_batch_reduce task reducer = batch_reduce_new task reducer"

definition reducer_batch_collect :: "'t \<Rightarrow> ('th, 'u, 't) batch_collect" where
  "reducer_batch_collect task = batch_collect_new task"

section \<open>Polling a BatchedTask\<close>

text \<open>The first poll, when the region is not busy.\<close>

lemma poll_unbatched_step:
  assumes "queue_at k c op ph M q" "6 \<le> k" "k < 32" "futs self = Some (Unbatched t)"
    and "region_check (2 ^ k) (slot_index (2 ^ k) (own_slot q)) q = (Inr (), q1)"
  shows "\<exists>q'. batched_task_poll dpush (2 ^ k) self waker q futs =
      Inr (Pending, if ph = op then None else Some \<lparr>pa_base_slot = mk_slot c ph\<rparr>, q',
           futs(self \<mapsto> Batched (receiver_new (slot_index (2 ^ k) (own_slot q)) waker))) \<and>
    queue_at k (Suc c) ph ph (if ph = op then M else add_mset (region k c) M) q' \<and>
    buffer (inner q') = (buffer (inner q))[c mod 2 ^ k := task_cell t self False] \<and>
    stealer (inner q') = stealer (inner q) \<and>
    own_occupancy q' = (if ph = op then own_occupancy q1 else occupancy (inner q'))"
proof -
  have "write_task self waker (slot_index (2 ^ k) (own_slot q)) (buffer (inner q) ! (c mod 2 ^ k)) futs
      = (task_cell t self False, futs(self \<mapsto> Batched (receiver_new (slot_index (2 ^ k) (own_slot q)) waker)))"
    using assms(4) by (simp add: write_task_def init_task_cell)
  from enqueue_step [OF assms(1-3,5), where write_with = "write_task self waker", OF this] assms(4)
  show ?thesis
    by (auto simp: batched_task_poll_def)
qed

text \<open>
  The first poll of a \<open>BatchedTask\<close>. While the region is busy it keeps the task in the future and
  parks the waker at the end of the deque. Otherwise the task moves from the future to the cell
  the counter points at, future and cell point at each other, and processing is spawned exactly
  when the previous batch has been bounded.
\<close>

theorem poll_unbatched_spec:
  assumes "queue_at k c op ph M q" "6 \<le> k" "k < 32" "\<forall>r. count M r < 256"
    and "futs self = Some (Unbatched t)"
  shows "\<exists>a q' futs'. batched_task_poll dpush (2 ^ k) self waker q futs = Inr (Pending, a, q', futs') \<and>
    (if 2 ^ (k - 3) dvd c \<and> region k c \<in># M \<and>
        own_occupancy q AND region_mask (2 ^ k) (slot_index (2 ^ k) (own_slot q)) \<noteq> 0
     then a = None \<and> futs' = futs \<and> q' = pending_push dpush waker (q\<lparr>own_occupancy := occupancy (inner q)\<rparr>)
     else a = (if ph = op then None else Some \<lparr>pa_base_slot = mk_slot c ph\<rparr>) \<and>
       futs' = futs(self \<mapsto> Batched (receiver_new (slot_index (2 ^ k) (own_slot q)) waker)) \<and>
       queue_at k (Suc c) ph ph (if ph = op then M else add_mset (region k c) M) q' \<and>
       buffer (inner q') = (buffer (inner q))[c mod 2 ^ k := task_cell t self False] \<and>
       stealer (inner q') = stealer (inner q))"
proof (cases "2 ^ (k - 3) dvd c \<and> region k c \<in># M \<and>
    own_occupancy q AND region_mask (2 ^ k) (slot_index (2 ^ k) (own_slot q)) \<noteq> 0")
  case True
  then have "region_check (2 ^ k) (current_write_index (2 ^ k) q) q
      = (Inl QueueFull, q\<lparr>own_occupancy := occupancy (inner q)\<rparr>)"
    using region_check_result [OF assms(1-4) refl] by (simp add: current_write_index_eq)
  then show ?thesis using True assms(5) by (simp add: batched_task_poll_def enqueue_def Let_def)
next
  case False
  then have "fst (region_check (2 ^ k) (slot_index (2 ^ k) (own_slot q)) q) = Inr ()"
    by (simp add: region_check_result [OF assms(1-4) refl])
  then obtain q1 where "region_check (2 ^ k) (slot_index (2 ^ k) (own_slot q)) q = (Inr (), q1)"
    by (metis prod.collapse)
  with poll_unbatched_step [where futs = futs and self = self and waker = waker and dpush = dpush,
      OF assms(1-3,5)] False
  show ?thesis by fastforce
qed

text \<open>
  Once enqueued, a poll reads the value without looking whether it was set: it returns the value
  after the resolution, and before it reads uninitialised memory.
\<close>

lemma poll_batched:
  assumes "futs self = Some (Batched rx)"
  shows "batched_task_poll dpush N self waker q futs =
    (case rx_value rx of None \<Rightarrow> Inl UninitRead | Some v \<Rightarrow> Inr (Ready v, None, q, futs(self \<mapsto> Received)))"
  using assms by (simp add: batched_task_poll_def)

text \<open>
  C36. So a second poll that comes before the task was processed, which an executor may do at any time
  and combinators like \<open>join!\<close> do, reads uninitialised memory.
\<close>

theorem early_second_poll_is_uninit:
  assumes "futs self = Some (Unbatched t)"
    and "batched_task_poll dpush N self waker q futs = Inr (Pending, assignment, q1, futs1)"
    and "futs1 self \<noteq> futs self"
  shows "batched_task_poll dpush N self waker' q1 futs1 = Inl UninitRead"
proof -
  have "futs1 self = futs self \<or> (\<exists>i. futs1 self = Some (Batched (receiver_new i waker)))"
    using assms(1,2)
    by (auto simp: batched_task_poll_def enqueue_def write_task_def Let_def bind_sum_def
        split: sum.splits queue_full.splits if_splits prod.splits option.splits)
  then obtain i where "futs1 self = Some (Batched (receiver_new i waker))" using assms(3) by blast
  then show ?thesis by (simp add: batched_task_poll_def receiver_new_def)
qed

section \<open>From the first poll to the value\<close>

text \<open>Polling some futures one after another on one thread, each with its own waker.\<close>

fun poll_all ::
    "('d \<Rightarrow> 'wk \<Rightarrow> 'd) \<Rightarrow> 'w::len word \<Rightarrow> ('f \<times> 'wk) list
      \<Rightarrow> ('w word, ('w word, 't, 'f) task_ref, 'd) stack_queue \<Rightarrow> ('w word, 't, 'v, 'wk, 'f) futures
      \<Rightarrow> fault + ('v poll \<times> 'w word pending_assignment option) list
           \<times> ('w word, ('w word, 't, 'f) task_ref, 'd) stack_queue \<times> ('w word, 't, 'v, 'wk, 'f) futures" where
  "poll_all dpush N [] q futs = Inr ([], q, futs)"
| "poll_all dpush N ((self, waker) # rest) q futs =
     bind_sum (batched_task_poll dpush N self waker q futs) (\<lambda>(r, a, q1, futs1).
     bind_sum (poll_all dpush N rest q1 futs1) (\<lambda>(ras, q', futs'). Inr ((r, a) # ras, q', futs')))"

text \<open>
  The state after the futures \<open>0\<close> to \<open>c - 1\<close> of \<open>n\<close> were polled for the first time on a new queue.
\<close>

definition filling ::
    "nat \<Rightarrow> nat \<Rightarrow> nat \<Rightarrow> (nat \<Rightarrow> 't) \<Rightarrow> (nat \<Rightarrow> 'f) \<Rightarrow> (nat \<Rightarrow> 'wk)
      \<Rightarrow> (64 word, (64 word, 't, 'f) task_ref, 'd) stack_queue \<Rightarrow> (64 word, 't, 'v, 'wk, 'f) futures \<Rightarrow> bool" where
  "filling k n c t f w q futs \<longleftrightarrow>
     queue_at k c (c = 0) False (if c = 0 then {#} else {#0#}) q \<and>
     own_occupancy q = enc64 (count (if c = 0 then {#} else {#0#})) \<and>
     (\<forall>i<c. buffer (inner q) ! i = task_cell (t i) (f i) False \<and>
        futs (f i) = Some (Batched (receiver_new (word_of_nat i) (w i)))) \<and>
     (\<forall>i. c \<le> i \<and> i < n \<longrightarrow> futs (f i) = Some (Unbatched (t i)))"

lemma filling_step:
  fixes futs :: "(64 word, 't, 'v, 'wk, 'f) futures"
  assumes "filling k n c t f w q futs" "c < n" "n \<le> 2 ^ k" "6 \<le> k" "k < 32" "inj_on f {..<n}"
  shows "\<exists>q' futs'. batched_task_poll dpush (2 ^ k) (f c) (w c) q futs =
      Inr (Pending, if c = 0 then Some \<lparr>pa_base_slot = 0\<rparr> else None, q', futs') \<and>
    filling k n (Suc c) t f w q' futs'"
proof -
  let ?B = "if c = 0 then {#} else {#0 :: nat#}"
  have q: "queue_at k c (c = 0) False ?B q" "own_occupancy q = enc64 (count ?B)"
    and t: "futs (f c) = Some (Unbatched (t c))"
    using assms(1,2) by (simp_all add: filling_def)
  have own: "own_slot q = mk_slot c (c = 0)" and len: "length (buffer (inner q)) = 2 ^ k"
    using q(1) by (simp_all add: queue_at_def)
  define i where "i = slot_index (2 ^ k) (own_slot q)"
  have idx: "unat i = c" using assms(2,3,5) by (simp add: i_def own write_index_mk)
  then have i: "i = word_of_nat c" by (simp flip: idx)
  have checked: "region_check (2 ^ k) i q = (Inr (), q)"
  proof (cases "region k c \<in># ?B")
    case False
    then show ?thesis
      using region_check_free [OF own q(2) False] assms(4,5) by (simp add: i_def)
  next
    case True
    then have "c \<noteq> 0" and c: "c div 2 ^ (k - 3) = 0"
      using assms(2,3) by (auto simp: region_def split: if_splits)
    then have "\<not> 2 ^ (k - 3) dvd c" by (metis dvd_div_mult_self mult_zero_left)
    then show ?thesis
      using at_region_start [OF assms(4,5), of c "c = 0"] by (simp add: region_check_def own i_def)
  qed
  obtain q' where q': "batched_task_poll dpush (2 ^ k) (f c) (w c) q futs =
      Inr (Pending, if False = (c = 0) then None else Some \<lparr>pa_base_slot = mk_slot c False\<rparr>, q',
           futs(f c \<mapsto> Batched (receiver_new i (w c))))"
    "queue_at k (Suc c) False False (if False = (c = 0) then ?B else add_mset (region k c) ?B) q'"
    "buffer (inner q') = (buffer (inner q))[c mod 2 ^ k := task_cell (t c) (f c) False]"
    "own_occupancy q' = (if False = (c = 0) then own_occupancy q else occupancy (inner q'))"
    using poll_unbatched_step [where futs = futs and self = "f c" and waker = "w c" and dpush = dpush,
        OF q(1) assms(4,5) t checked [unfolded i_def]]
    by (auto simp: i_def)
  have M: "(if False = (c = 0) then ?B else add_mset (region k c) ?B) = {#0#}"
    by (simp add: region_def)
  have other: "f j \<noteq> f c" if "j < n" "j \<noteq> c" for j
    using inj_onD [OF assms(6), of j c] that assms(2) by auto
  have "filling k n (Suc c) t f w q' (futs(f c \<mapsto> Batched (receiver_new i (w c))))"
    unfolding filling_def
  proof (intro conjI allI impI)
    show "queue_at k (Suc c) (Suc c = 0) False (if Suc c = 0 then {#} else {#0#}) q'"
      using q'(2) M by simp
    show "own_occupancy q' = enc64 (count (if Suc c = 0 then {#} else {#0#}))"
      using q'(2,4) q(2) M by (auto simp: queue_at_def)
    fix j
    assume j: "j < Suc c"
    then show "buffer (inner q') ! j = task_cell (t j) (f j) False"
      using assms(1-3) len by (auto simp: q'(3) filling_def nth_list_update less_Suc_eq)
    show "(futs(f c \<mapsto> Batched (receiver_new i (w c)))) (f j) = Some (Batched (receiver_new (word_of_nat j) (w j)))"
      using j assms(1,2) other [of j] by (auto simp: filling_def i less_Suc_eq)
  next
    fix j
    assume j: "Suc c \<le> j \<and> j < n"
    then show "(futs(f c \<mapsto> Batched (receiver_new i (w c)))) (f j) = Some (Unbatched (t j))"
      using assms(1) other [of j] by (auto simp: filling_def)
  qed
  then show ?thesis using q'(1) by (auto simp: mk_slot_0)
qed

lemma filling_all:
  fixes futs :: "(64 word, 't, 'v, 'wk, 'f) futures"
  assumes "filling k n c t f w q futs" "c \<le> n" "n \<le> 2 ^ k" "6 \<le> k" "k < 32" "inj_on f {..<n}"
  shows "\<exists>q' futs'. poll_all dpush (2 ^ k) (map (\<lambda>i. (f i, w i)) [c..<n]) q futs =
      Inr (map (\<lambda>i. (Pending, if i = 0 then Some \<lparr>pa_base_slot = 0\<rparr> else None)) [c..<n], q', futs') \<and>
    filling k n n t f w q' futs'"
  using assms(1,2)
proof (induction "n - c" arbitrary: c q futs)
  case 0
  then show ?case by auto
next
  case (Suc m)
  then have c: "c < n" by simp
  obtain q1 futs1 where 1: "batched_task_poll dpush (2 ^ k) (f c) (w c) q futs =
      Inr (Pending, if c = 0 then Some \<lparr>pa_base_slot = 0\<rparr> else None, q1, futs1)"
    "filling k n (Suc c) t f w q1 futs1"
    using filling_step [OF Suc.prems(1) c assms(3-6)] by blast
  have "m = n - Suc c" "Suc c \<le> n" using Suc.hyps(2) c by simp_all
  from Suc.hyps(1) [OF this(1) 1(2) this(2)] 1(1) c show ?case
    by (auto simp: upt_conv_Cons)
qed

text \<open>
  C9. The whole way, on a new queue: \<open>n\<close> futures, no more than fit the buffer, are polled once each; the first poll and no other
  spawns the processing; the processor bounds the batch and maps it with \<open>op\<close>, which wakes
  everybody in order; and every future, polled again, returns the value of its own task.
\<close>

theorem batch_round_trip:
  fixes futs :: "(64 word, 't, 'v, 'wk, 'f) futures"
  assumes "6 \<le> k" "k < 32" "0 < n" "n \<le> 2 ^ k" "inj_on f {..<n}"
    and "\<forall>i<n. futs (f i) = Some (Unbatched (t i))"
    and "fifo_deque dpush steal contents" "steal_progress steal retries"
    and "stack_queue_default task_ref_new_uninit (2 ^ k :: 64 word) d = Some q0"
  shows "\<exists>q futs1 ta s0 woken s futs2.
    poll_all dpush (2 ^ k) (map (\<lambda>i. (f i, w i)) [0..<n]) q0 futs =
      Inr ((Pending, Some \<lparr>pa_base_slot = 0\<rparr>) # replicate (n - 1) (Pending, None), q, futs1) \<and>
    into_assignment \<lparr>pa_base_slot = 0\<rparr> (inner q) = (ta, s0) \<and>
    assignment_map steal op (2 ^ k) ta s0 futs1 = Inr (map w [0..<n] @ woken, [], s, futs2) \<and>
    (\<forall>i<n. \<forall>waker. batched_task_poll dpush (2 ^ k) (f i) waker (q\<lparr>inner := s\<rparr>) futs2 =
      Inr (Ready (op (t i)), None, q\<lparr>inner := s\<rparr>, futs2(f i \<mapsto> Received))) \<and>
    occupancy s = 0"
proof -
  have "queue_at k 0 True False {#} q0" "own_occupancy q0 = 0"
    using default_queue_at [OF assms(1,2)] assms(9) by (metis option.inject)+
  then have "filling k n 0 t f w q0 futs" using assms(6) by (simp add: filling_def)
  from filling_all [OF this le0 assms(4,1,2,5)] obtain q futs1 where
    poll: "poll_all dpush (2 ^ k) (map (\<lambda>i. (f i, w i)) [0..<n]) q0 futs =
      Inr (map (\<lambda>i. (Pending, if i = 0 then Some \<lparr>pa_base_slot = 0\<rparr> else None)) [0..<n], q, futs1)"
    and full: "filling k n n t f w q futs1" by blast
  have res: "map (\<lambda>i. (Pending, if i = 0 then Some \<lparr>pa_base_slot = 0\<rparr> else None)) [0..<n]
      = (Pending, Some \<lparr>pa_base_slot = 0\<rparr>) # replicate (n - 1) (Pending, None)"
    using assms(3) by (intro nth_equalityI) (auto simp: nth_Cons split: nat.splits)
  let ?s0 = "(inner q)\<lparr>slot := mk_slot n True\<rparr>"
  have ta: "into_assignment \<lparr>pa_base_slot = 0\<rparr> (inner q) = (bounds64 0 n, ?s0)"
    using set_assignment_bounds_64 [of "inner q" n False 0 False] full assms(3)
    by (simp add: into_assignment_def filling_def queue_at_def mk_slot_0)
  have occ: "occupied_by k {#0#} 0 ?s0"
    using full assms(1-3) by (simp add: occupied_by_def filling_def queue_at_def region_def)
  have "\<forall>i\<in>{0..<n}. buffer ?s0 ! (i mod 2 ^ k) = task_cell (t i) (f i) False"
    using full assms(4) by (simp add: filling_def)
  moreover have "inj_on f {i \<in> {0..<n}. \<not> False}" using assms(5) by (simp add: lessThan_def)
  moreover have "\<forall>i\<in>{0..<n}. \<not> False \<longrightarrow> futs1 (f i) = Some (Batched (receiver_new (word_of_nat i) (w i)))"
    using full by (simp add: filling_def)
  moreover have "0 + 2 ^ k = (2::nat) ^ k" by simp
  ultimately obtain woken s futs2 where map: "assignment_map steal op (2 ^ k) (bounds64 0 n) ?s0 futs1 =
      Inr (map w [0..<n] @ woken, [], s, futs2)"
    "\<forall>i<n. futs2 (f i) = Some (Batched (receiver_new (word_of_nat i) (w i)\<lparr>rx_value := Some (op (t i))\<rparr>))"
    "occupancy s = enc64 (count ({#0#} - {#region k 0#}))"
    using assignment_map_result [OF occ assms(3) _ _ _ _ assms(7,8), of t f "\<lambda>_. False" futs1
        "\<lambda>i. receiver_new (word_of_nat i) (w i)" op] assms(4)
    by (auto simp: receiver_new_def)
  then have "\<forall>i<n. \<forall>waker. batched_task_poll dpush (2 ^ k) (f i) waker (q\<lparr>inner := s\<rparr>) futs2 =
      Inr (Ready (op (t i)), None, q\<lparr>inner := s\<rparr>, futs2(f i \<mapsto> Received))"
    by (simp add: poll_batched)
  moreover have "occupancy s = 0" using map(3) by (simp add: region_def)
  ultimately show ?thesis using poll [unfolded res] ta map(1) by blast
qed

section \<open>Pushing in the background\<close>

text \<open>\<open>push\<close> either writes the task or gives it back and leaves the shared state alone.\<close>

lemma push_cases:
  assumes "queue_at k c op ph M q" "6 \<le> k" "k < 32"
  obtains (written) q' where
    "push (2 ^ k) t q = Inr (Inr (if ph = op then None else Some \<lparr>ur_base_slot = mk_slot c ph\<rparr>), q')"
    "queue_at k (Suc c) ph ph (if ph = op then M else add_mset (region k c) M) q'"
    "buffer (inner q') = (buffer (inner q))[c mod 2 ^ k := Some t]"
    "stealer (inner q') = stealer (inner q)"
  | (full) q' where "push (2 ^ k) t q = Inr (Inl t, q')"
    "queue_at k c op ph M q'" "inner q' = inner q"
proof (cases "region_check (2 ^ k) (slot_index (2 ^ k) (own_slot q)) q")
  case (Pair r q1)
  show ?thesis
  proof (cases r)
    case (Inl x)
    then have "x = QueueFull" by (cases x)
    then have "push (2 ^ k) t q = Inr (Inl t, q1)"
      using Pair Inl by (simp add: push_def current_write_index_eq)
    moreover have "own_slot q1 = own_slot q" "inner q1 = inner q"
      using region_check_frame [OF Pair] by simp_all
    ultimately show ?thesis using assms(1) by (intro full [of q1]) (simp_all add: queue_at_def)
  next
    case (Inr x)
    then show ?thesis using push_step [OF assms, of q1 t] Pair written by auto
  qed
qed

text \<open>
  \<open>background_process\<close> loses no task: it is written to the buffer, and processing is spawned with
  the new batch if there is one, or it is handed to a spawned \<open>BackgroundEnqueue\<close>.
\<close>

theorem background_process_spec:
  assumes "queue_at k c op ph M q" "6 \<le> k" "k < 32"
  shows "\<exists>r q'. background_process (2 ^ k) t q = Inr (r, q') \<and>
    (if r = Some (SpawnEnqueue (BackgroundPending t)) then inner q' = inner q
     else r = (if ph = op then None else Some (BatchProcess \<lparr>ur_base_slot = mk_slot c ph\<rparr>)) \<and>
       buffer (inner q') = (buffer (inner q))[c mod 2 ^ k := Some t] \<and>
       queue_at k (Suc c) ph ph (if ph = op then M else add_mset (region k c) M) q')"
  by (rule push_cases [OF assms, of t])
    (auto simp: background_process_def background_enqueue_new_def)

text \<open>
  Neither does \<open>BackgroundEnqueue\<close>: a poll writes the task and is ready, or keeps the task and
  parks its waker at the end of the deque; when it has enqueued its task it never does so again.
\<close>

theorem background_enqueue_poll_spec:
  assumes "queue_at k c op ph M q" "6 \<le> k" "k < 32" "fifo_deque dpush steal contents"
  shows "\<exists>r fut q'. background_enqueue_poll dpush (2 ^ k) waker (background_enqueue_new t) q = Inr (r, fut, q') \<and>
    (if r = Pending then fut = background_enqueue_new t \<and> buffer (inner q') = buffer (inner q) \<and>
       contents (stealer (inner q')) = contents (stealer (inner q)) @ [waker] \<and> queue_at k c op ph M q'
     else r = Ready (if ph = op then None else Some \<lparr>ur_base_slot = mk_slot c ph\<rparr>) \<and>
       buffer (inner q') = (buffer (inner q))[c mod 2 ^ k := Some t] \<and>
       queue_at k (Suc c) ph ph (if ph = op then M else add_mset (region k c) M) q' \<and>
       (\<forall>w q''. background_enqueue_poll dpush (2 ^ k) w fut q'' = Inr (Ready None, fut, q'')))"
  using assms(4)
  by (cases rule: push_cases [OF assms(1-3), of t])
    (simp_all add: background_enqueue_poll_def background_enqueue_new_def pending_push_def
      fifo_deque_def queue_at_def)

section \<open>Reducing and collecting a batch\<close>

text \<open>What a reducer computes over a list of tasks: its result and the tasks it left over.\<close>

primrec reduce_list :: "('t, 'r) reducer \<Rightarrow> 't list \<Rightarrow> 'r \<times> 't list" where
  "reduce_list (Finish r) = (\<lambda>ts. (r, ts))"
| "reduce_list (Next k) = (\<lambda>ts.
     case ts of [] \<Rightarrow> reduce_list (k None) [] | t # ts' \<Rightarrow> reduce_list (k (Some t)) ts')"

text \<open>
  A reducer run on the iterator over a batch computes what it computes over the list of the
  tasks still in it; the tasks it does not take are dropped, each once, if they need it, and the
  region is freed.
\<close>

lemma run_reducer_refines:
  assumes "occupied_by k M a s" "a \<le> c" "c \<le> b" "b \<le> a + 2 ^ k" "window_live (2 ^ k) c b (buffer s)"
    and "same_cycle a b" "fifo_deque dpush steal contents" "steal_progress steal retries"
  shows "\<exists>r rest woken s'. reduce_list red (map the (window (2 ^ k) c b (buffer s))) = (r, rest) \<and>
    run_reducer steal drops (2 ^ k) red (iter64 a b c) s = Inr (r, if drops then rest else [], woken, s') \<and>
    (drops \<longrightarrow> batch_done k a c b M s s') \<and> batch_freed k contents a M s woken s'"
  using assms(1-3,5)
proof (induction red arbitrary: c s)
  case (Finish r)
  then show ?case
    using buffer_iter_drop_spec [OF Finish.prems(1-3) assms(4) Finish.prems(4) assms(6-8), of drops] by auto
next
  case (Next g)
  have k: "k \<le> 32" and len: "length (buffer s) = 2 ^ k" using Next.prems(1) by (simp_all add: occupied_by_def)
  show ?case
  proof (cases "c < b")
    case True
    let ?t = "the (buffer s ! (c mod 2 ^ k))" and ?s = "s\<lparr>buffer := (buffer s)[c mod 2 ^ k := None]\<rparr>"
    have next1: "iter_next (2 ^ k) (iter64 a b c) (buffer s) = Inr (Some ?t, iter64 a b (Suc c), buffer ?s)"
      using iter_next_64 [OF k same_cycle_between [OF assms(6) Next.prems(2,3)] True _ len Next.prems(4)]
        assms(4) Next.prems(2) by simp
    have occ: "occupied_by k M a ?s" using Next.prems(1) by (simp add: occupied_by_def)
    have live: "window_live (2 ^ k) (Suc c) b (buffer ?s)"
      using window_live_Cons(2) [OF True _ Next.prems(4)] assms(4) Next.prems(2) by simp
    have w: "window (2 ^ k) (Suc c) b ((buffer s)[c mod 2 ^ k := None]) = window (2 ^ k) (Suc c) b (buffer s)"
      using mod_next_lap [of b c "2 ^ k"] assms(4) Next.prems(2) by (simp add: window_upd_outside)
    have "Suc c \<le> b" "a \<le> Suc c" using True Next.prems(2) by simp_all
    from Next.IH [OF rangeI [of g "Some ?t"] occ this(2,1) live] obtain r rest woken s' where
      r: "reduce_list (g (Some ?t)) (map the (window (2 ^ k) (Suc c) b (buffer s))) = (r, rest)"
        "run_reducer steal drops (2 ^ k) (g (Some ?t)) (iter64 a b (Suc c)) ?s = Inr (r, if drops then rest else [], woken, s')"
      and s': "drops \<longrightarrow> batch_done k a (Suc c) b M ?s s'" "batch_freed k contents a M ?s woken s'"
      by (auto simp: w)
    have "reduce_list (Next g) (map the (window (2 ^ k) c b (buffer s))) = (r, rest)"
      using True r(1) by (simp add: window_Cons)
    moreover have "run_reducer steal drops (2 ^ k) (Next g) (iter64 a b c) s = Inr (r, if drops then rest else [], woken, s')"
      using next1 r(2) by simp
    moreover have "drops \<longrightarrow> batch_done k a c b M s s'" "batch_freed k contents a M s woken s'"
      using True s' by (simp_all add: batch_done_def batch_freed_def clear_window_Cons)
    ultimately show ?thesis by blast
  next
    case False
    then have "c = b" using Next.prems(3) by simp
    moreover have "iter_next (2 ^ k) (iter64 a b b) (buffer s) = Inr (None, iter64 a b b, buffer s)"
      by (simp add: iter_next_def word_less_nat_alt)
    ultimately show ?thesis using Next.IH [OF rangeI [of g None] Next.prems] by (auto simp: window_def)
  qed
qed

text \<open>
  \<open>BatchReduce\<close> pushes its task on the thread that polls it: it keeps task and reducer and parks
  its waker while the region is busy, returns \<open>None\<close> when a running batch took the task, and
  otherwise wakes itself to collect the batch it was given.
\<close>

theorem batch_reduce_poll_unbatched:
  assumes "queue_at k c op ph M (queues here)" "6 \<le> k" "k < 32" "fifo_deque dpush steal contents"
  shows "\<exists>r ws fut q'. batch_reduce_poll dpush steal drops (2 ^ k) here waker (batch_reduce_new t red) queues
      = Inr (r, [], ws, fut, queues(here := q')) \<and>
    (if fut = batch_reduce_new t red
     then r = Pending \<and> ws = [] \<and> queue_at k c op ph M q' \<and> buffer (inner q') = buffer (inner (queues here)) \<and>
       contents (stealer (inner q')) = contents (stealer (inner (queues here))) @ [waker]
     else buffer (inner q') = (buffer (inner (queues here)))[c mod 2 ^ k := Some t] \<and>
       queue_at k (Suc c) ph ph (if ph = op then M else add_mset (region k c) M) q' \<and>
       (if ph = op then r = Ready None \<and> ws = [] \<and> fut = ReduceBatched
        else r = Pending \<and> ws = [waker] \<and> fut = ReduceCollecting here \<lparr>ur_base_slot = mk_slot c ph\<rparr> red))"
  using assms(4)
  by (cases rule: push_cases [OF assms(1-3), of t])
    (auto simp: batch_reduce_poll_def batch_reduce_new_def pending_push_def fifo_deque_def queue_at_def)

lemma reduce_poll_collects:
  assumes "occupied_by k M a (inner (queues home))" "a < b" "b \<le> a + 2 ^ k"
    and "window_live (2 ^ k) a b (buffer (inner (queues home)))" "same_cycle a b"
    and "fifo_deque dpush steal contents" "steal_progress steal retries"
    and "slot (inner (queues home)) = mk_slot b q"
  shows "\<exists>r rest woken s'.
    reduce_list red (map the (window (2 ^ k) a b (buffer (inner (queues home))))) = (r, rest) \<and>
    batch_reduce_poll dpush steal True (2 ^ k) here waker (ReduceCollecting home \<lparr>ur_base_slot = mk_slot a p\<rparr> red) queues
      = Inr (Ready (Some r), rest, woken, ReduceBatched, queues(home := queues home\<lparr>inner := s'\<rparr>)) \<and>
    batch_done k a a b M (inner (queues home)\<lparr>slot := mk_slot b (\<not> q)\<rparr>) s'"
proof -
  let ?s = "inner (queues home)\<lparr>slot := mk_slot b (\<not> q)\<rparr>"
  have bounded: "into_bounded \<lparr>ur_base_slot = mk_slot a p\<rparr> (inner (queues home)) = (bounds64 a b, ?s)"
    using set_bounds_spec [of "\<lparr>ur_base_slot = mk_slot a p\<rparr>" a p "inner (queues home)" b q] assms(8) by simp
  have "occupied_by k M a ?s" "window_live (2 ^ k) a b (buffer ?s)"
    using assms(1,4) by (simp_all add: occupied_by_def)
  from run_reducer_refines [OF this(1) order_refl _ assms(3) this(2) assms(5-7), of red True] bounded assms(2)
  show ?thesis by (auto simp: batch_reduce_poll_def into_iter_64 Let_def)
qed

text \<open>
  C28. When it collects a batch inside which the 32-bit counter does not wrap around, on whatever thread, it
  bounds the batch and returns what the reducer computes over all its tasks, in the order they were pushed;
  the tasks that the reducer leaves are dropped, and the region is freed.
\<close>

theorem batch_reduce_poll_collecting:
  assumes "occupied_by k M a (inner (queues home))" "a < b" "b \<le> a + 2 ^ k"
    and "window_live (2 ^ k) a b (buffer (inner (queues home)))" "same_cycle a b"
    and "fifo_deque dpush steal contents" "steal_progress steal retries"
    and "slot (inner (queues home)) = mk_slot b q"
  shows "\<exists>r rest woken s'.
    reduce_list red (map the (window (2 ^ k) a b (buffer (inner (queues home))))) = (r, rest) \<and>
    batch_reduce_poll dpush steal True (2 ^ k) here waker (ReduceCollecting home \<lparr>ur_base_slot = mk_slot a p\<rparr> red) queues
      = Inr (Ready (Some r), rest, woken, ReduceBatched, queues(home := queues home\<lparr>inner := s'\<rparr>)) \<and>
    batch_done k a a b M (inner (queues home)\<lparr>slot := mk_slot b (\<not> q)\<rparr>) s'"
  using assms by (rule reduce_poll_collects)

text \<open>
  \<open>BatchCollect\<close> likewise returns all tasks of its batch in a vector, also when the counter wraps
  around inside the batch.
\<close>

theorem batch_collect_poll_collecting:
  assumes "occupied_by k M a (inner (queues home))" "a < b" "b \<le> a + 2 ^ k"
    and "window_live (2 ^ k) a b (buffer (inner (queues home)))"
    and "fifo_deque dpush steal contents" "steal_progress steal retries"
    and "slot (inner (queues home)) = mk_slot b q"
  shows "\<exists>woken s'. batch_collect_poll dpush steal (2 ^ k) here waker
      (CollectCollecting home \<lparr>ur_base_slot = mk_slot a p\<rparr>) queues
      = Inr (Ready (Some (map the (window (2 ^ k) a b (buffer (inner (queues home)))))), woken, CollectBatched,
             queues(home := queues home\<lparr>inner := s'\<rparr>)) \<and>
    batch_done k a a b M (inner (queues home)\<lparr>slot := mk_slot b (\<not> q)\<rparr>) s'"
proof -
  let ?s = "inner (queues home)\<lparr>slot := mk_slot b (\<not> q)\<rparr>"
  have bounded: "into_bounded \<lparr>ur_base_slot = mk_slot a p\<rparr> (inner (queues home)) = (bounds64 a b, ?s)"
    using set_bounds_spec [of "\<lparr>ur_base_slot = mk_slot a p\<rparr>" a p "inner (queues home)" b q] assms(7) by simp
  have "occupied_by k M a ?s" "window_live (2 ^ k) a b (buffer ?s)"
    using assms(1,4) by (simp_all add: occupied_by_def)
  from to_vec_spec [OF this(1) assms(2,3) this(2) assms(5,6)] bounded
  show ?thesis by (auto simp: batch_collect_poll_def Let_def)
qed

text \<open>And it pushes its task as \<open>BatchReduce\<close> does.\<close>

lemma batch_collect_poll_unbatched:
  assumes "queue_at k c op ph M (queues here)" "6 \<le> k" "k < 32" "fifo_deque dpush steal contents"
  shows "\<exists>r ws fut q'. batch_collect_poll dpush steal (2 ^ k) here waker (batch_collect_new t) queues
      = Inr (r, ws, fut, queues(here := q')) \<and>
    (if fut = batch_collect_new t
     then r = Pending \<and> ws = [] \<and> queue_at k c op ph M q' \<and> buffer (inner q') = buffer (inner (queues here)) \<and>
       contents (stealer (inner q')) = contents (stealer (inner (queues here))) @ [waker]
     else buffer (inner q') = (buffer (inner (queues here)))[c mod 2 ^ k := Some t] \<and>
       queue_at k (Suc c) ph ph (if ph = op then M else add_mset (region k c) M) q' \<and>
       (if ph = op then r = Ready None \<and> ws = [] \<and> fut = CollectBatched
        else r = Pending \<and> ws = [waker] \<and> fut = CollectCollecting here \<lparr>ur_base_slot = mk_slot c ph\<rparr>))"
  using assms(4)
  by (cases rule: push_cases [OF assms(1-3), of t])
    (auto simp: batch_collect_poll_def batch_collect_new_def pending_push_def fifo_deque_def queue_at_def)

section \<open>Witnesses\<close>

text \<open>A new queue of 64 cells, for tasks that resolve and for tasks that do not.\<close>

definition fresh_queue :: "'c \<Rightarrow> (64 word, 'c, string list) stack_queue" where
  "fresh_queue uninit = \<lparr>own_slot = mk_slot 0 True, own_occupancy = 0,
     inner = \<lparr>slot = mk_slot 0 False, occupancy = 0, buffer = replicate 64 uninit, stealer = []\<rparr>\<rparr>"

lemma fresh_queue_at:
  "queue_at 6 0 True False {#} (fresh_queue uninit)"
  "region_check (2 ^ 6) (slot_index (2 ^ 6) (own_slot (fresh_queue uninit))) (fresh_queue uninit)
    = (Inr (), fresh_queue uninit)"
  "stack_queue_default uninit (2 ^ 6) [] = Some (fresh_queue uninit)"
proof -
  have "next_power_of_two (64 :: 64 word) = 64" using next_power_of_two_exp [of 6, where 'w = 64] by simp
  then show "stack_queue_default uninit (2 ^ 6) [] = Some (fresh_queue uninit)"
    by (simp add: stack_queue_default_def MIN_BUFFER_LEN_def MAX_BUFFER_LEN_def inner_from_def
        fresh_queue_def mk_slot_0 mk_slot_PHASE)
qed (simp_all add: queue_at_def fresh_queue_def region_check_def check_regional_occupancy_def)

definition example_futures :: "(64 word, nat, nat, string, nat) futures" where
  "example_futures = [0 \<mapsto> Unbatched 7, 1 \<mapsto> Unbatched 8]"

theorem poll_unbatched_spec_witness:
  "\<exists>q' futs'. batched_task_poll list_push (2 ^ 6) 0 ''w'' (fresh_queue task_ref_new_uninit) example_futures
      = Inr (Pending, Some \<lparr>pa_base_slot = mk_slot 0 False\<rparr>, q', futs') \<and>
    buffer (inner q') ! 0 = task_cell 7 0 False"
  using poll_unbatched_spec [OF fresh_queue_at(1), of example_futures 0 7 list_push "''w''" task_ref_new_uninit]
  by (auto simp: example_futures_def fresh_queue_def)

theorem early_second_poll_is_uninit_witness:
  "\<exists>q1 futs1. batched_task_poll list_push (2 ^ 6) 0 ''w'' (fresh_queue task_ref_new_uninit) example_futures
      = Inr (Pending, Some \<lparr>pa_base_slot = mk_slot 0 False\<rparr>, q1, futs1) \<and>
    batched_task_poll list_push (2 ^ 6) 0 ''w'' q1 futs1 = Inl UninitRead"
proof -
  have e: "example_futures 0 = Some (Unbatched 7)" by (simp add: example_futures_def)
  let ?q = "fresh_queue task_ref_new_uninit :: (64 word, (64 word, nat, nat) task_ref, string list) stack_queue"
  obtain q1 where p: "batched_task_poll list_push (2 ^ 6) 0 ''w'' ?q example_futures
      = Inr (Pending, Some \<lparr>pa_base_slot = mk_slot 0 False\<rparr>, q1,
          example_futures(0 \<mapsto> Batched (receiver_new (slot_index (2 ^ 6) (own_slot ?q)) ''w'')))"
    using poll_unbatched_step [where futs = example_futures and self = 0 and waker = "''w''" and dpush = list_push,
        OF fresh_queue_at(1) [where uninit = task_ref_new_uninit] _ _ e fresh_queue_at(2)] by auto
  show ?thesis using early_second_poll_is_uninit [OF e p, of "''w''"] p by (simp add: e)
qed

theorem batch_round_trip_witness:
  "\<exists>q futs1 ta s0 woken s futs2.
    poll_all list_push (2 ^ 6) [(0, ''a''), (1, ''b'')] (fresh_queue task_ref_new_uninit) example_futures =
      Inr ([(Pending, Some \<lparr>pa_base_slot = 0\<rparr>), (Pending, None)], q, futs1) \<and>
    into_assignment \<lparr>pa_base_slot = 0\<rparr> (inner q) = (ta, s0) \<and>
    assignment_map list_steal (\<lambda>t. t + 1) (2 ^ 6) ta s0 futs1 = Inr ([''a'', ''b''] @ woken, [], s, futs2) \<and>
    batched_task_poll list_push (2 ^ 6) 1 ''b'' (q\<lparr>inner := s\<rparr>) futs2 =
      Inr (Ready 9, None, q\<lparr>inner := s\<rparr>, futs2(1 \<mapsto> Received))"
proof -
  let ?w = "\<lambda>i. if i = (0::nat) then ''a'' else ''b''" and ?t = "\<lambda>i::nat. i + 7"
  have inj: "inj_on (\<lambda>i. i) {..<2::nat}" by simp
  have futs: "\<forall>i<2. example_futures i = Some (Unbatched (?t i))"
    by (auto simp: example_futures_def less_2_cases_iff)
  have up: "[0..<2] = [0, 1 :: nat]" by (simp add: upt_conv_Cons)
  have sizes: "6 \<le> (6::nat)" "6 < (32::nat)" "0 < (2::nat)" "2 \<le> (2::nat) ^ 6" by simp_all
  from batch_round_trip [OF sizes inj futs list_deque fresh_queue_at(3), of ?w "\<lambda>t. t + 1"]
  show ?thesis unfolding up
    by (elim exE conjE, intro exI conjI) (assumption | simp)+
qed

theorem background_process_spec_witness:
  "\<exists>q'. background_process (2 ^ 6) (5 :: nat) (fresh_queue None)
      = Inr (Some (BatchProcess \<lparr>ur_base_slot = mk_slot 0 False\<rparr>), q') \<or>
    background_process (2 ^ 6) 5 (fresh_queue None) = Inr (Some (SpawnEnqueue (BackgroundPending 5)), q')"
  using background_process_spec [OF fresh_queue_at(1), of "5 :: nat" None] by fastforce

theorem background_enqueue_poll_spec_witness:
  "\<exists>r fut q'. background_enqueue_poll list_push (2 ^ 6) ''w'' (background_enqueue_new (5 :: nat)) (fresh_queue None)
      = Inr (r, fut, q') \<and> (r = Pending \<longrightarrow> stealer (inner q') = [''w''])"
  using background_enqueue_poll_spec [where q = "fresh_queue None" and t = "5 :: nat" and waker = "''w''",
      OF fresh_queue_at(1) _ _ list_deque(1)]
  by (fastforce simp: fresh_queue_def)

theorem batch_reduce_poll_unbatched_witness:
  "\<exists>r ws fut q'. batch_reduce_poll list_push list_steal True (2 ^ 6) (1 :: nat) ''w''
      (batch_reduce_new (5 :: nat) (Finish ())) (\<lambda>_. fresh_queue None)
      = Inr (r, [], ws, fut, (\<lambda>_. fresh_queue None)(1 := q'))"
  using batch_reduce_poll_unbatched [where queues = "\<lambda>_. fresh_queue None" and here = "1 :: nat" and t = "5 :: nat"
      and drops = True and waker = "''w''" and red = "Finish ()",
      OF fresh_queue_at(1) _ _ list_deque(1)]
  by fastforce

text \<open>A reducer that adds the first two tasks of a batch, and the queue with a batch of three.\<close>

definition add_two :: "(nat, nat) reducer" where
  "add_two = Next (\<lambda>x. Next (\<lambda>y. Finish (the x + the y)))"

definition example_queues :: "nat \<Rightarrow> (64 word, nat buffer_cell, string list) stack_queue" where
  "example_queues = (\<lambda>_. \<lparr>own_slot = mk_slot 65 True, own_occupancy = occupancy example_inner, inner = example_inner\<rparr>)"

lemma example_queues_inner [simp]: "inner (example_queues h) = example_inner"
  by (simp add: example_queues_def)

theorem batch_reduce_poll_collecting_witness:
  "\<exists>woken queues'. batch_reduce_poll list_push list_steal True (2 ^ 6) 3 ''w''
      (ReduceCollecting 0 \<lparr>ur_base_slot = mk_slot 62 True\<rparr> add_two) example_queues
      = Inr (Ready (Some 3), [3], woken, ReduceBatched, queues')"
proof -
  have r: "reduce_list add_two [Suc 0, 2, 3] = (3, [3])" by (simp add: add_two_def)
  from batch_reduce_poll_collecting [where k = 6 and M = "{#7#}" and queues = example_queues and home = 0 and a = 62 and b = 65
      and q = True and p = True and red = add_two and here = 3 and waker = "''w''",
      OF _ _ _ _ _ list_deque]
  show ?thesis
    by (auto simp: example_occupied example_window [simplified] example_inner_slot r)
qed

theorem batch_collect_poll_collecting_witness:
  "\<exists>woken queues'. batch_collect_poll list_push list_steal (2 ^ 6) 3 ''w''
      (CollectCollecting 0 \<lparr>ur_base_slot = mk_slot 62 True\<rparr>) example_queues
      = Inr (Ready (Some [1, 2, 3]), woken, CollectBatched, queues')"
  using batch_collect_poll_collecting [where k = 6 and M = "{#7#}" and queues = example_queues and home = 0 and a = 62 and b = 65
      and q = True and p = True and here = 3 and waker = "''w''",
      OF _ _ _ _ list_deque]
  by (auto simp: example_occupied example_window [simplified] example_inner_slot)

end
