(* ===== verification/Interleaving.thy ===== *)
theory Interleaving
  imports Futures
begin

unbundle bit_operations_syntax

text \<open>
  The queue at work: the thread that owns it pushes tasks while other threads hold batches of earlier
  tasks. \<open>push\<close>, bounding a batch, taking its tasks and releasing its region are cut into steps with
  at most one atomic operation each (a release also wakes), run in any order. What the steps do to the queue is done by
  the definitions of the component theories.

  Batches are never removed from the state but end as \<open>Released\<close>; \<open>first\<close>, \<open>ended\<close> and the \<open>log\<close> of
  all tasks that were pushed are not in the program, and no step depends on them.
\<close>

section \<open>State\<close>

text \<open>
  \<open>Claimed\<close>: opened by \<open>fetch_add\<close>, its region not occupied yet and its handle not handed out.
  \<open>Iterating\<close>: held by a \<open>BufferIter\<close>, with the tasks it gave out or dropped so far. \<open>Mapping\<close>: held
  by a \<open>TaskAssignment\<close> whose cells are gone through in the order of its slices, with the tasks taken
  so far. \<open>Consumed\<close>: the tasks were moved out or dropped, but the region is still occupied.
\<close>

datatype 't stage =
    Claimed "64 word unbounded_range"
  | Unbounded "64 word unbounded_range"
  | Bounded "64 word bounded_range"
  | Iterating "64 word buffer_iter" "'t list"
  | Mapping "64 word task_assignment" "'t list"
  | Consumed "64 word bounded_range" "'t list"
  | Released "'t list"

record 't batch =
  first :: nat
  ended :: "nat option"
  stage :: "'t stage"

text \<open>
  Where the owner is in \<open>push\<close>: before it, after the check of the region, after the write, between
  claiming the slot of a new batch and occupying its region, or after a refusal, about to park its
  waker.
\<close>

datatype ('t, 'wk) owner_step =
    Idle | Checked 't | Written 't | Occupying "64 word" | Parking 'wk

record ('t, 'd, 'wk) system =
  sys_queue :: "(64 word, 't buffer_cell, 'd) stack_queue"
  owner :: "('t, 'wk) owner_step"
  log :: "'t list"
  batches :: "'t batch list"
  failed :: bool

definition set_inner :: "('u, 'c, 'd) stack_queue \<Rightarrow> ('u, 'c, 'd) inner \<Rightarrow> ('u, 'c, 'd) stack_queue" where
  "set_inner q s = q\<lparr>inner := s\<rparr>"

definition set_stage :: "nat \<Rightarrow> 't stage \<Rightarrow> 't batch list \<Rightarrow> 't batch list" where
  "set_stage j st bs = bs[j := (bs ! j)\<lparr>stage := st\<rparr>]"

section \<open>Steps\<close>

text \<open>
  Pushing (\<open>check\<close> to \<open>occupy\<close>), bounding (\<open>bound\<close>), \<open>to_vec\<close> (\<open>take_tasks\<close>, \<open>release\<close>), a
  \<open>BufferIter\<close> and its destructor, which takes what is left the same way (\<open>start_iter\<close>, \<open>iterate\<close>,
  \<open>release_iter\<close>), a \<open>TaskAssignment\<close> that takes the tasks one by one, as \<open>map\<close>, \<open>resolve_with_iter\<close>
  and its destructor do (\<open>start_map\<close>, \<open>map_next\<close>, \<open>release_map\<close>; what it does with them besides is in
  another theory), and the destructors of the two ranges (\<open>drop_range\<close>, \<open>release\<close>, for an
  \<open>UnboundedRange\<close> after \<open>bound\<close>), for a type of tasks that needs dropping. The release steps are the
  exception to one atomic operation a step: the \<open>fetch_sub\<close> and the loop that takes wakers from the deque are
  one step.
\<close>

inductive sys_step ::
    "('d \<Rightarrow> 'wk \<Rightarrow> 'd) \<Rightarrow> ('d \<Rightarrow> 'wk steal \<times> 'd) \<Rightarrow> 64 word
      \<Rightarrow> ('t, 'd, 'wk) system \<Rightarrow> ('t, 'd, 'wk) system \<Rightarrow> bool"
  for dpush :: "'d \<Rightarrow> 'wk \<Rightarrow> 'd" and steal :: "'d \<Rightarrow> 'wk steal \<times> 'd" and N :: "64 word" where
  check_free:
    "owner s = Idle \<Longrightarrow>
     region_check N (current_write_index N (sys_queue s)) (sys_queue s) = (Inr (), q) \<Longrightarrow>
     sys_step dpush steal N s (s\<lparr>sys_queue := q, owner := Checked t\<rparr>)"
| check_full:
    "owner s = Idle \<Longrightarrow>
     region_check N (current_write_index N (sys_queue s)) (sys_queue s) = (Inl QueueFull, q) \<Longrightarrow>
     sys_step dpush steal N s (s\<lparr>sys_queue := q, owner := Parking waker\<rparr>)"
| park:
    "owner s = Parking waker \<Longrightarrow>
     sys_step dpush steal N s (s\<lparr>sys_queue := pending_push dpush waker (sys_queue s), owner := Idle\<rparr>)"
| write_cell:
    "owner s = Checked t \<Longrightarrow> i = unat (current_write_index N (sys_queue s)) \<Longrightarrow>
     sys_step dpush steal N s
       (s\<lparr>sys_queue := set_inner (sys_queue s)
            ((inner (sys_queue s))\<lparr>buffer := (buffer (inner (sys_queue s)))[i := Some t]\<rparr>),
          owner := Written t, failed := failed s \<or> length (buffer (inner (sys_queue s))) \<le> i\<rparr>)"
| claim_joins:
    "owner s = Written t \<Longrightarrow> claim_slot (sys_queue s) = (base, prev, q) \<Longrightarrow>
     (base XOR prev) AND PHASE = 0 \<Longrightarrow>
     sys_step dpush steal N s (s\<lparr>sys_queue := q, owner := Idle, log := log s @ [t]\<rparr>)"
| claim_opens:
    "owner s = Written t \<Longrightarrow> claim_slot (sys_queue s) = (base, prev, q) \<Longrightarrow>
     (base XOR prev) AND PHASE \<noteq> 0 \<Longrightarrow>
     sys_step dpush steal N s
       (s\<lparr>sys_queue := q, owner := Occupying (current_write_index N (sys_queue s)), log := log s @ [t],
          batches := batches s @ [\<lparr>first = length (log s), ended = None, stage = Claimed \<lparr>ur_base_slot = base\<rparr>\<rparr>]\<rparr>)"
| occupy:
    "owner s = Occupying i \<Longrightarrow> j < length (batches s) \<Longrightarrow> stage (batches s ! j) = Claimed ur \<Longrightarrow>
     sys_step dpush steal N s
       (s\<lparr>sys_queue := occupy_region N i (sys_queue s), owner := Idle,
          batches := set_stage j (Unbounded ur) (batches s)\<rparr>)"
| bound:
    "j < length (batches s) \<Longrightarrow> stage (batches s ! j) = Unbounded ur \<Longrightarrow>
     into_bounded ur (inner (sys_queue s)) = (br, s') \<Longrightarrow>
     sys_step dpush steal N s
       (s\<lparr>sys_queue := set_inner (sys_queue s) s',
          batches := (batches s)[j := (batches s ! j)\<lparr>stage := Bounded br, ended := Some (length (log s))\<rparr>]\<rparr>)"
| take_tasks:
    "j < length (batches s) \<Longrightarrow> stage (batches s ! j) = Bounded br \<Longrightarrow>
     copy_out N br (buffer (inner (sys_queue s))) = Inr (ts, buf) \<Longrightarrow>
     sys_step dpush steal N s
       (s\<lparr>sys_queue := set_inner (sys_queue s) ((inner (sys_queue s))\<lparr>buffer := buf\<rparr>),
          batches := set_stage j (Consumed br ts) (batches s)\<rparr>)"
| take_fails:
    "j < length (batches s) \<Longrightarrow> stage (batches s ! j) = Bounded br \<Longrightarrow>
     copy_out N br (buffer (inner (sys_queue s))) = Inl f \<Longrightarrow>
     sys_step dpush steal N s (s\<lparr>failed := True\<rparr>)"
| start_iter:
    "j < length (batches s) \<Longrightarrow> stage (batches s ! j) = Bounded br \<Longrightarrow>
     sys_step dpush steal N s (s\<lparr>batches := set_stage j (Iterating (into_iter br) []) (batches s)\<rparr>)"
| iterate:
    "j < length (batches s) \<Longrightarrow> stage (batches s ! j) = Iterating it ts \<Longrightarrow>
     iter_next N it (buffer (inner (sys_queue s))) = Inr (Some t, it', buf) \<Longrightarrow>
     sys_step dpush steal N s
       (s\<lparr>sys_queue := set_inner (sys_queue s) ((inner (sys_queue s))\<lparr>buffer := buf\<rparr>),
          batches := set_stage j (Iterating it' (ts @ [t])) (batches s)\<rparr>)"
| iterate_fails:
    "j < length (batches s) \<Longrightarrow> stage (batches s ! j) = Iterating it ts \<Longrightarrow>
     iter_next N it (buffer (inner (sys_queue s))) = Inl f \<Longrightarrow>
     sys_step dpush steal N s (s\<lparr>failed := True\<rparr>)"
| release_iter:
    "j < length (batches s) \<Longrightarrow> stage (batches s ! j) = Iterating it ts \<Longrightarrow>
     iter_next N it (buffer (inner (sys_queue s))) = Inr (None, it', buf) \<Longrightarrow>
     iter_deoccupy_buffer steal N it' ((inner (sys_queue s))\<lparr>buffer := buf\<rparr>) = Inr (woken, s') \<Longrightarrow>
     sys_step dpush steal N s
       (s\<lparr>sys_queue := set_inner (sys_queue s) s', batches := set_stage j (Released ts) (batches s)\<rparr>)"
| start_map:
    "j < length (batches s) \<Longrightarrow> stage (batches s ! j) = Bounded br \<Longrightarrow>
     sys_step dpush steal N s (s\<lparr>batches := set_stage j (Mapping br []) (batches s)\<rparr>)"
| map_next:
    "j < length (batches s) \<Longrightarrow> stage (batches s ! j) = Mapping ta ts \<Longrightarrow>
     length ts < length (assignment_tasks N ta) \<Longrightarrow>
     read_cell (assignment_tasks N ta ! length ts) (buffer (inner (sys_queue s))) = Inr (t, buf) \<Longrightarrow>
     sys_step dpush steal N s
       (s\<lparr>sys_queue := set_inner (sys_queue s) ((inner (sys_queue s))\<lparr>buffer := buf\<rparr>),
          batches := set_stage j (Mapping ta (ts @ [t])) (batches s)\<rparr>)"
| map_fails:
    "j < length (batches s) \<Longrightarrow> stage (batches s ! j) = Mapping ta ts \<Longrightarrow>
     length ts < length (assignment_tasks N ta) \<Longrightarrow>
     read_cell (assignment_tasks N ta ! length ts) (buffer (inner (sys_queue s))) = Inl f \<Longrightarrow>
     sys_step dpush steal N s (s\<lparr>failed := True\<rparr>)"
| release_map:
    "j < length (batches s) \<Longrightarrow> stage (batches s ! j) = Mapping ta ts \<Longrightarrow>
     length ts = length (assignment_tasks N ta) \<Longrightarrow>
     assignment_deoccupy_buffer steal N ta (inner (sys_queue s)) = Inr (woken, s') \<Longrightarrow>
     sys_step dpush steal N s
       (s\<lparr>sys_queue := set_inner (sys_queue s) s', batches := set_stage j (Released ts) (batches s)\<rparr>)"
| drop_range:
    "j < length (batches s) \<Longrightarrow> stage (batches s ! j) = Bounded br \<Longrightarrow>
     drop_cells N (range_indices (range_start br) (range_end br)) (buffer (inner (sys_queue s))) = Inr (ts, buf) \<Longrightarrow>
     sys_step dpush steal N s
       (s\<lparr>sys_queue := set_inner (sys_queue s) ((inner (sys_queue s))\<lparr>buffer := buf\<rparr>),
          batches := set_stage j (Consumed br ts) (batches s)\<rparr>)"
| drop_fails:
    "j < length (batches s) \<Longrightarrow> stage (batches s ! j) = Bounded br \<Longrightarrow>
     drop_cells N (range_indices (range_start br) (range_end br)) (buffer (inner (sys_queue s))) = Inl f \<Longrightarrow>
     sys_step dpush steal N s (s\<lparr>failed := True\<rparr>)"
| release:
    "j < length (batches s) \<Longrightarrow> stage (batches s ! j) = Consumed br ts \<Longrightarrow>
     bounded_deoccupy_buffer steal N br (inner (sys_queue s)) = Inr (woken, s') \<Longrightarrow>
     sys_step dpush steal N s
       (s\<lparr>sys_queue := set_inner (sys_queue s) s', batches := set_stage j (Released ts) (batches s)\<rparr>)"

definition sys_start :: "(64 word, 't buffer_cell, 'd) stack_queue \<Rightarrow> ('t, 'd, 'wk) system" where
  "sys_start q = \<lparr>sys_queue = q, owner = Idle, log = [], batches = [], failed = False\<rparr>"

inductive sys_reachable ::
    "('d \<Rightarrow> 'wk \<Rightarrow> 'd) \<Rightarrow> ('d \<Rightarrow> 'wk steal \<times> 'd) \<Rightarrow> 64 word \<Rightarrow> 'd \<Rightarrow> ('t, 'd, 'wk) system \<Rightarrow> bool"
  for dpush :: "'d \<Rightarrow> 'wk \<Rightarrow> 'd" and steal :: "'d \<Rightarrow> 'wk steal \<times> 'd" and N :: "64 word" and d :: 'd where
  sys_init: "stack_queue_default None N d = Some q \<Longrightarrow> sys_reachable dpush steal N d (sys_start q)"
| sys_next: "sys_reachable dpush steal N d s \<Longrightarrow> sys_step dpush steal N s s' \<Longrightarrow>
    sys_reachable dpush steal N d s'"

section \<open>Batches as a partition of the log\<close>

definition batch_end :: "nat \<Rightarrow> 't batch \<Rightarrow> nat" where
  "batch_end c b = (case ended b of None \<Rightarrow> c | Some e \<Rightarrow> e)"

text \<open>The batches cover the tasks \<open>a\<close> to \<open>c - 1\<close>, one after the other; only the last is open.\<close>

fun chain :: "nat \<Rightarrow> nat \<Rightarrow> 't batch list \<Rightarrow> bool" where
  "chain a c [] \<longleftrightarrow> a = c"
| "chain a c (b # bs) \<longleftrightarrow> first b = a \<and> a < batch_end c b \<and> (ended b = None \<longrightarrow> bs = []) \<and>
     chain (batch_end c b) c bs"

lemma chain_le: "chain a c bs \<Longrightarrow> a \<le> c"
  by (induction bs arbitrary: a) fastforce+

lemma chain_bounds:
  "chain a c bs \<Longrightarrow> b \<in> set bs \<Longrightarrow> a \<le> first b \<and> first b < batch_end c b \<and> batch_end c b \<le> c"
proof (induction bs arbitrary: a)
  case (Cons x bs)
  have "chain (batch_end c x) c bs" using Cons.prems(1) by simp
  then show ?case using Cons.IH [of "batch_end c x"] Cons.prems chain_le [of "batch_end c x" c bs] by fastforce
qed simp

lemma chain_disjoint:
  "chain a c bs \<Longrightarrow> i < j \<Longrightarrow> j < length bs \<Longrightarrow> batch_end c (bs ! i) \<le> first (bs ! j)"
proof (induction bs arbitrary: a i j)
  case (Cons x bs)
  then show ?case
    using chain_bounds [of "batch_end c x" c bs "bs ! (j - 1)"]
    by (cases i; cases j) (auto intro: Cons.IH)
qed simp

lemma chain_extend:
  "chain a c bs \<Longrightarrow> \<exists>b\<in>set bs. ended b = None \<Longrightarrow> chain a (Suc c) bs"
  by (induction bs arbitrary: a) (auto simp: batch_end_def split: option.splits)

lemma chain_append:
  "chain a c bs \<Longrightarrow> \<forall>b\<in>set bs. ended b \<noteq> None \<Longrightarrow> chain a (Suc c) (bs @ [\<lparr>first = c, ended = None, stage = st\<rparr>])"
  by (induction bs arbitrary: a) (auto simp: batch_end_def split: option.splits)

lemma chain_update:
  "chain a c bs \<Longrightarrow> j < length bs \<Longrightarrow> first b = first (bs ! j) \<Longrightarrow> batch_end c b = batch_end c (bs ! j) \<Longrightarrow>
    (ended b = None \<longrightarrow> ended (bs ! j) = None) \<Longrightarrow> chain a c (bs[j := b])"
proof (induction bs arbitrary: a j)
  case (Cons x bs)
  then show ?case by (cases j) auto
qed simp

lemma chain_distinct: "chain a c bs \<Longrightarrow> distinct (map first bs)"
proof (induction bs arbitrary: a)
  case (Cons x bs)
  have rest: "chain (batch_end c x) c bs" and "first x < batch_end c x" using Cons.prems by simp_all
  then have "first x < first b" if "b \<in> set bs" for b
    using chain_bounds [OF rest that] by linarith
  then show ?case using Cons.IH [OF rest] by fastforce
qed simp

lemma chain_open_unique:
  "chain a c bs \<Longrightarrow> i < length bs \<Longrightarrow> j < length bs \<Longrightarrow> ended (bs ! i) = None \<Longrightarrow> ended (bs ! j) = None \<Longrightarrow> i = j"
proof (induction bs arbitrary: a i j)
  case (Cons x bs)
  then show ?case by (cases i; cases j) auto
qed simp

section \<open>Regions and laps\<close>

abbreviation region_start :: "nat \<Rightarrow> nat \<Rightarrow> nat" where
  "region_start k a \<equiv> block_start (2 ^ (k - 3)) a"

lemma region_div: "3 \<le> k \<Longrightarrow> region k a = a div 2 ^ (k - 3) mod 8"
proof -
  assume "3 \<le> k"
  then have "(2::nat) ^ k = 2 ^ (k - 3) * 8" using power_add [of "2::nat" "k - 3" 3] by simp
  then show ?thesis unfolding region_def by (simp only: mod_mult2_eq) simp
qed

lemma region_start_mult: "region_start k a = a div 2 ^ (k - 3) * 2 ^ (k - 3)"
  by (simp add: block_start_def minus_mod_eq_div_mult)

lemma exp_lap: "3 \<le> k \<Longrightarrow> (2::nat) ^ k = 8 * 2 ^ (k - 3)"
  using power_add [of "2::nat" 3 "k - 3"] by simp

text \<open>
  The counter stands one lap ahead of a region exactly when it enters that region anew.
\<close>

lemma lap_iff:
  assumes "3 \<le> k" "a < c" "c \<le> region_start k a + 2 ^ k"
  shows "c = region_start k a + 2 ^ k \<longleftrightarrow> 2 ^ (k - 3) dvd c \<and> region k c = region k a"
proof
  assume "c = region_start k a + 2 ^ k"
  then have c: "c = (a div 2 ^ (k - 3) + 8) * 2 ^ (k - 3)"
    using assms(1) by (simp add: region_start_mult exp_lap algebra_simps)
  then have "c div 2 ^ (k - 3) = a div 2 ^ (k - 3) + 8" by simp
  then show "2 ^ (k - 3) dvd c \<and> region k c = region k a"
    using assms(1) c by (simp add: region_div)
next
  assume r: "2 ^ (k - 3) dvd c \<and> region k c = region k a"
  define m :: nat where "m = 2 ^ (k - 3)"
  define x y where "x = a div m" and "y = c div m"
  have m: "0 < m" by (simp add: m_def)
  have c: "c = y * m" using r by (simp add: m_def y_def)
  have "y mod 8 = x mod 8" using r assms(1) by (simp add: region_div m_def x_def y_def)
  moreover have "x < y"
  proof -
    have "a div m \<le> c div m" using assms(2) by (simp add: div_le_mono)
    moreover have "a div m \<noteq> c div m"
    proof
      assume "a div m = c div m"
      then have "y = x" by (simp only: x_def y_def)
      then have "c \<le> a" using c div_times_less_eq_dividend [of a m] by (simp only: x_def)
      then show False using assms(2) by simp
    qed
    ultimately show ?thesis by (simp add: x_def y_def)
  qed
  moreover have "y \<le> x + 8"
  proof -
    have "y * m \<le> (x + 8) * m"
      using assms(1,3) c by (simp add: region_start_mult exp_lap m_def x_def algebra_simps)
    then show ?thesis using m by simp
  qed
  ultimately have "y = x + 8" using mod_eq_lap [of x 8 y] by linarith
  then show "c = region_start k a + 2 ^ k"
    using assms(1) c by (simp add: region_start_mult exp_lap m_def x_def algebra_simps)
qed

lemma region_start_lap: "3 \<le> k \<Longrightarrow> Suc c \<le> region_start k c + 2 ^ k"
  using block_start_gt [of "2 ^ (k - 3)" c] exp_lap [of k] by simp

section \<open>The invariant\<close>

definition running :: "'t batch \<Rightarrow> bool" where
  "running b \<longleftrightarrow> (case stage b of Released _ \<Rightarrow> False | _ \<Rightarrow> True)"

definition occupying :: "'t batch \<Rightarrow> bool" where
  "occupying b \<longleftrightarrow> (case stage b of Released _ \<Rightarrow> False | Claimed _ \<Rightarrow> False | _ \<Rightarrow> True)"

definition regions_of :: "nat \<Rightarrow> 't batch list \<Rightarrow> nat multiset" where
  "regions_of k bs = mset (map (\<lambda>b. region k (first b)) (filter occupying bs))"

text \<open>
  The bound of the occupancy word: at most 255 running batches start in the same region. Up to
  \<open>k = 10\<close> no region has that many cells, so nothing is asked. \<open>limited_reachable\<close>: reachable without
  going beyond the bound.
\<close>

definition within_limits :: "nat \<Rightarrow> ('t, 'd, 'wk) system \<Rightarrow> bool" where
  "within_limits k s \<longleftrightarrow> k \<le> 10 \<or> (\<forall>r<8. count (regions_of k (batches s)) r < 256)"

inductive limited_reachable ::
    "('d \<Rightarrow> 'wk \<Rightarrow> 'd) \<Rightarrow> ('d \<Rightarrow> 'wk steal \<times> 'd) \<Rightarrow> nat \<Rightarrow> 'd \<Rightarrow> ('t, 'd, 'wk) system \<Rightarrow> bool"
  for dpush :: "'d \<Rightarrow> 'wk \<Rightarrow> 'd" and steal :: "'d \<Rightarrow> 'wk steal \<times> 'd" and k :: nat and d :: 'd where
  limited_init: "stack_queue_default None (2 ^ k) d = Some q \<Longrightarrow> limited_reachable dpush steal k d (sys_start q)"
| limited_next: "limited_reachable dpush steal k d s \<Longrightarrow> sys_step dpush steal (2 ^ k) s s' \<Longrightarrow> within_limits k s' \<Longrightarrow>
    limited_reachable dpush steal k d s'"

lemma limited_if_small:
  assumes "sys_reachable dpush steal (2 ^ k) d s" "k \<le> 10"
  shows "limited_reachable dpush steal k d s"
  using assms(1)
  by induction (use assms(2) in \<open>auto intro: limited_init limited_next simp: within_limits_def\<close>)

text \<open>
  What the handle of a batch says of it, and what was taken out of it: all its tasks, or none when
  the counter wraps around inside the batch.
\<close>

definition taken_ok :: "'t list \<Rightarrow> nat \<Rightarrow> nat \<Rightarrow> 't list \<Rightarrow> bool" where
  "taken_ok l a e ts \<longleftrightarrow> ts = map ((!) l) [a..<e] \<or> ts = [] \<and> \<not> same_cycle a e"

definition stage_ok :: "'t list \<Rightarrow> 't batch \<Rightarrow> bool" where
  "stage_ok l b \<longleftrightarrow> (case stage b of
     Claimed ur \<Rightarrow> ended b = None \<and> (\<exists>p. ur = \<lparr>ur_base_slot = mk_slot (first b) p\<rparr>)
   | Unbounded ur \<Rightarrow> ended b = None \<and> (\<exists>p. ur = \<lparr>ur_base_slot = mk_slot (first b) p\<rparr>)
   | Bounded br \<Rightarrow> (\<exists>e. ended b = Some e \<and> br = bounds64 (first b) e)
   | Iterating it ts \<Rightarrow> (\<exists>e. ended b = Some e \<and> first b + length ts \<le> e \<and>
       it = iter64 (first b) e (first b + length ts) \<and> ts = map ((!) l) [first b..<first b + length ts] \<and>
       (same_cycle (first b) e \<or> ts = []))
   | Mapping ta ts \<Rightarrow> (\<exists>e. ended b = Some e \<and> first b + length ts \<le> e \<and> ta = bounds64 (first b) e \<and>
       ts = map ((!) l) [first b..<first b + length ts])
   | Consumed br ts \<Rightarrow> (\<exists>e. ended b = Some e \<and> br = bounds64 (first b) e \<and> taken_ok l (first b) e ts)
   | Released ts \<Rightarrow> (\<exists>e. ended b = Some e \<and> taken_ok l (first b) e ts))"

text \<open>A batch whose tasks were not all taken finds those that are left in its cells.\<close>

definition untaken :: "'t batch \<Rightarrow> bool" where
  "untaken b \<longleftrightarrow> (case stage b of Consumed _ _ \<Rightarrow> False | Released _ \<Rightarrow> False | _ \<Rightarrow> True)"

definition next_task :: "'t batch \<Rightarrow> nat" where
  "next_task b = (case stage b of Iterating _ ts \<Rightarrow> first b + length ts
     | Mapping _ ts \<Rightarrow> first b + length ts | _ \<Rightarrow> first b)"

definition cells_ok :: "nat \<Rightarrow> 't list \<Rightarrow> 't buffer_cell list \<Rightarrow> 't batch \<Rightarrow> bool" where
  "cells_ok n l buf b \<longleftrightarrow>
     (untaken b \<longrightarrow> (\<forall>i\<in>{next_task b..<batch_end (length l) b}. buf ! (i mod n) = Some (l ! i)))"

text \<open>No running batch is lapped: the counter is at most a buffer ahead of its region.\<close>

definition in_window :: "nat \<Rightarrow> nat \<Rightarrow> 't batch \<Rightarrow> bool" where
  "in_window k c b \<longleftrightarrow> (running b \<longrightarrow> c \<le> region_start k (first b) + 2 ^ k)"

definition no_claimed :: "'t batch list \<Rightarrow> bool" where
  "no_claimed bs \<longleftrightarrow> (\<forall>b\<in>set bs. \<forall>ur. stage b \<noteq> Claimed ur)"

definition owner_ok :: "nat \<Rightarrow> ('t, 'd, 'wk) system \<Rightarrow> bool" where
  "owner_ok k s \<longleftrightarrow> (case owner s of
     Checked t \<Rightarrow> no_claimed (batches s) \<and>
       (\<forall>b\<in>set (batches s). in_window k (Suc (length (log s))) b)
   | Written t \<Rightarrow> no_claimed (batches s) \<and>
       (\<forall>b\<in>set (batches s). in_window k (Suc (length (log s))) b) \<and>
       buffer (inner (sys_queue s)) ! (length (log s) mod 2 ^ k) = Some t
   | Occupying i \<Rightarrow> (\<exists>bs b ur. batches s = bs @ [b] \<and> no_claimed bs \<and> stage b = Claimed ur \<and>
       unat i = first b mod 2 ^ k)
   | _ \<Rightarrow> no_claimed (batches s))"

text \<open>The words: \<open>B\<close> are the regions busy in the owner's cache.\<close>

definition words_ok :: "nat \<Rightarrow> nat \<Rightarrow> 't batch list \<Rightarrow> (64 word, 't buffer_cell, 'd) stack_queue \<Rightarrow> bool" where
  "words_ok k c bs q \<longleftrightarrow> (\<exists>op ph B. queue_at k c op ph (regions_of k bs) q \<and>
     own_occupancy q = enc64 (count B) \<and> regions_of k bs \<subseteq># B \<and> (\<forall>r. count B r < 256) \<and>
     (ph = op \<longleftrightarrow> (\<exists>b\<in>set bs. ended b = None)))"

definition sys_inv :: "nat \<Rightarrow> ('t, 'd, 'wk) system \<Rightarrow> bool" where
  "sys_inv k s \<longleftrightarrow> \<not> failed s \<and> words_ok k (length (log s)) (batches s) (sys_queue s) \<and>
     chain 0 (length (log s)) (batches s) \<and> owner_ok k s \<and>
     (\<forall>b\<in>set (batches s). stage_ok (log s) b \<and> cells_ok (2 ^ k) (log s) (buffer (inner (sys_queue s))) b \<and>
        in_window k (length (log s)) b)"

text \<open>At most a region's worth of running batches start in one region.\<close>

lemma count_regions_le:
  assumes "chain a c bs" "3 \<le> k" "\<forall>b\<in>set bs. in_window k c b"
  shows "count (regions_of k bs) r \<le> 2 ^ (k - 3)"
proof -
  define m :: nat where "m = 2 ^ (k - 3)"
  define xs where "xs = map first (filter occupying bs)"
  define S where "S = {x \<in> set xs. region k x = r}"
  have dist: "distinct xs"
    using chain_distinct [OF assms(1)] unfolding xs_def by (simp add: distinct_map_filter)
  have "regions_of k bs = mset (map (region k) xs)"
    by (simp add: regions_of_def xs_def comp_def)
  moreover have "count (mset (map (region k) xs)) r = length (filter (\<lambda>x. region k x = r) xs)"
    by (induction xs) auto
  ultimately have "count (regions_of k bs) r = length (filter (\<lambda>x. region k x = r) xs)" by simp
  also have "\<dots> = card S"
    using distinct_card [of "filter (\<lambda>x. region k x = r) xs"] dist by (simp add: S_def)
  also have "\<dots> = card ((\<lambda>x. x mod 2 ^ k) ` S)"
  proof (rule card_image [symmetric], rule inj_onI)
    fix x y
    have window: "c - 2 ^ k \<le> z \<and> z < c" if z: "z \<in> S" for z
    proof -
      obtain b where b: "b \<in> set bs" "occupying b" "z = first b" using z by (auto simp: S_def xs_def)
      then have "running b" by (auto simp: occupying_def running_def split: stage.splits)
      then have "c \<le> region_start k z + 2 ^ k" using assms(3) b by (auto simp: in_window_def)
      then show ?thesis
        using chain_bounds [OF assms(1) b(1)] b(3) block_start_le [of "2 ^ (k - 3)" z] by linarith
    qed
    assume "x \<in> S" "y \<in> S" "x mod 2 ^ k = y mod 2 ^ k"
    then show "x = y" using mod_window_distinct [of c "c - 2 ^ k" "2 ^ k" x y] window by auto
  qed
  also have "\<dots> \<le> card {r * m..<r * m + m}"
  proof (rule card_mono)
    show "(\<lambda>x. x mod 2 ^ k) ` S \<subseteq> {r * m..<r * m + m}"
    proof
      fix y
      assume "y \<in> (\<lambda>x. x mod 2 ^ k) ` S"
      then obtain x where x: "y = x mod 2 ^ k" "y div m = r" by (auto simp: S_def region_def m_def)
      have "y = y div m * m + y mod m" by (simp only: div_mult_mod_eq)
      moreover have "y mod m < m" by (simp add: m_def)
      ultimately show "y \<in> {r * m..<r * m + m}" unfolding x(2) by auto
    qed
  qed simp
  finally show ?thesis by (simp add: m_def)
qed

section \<open>What an update of one batch keeps\<close>

lemma all_upd: "\<forall>b\<in>set bs. P b \<Longrightarrow> P b' \<Longrightarrow> \<forall>b\<in>set (bs[j := b']). P b"
  using set_update_subset_insert [of bs j b'] by blast

lemma all_upd_nth:
  assumes "P b'" "\<forall>i<length bs. i \<noteq> j \<longrightarrow> P (bs ! i)"
  shows "\<forall>b\<in>set (bs[j := b']). P b"
  using assms
  by (metis in_set_conv_nth length_list_update nth_list_update_eq nth_list_update_neq)

lemma open_update:
  assumes "j < length bs" "ended b = ended (bs ! j)"
  shows "(\<exists>x\<in>set (bs[j := b]). ended x = None) \<longleftrightarrow> (\<exists>x\<in>set bs. ended x = None)"
proof -
  have "map ended (bs[j := b]) = map ended bs"
    using assms by (simp add: map_update) (metis list_update_id nth_map)
  then have "None \<in> set (map ended (bs[j := b])) \<longleftrightarrow> None \<in> set (map ended bs)" by (rule arg_cong)
  then show ?thesis by (simp add: image_iff eq_commute [of None])
qed

lemma occupying_running: "occupying b \<Longrightarrow> running b"
  by (simp add: occupying_def running_def split: stage.splits)

lemma running_occupying: "no_claimed bs \<Longrightarrow> b \<in> set bs \<Longrightarrow> running b \<Longrightarrow> occupying b"
  by (auto simp: no_claimed_def occupying_def running_def split: stage.splits)

lemma untaken_running: "untaken b \<Longrightarrow> running b"
  by (simp add: untaken_def running_def split: stage.splits)

lemma next_task_ge: "first b \<le> next_task b"
  by (simp add: next_task_def split: stage.splits)

lemma in_regions: "b \<in> set bs \<Longrightarrow> occupying b \<Longrightarrow> region k (first b) \<in># regions_of k bs"
  by (auto simp: regions_of_def)

lemma regions_less: "3 \<le> k \<Longrightarrow> \<forall>r\<in>#regions_of k bs. r < 8"
  by (auto simp: regions_of_def)

lemma regions_of_update:
  assumes "j < length bs" "first b = first (bs ! j)"
  shows "regions_of k (bs[j := b]) =
    (regions_of k bs - (if occupying (bs ! j) then {#region k (first b)#} else {#})) +
    (if occupying b then {#region k (first b)#} else {#})"
proof -
  obtain xs x ys where bs: "bs = xs @ x # ys" and j: "j = length xs"
    using assms(1) id_take_nth_drop [OF assms(1)] by (metis length_take less_imp_le min.absorb2)
  show ?thesis using assms(2) by (simp add: bs j regions_of_def list_update_append)
qed

lemma owner_ok_update:
  assumes "owner_ok k s" "j < length (batches s)" "\<forall>ur. stage (batches s ! j) \<noteq> Claimed ur"
    and "first b = first (batches s ! j)" "\<forall>ur. stage b \<noteq> Claimed ur" "running b \<longrightarrow> running (batches s ! j)"
    and "\<forall>t. owner s = Written t \<longrightarrow>
      buffer (inner q) ! (length (log s) mod 2 ^ k) = buffer (inner (sys_queue s)) ! (length (log s) mod 2 ^ k)"
  shows "owner_ok k (s\<lparr>sys_queue := q, batches := (batches s)[j := b]\<rparr>)"
proof -
  let ?bs = "(batches s)[j := b]"
  have nc: "no_claimed (batches s) \<Longrightarrow> no_claimed ?bs"
    unfolding no_claimed_def by (rule all_upd) (use assms(5) in auto)
  have win: "\<forall>b\<in>set ?bs. in_window k (Suc (length (log s))) b"
    if "\<forall>b\<in>set (batches s). in_window k (Suc (length (log s))) b"
    using that by (rule all_upd) (use that assms(2,4,6) in \<open>simp add: in_window_def\<close>)
  show ?thesis
  proof (cases "owner s")
    case (Occupying i)
    then obtain bs b0 ur where bs: "batches s = bs @ [b0]" "no_claimed bs" "stage b0 = Claimed ur"
        "unat i = first b0 mod 2 ^ k"
      using assms(1) by (auto simp: owner_ok_def)
    then have j: "j < length bs" using assms(2,3) by (cases "j = length bs") auto
    have "no_claimed (bs[j := b])"
      unfolding no_claimed_def by (rule all_upd) (use assms(5) bs(2) in \<open>auto simp: no_claimed_def\<close>)
    then show ?thesis
      using Occupying bs j by (simp add: owner_ok_def list_update_append1)
  next
    case (Written t)
    then show ?thesis using assms(1,7) nc win by (simp add: owner_ok_def)
  next
    case (Checked t)
    then show ?thesis using assms(1) nc win by (simp add: owner_ok_def)
  next
    case Idle
    then show ?thesis using assms(1) nc by (simp add: owner_ok_def)
  next
    case (Parking w)
    then show ?thesis using assms(1) nc by (simp add: owner_ok_def)
  qed
qed

section \<open>Steps of the owner keep the invariant\<close>

lemma words_check:
  assumes "words_ok k c bs q" "6 \<le> k" "k < 32"
    and "region_check (2 ^ k) (current_write_index (2 ^ k) q) q = (r, q')"
  shows "words_ok k c bs q' \<and> inner q' = inner q \<and>
    (case r of Inl _ \<Rightarrow> 2 ^ (k - 3) dvd c \<and> region k c \<in># regions_of k bs
     | Inr _ \<Rightarrow> \<not> (2 ^ (k - 3) dvd c \<and> region k c \<in># regions_of k bs))"
proof -
  obtain op ph B where q: "queue_at k c op ph (regions_of k bs) q" "own_occupancy q = enc64 (count B)"
      "regions_of k bs \<subseteq># B" "\<forall>r. count B r < 256" "ph = op \<longleftrightarrow> (\<exists>b\<in>set bs. ended b = None)"
    using assms(1) by (auto simp: words_ok_def)
  let ?M = "regions_of k bs" and ?i = "slot_index (2 ^ k) (own_slot q)"
  have own: "own_slot q = mk_slot c op" "occupancy (inner q) = enc64 (count ?M)"
    using q(1) by (simp_all add: queue_at_def)
  have M: "\<forall>r. count ?M r < 256" using q(3,4) by (meson le_less_trans mset_subset_eq_count)
  have "unat ?i = c mod 2 ^ k" using assms(3) own(1) by (simp add: write_index_mk)
  then have marked: "own_occupancy q AND region_mask (2 ^ k) ?i \<noteq> 0 \<longleftrightarrow> region k c \<in># B"
    using occ64.is_free_mset [of k ?i B] assms(2,3) q(2,4) by (simp add: region_def)
  from region_check_result [OF q(1) assms(2,3) M marked [symmetric]] assms(4)
  have "(r, q') = (if 2 ^ (k - 3) dvd c \<and> region k c \<in># B
      then (if region k c \<in># ?M then Inl QueueFull else Inr (), q\<lparr>own_occupancy := occupancy (inner q)\<rparr>)
      else (Inr (), q))"
    by (simp only: current_write_index_eq)
  then have r: "r = (if 2 ^ (k - 3) dvd c \<and> region k c \<in># B \<and> region k c \<in># ?M then Inl QueueFull else Inr ())"
    "q' = (if 2 ^ (k - 3) dvd c \<and> region k c \<in># B then q\<lparr>own_occupancy := occupancy (inner q)\<rparr> else q)"
    by (auto split: if_splits)
  have "words_ok k c bs q'"
  proof (cases "2 ^ (k - 3) dvd c \<and> region k c \<in># B")
    case True
    then show ?thesis using q M own unfolding words_ok_def
      by (intro exI [of _ op] exI [of _ ph] exI [of _ ?M]) (simp add: r(2) queue_at_def)
  next
    case False
    then have "q' = q" unfolding r(2) by (rule if_not_P)
    then show ?thesis using assms(1) by simp
  qed
  then show ?thesis using r mset_subset_eqD [OF q(3)] by auto
qed

lemma inv_check_full:
  assumes "sys_inv k s" "6 \<le> k" "k < 32" "owner s = Idle"
    and "region_check (2 ^ k) (current_write_index (2 ^ k) (sys_queue s)) (sys_queue s) = (Inl QueueFull, q)"
  shows "sys_inv k (s\<lparr>sys_queue := q, owner := Parking waker\<rparr>)"
proof -
  have "words_ok k (length (log s)) (batches s) (sys_queue s)" using assms(1) by (simp add: sys_inv_def)
  from words_check [OF this assms(2,3,5)] assms(1,4) show ?thesis by (simp add: sys_inv_def owner_ok_def)
qed

text \<open>A check that succeeds means that the next task does not lap a running batch.\<close>

lemma inv_check_free:
  assumes "sys_inv k s" "6 \<le> k" "k < 32" "owner s = Idle"
    and "region_check (2 ^ k) (current_write_index (2 ^ k) (sys_queue s)) (sys_queue s) = (Inr (), q)"
  shows "sys_inv k (s\<lparr>sys_queue := q, owner := Checked t\<rparr>)"
proof -
  let ?c = "length (log s)"
  have q: "words_ok k ?c (batches s) q" "inner q = inner (sys_queue s)"
      "\<not> (2 ^ (k - 3) dvd ?c \<and> region k ?c \<in># regions_of k (batches s))"
    using words_check [OF _ assms(2,3,5)] assms(1) by (auto simp: sys_inv_def)
  have nc: "no_claimed (batches s)" using assms(1,4) by (simp add: sys_inv_def owner_ok_def)
  have "in_window k (Suc ?c) b" if b: "b \<in> set (batches s)" for b
    unfolding in_window_def
  proof
    assume run: "running b"
    have le: "?c \<le> region_start k (first b) + 2 ^ k" using assms(1) b run by (simp add: sys_inv_def in_window_def)
    have "first b < ?c" using assms(1) chain_bounds [of 0 ?c "batches s" b] b by (simp add: sys_inv_def)
    moreover have "region k (first b) \<in># regions_of k (batches s)"
      by (rule in_regions [OF b running_occupying [OF nc b run]])
    ultimately have "?c \<noteq> region_start k (first b) + 2 ^ k"
      using lap_iff [of k "first b" ?c] le assms(2) q(3) by auto
    then show "Suc ?c \<le> region_start k (first b) + 2 ^ k" using le by simp
  qed
  then show ?thesis using assms(1,4) q nc by (simp add: sys_inv_def owner_ok_def)
qed

lemma words_park: "words_ok k c bs q \<Longrightarrow> words_ok k c bs (pending_push dpush waker q)"
  by (simp add: words_ok_def queue_at_def pending_push_def)

lemma inv_park:
  assumes "sys_inv k s" "owner s = Parking waker"
  shows "sys_inv k (s\<lparr>sys_queue := pending_push dpush waker (sys_queue s), owner := Idle\<rparr>)"
proof -
  have "buffer (inner (pending_push dpush waker (sys_queue s))) = buffer (inner (sys_queue s))"
    by (simp add: pending_push_def)
  then show ?thesis using assms by (simp add: sys_inv_def owner_ok_def words_park)
qed

lemma sys_inv_words:
  assumes "sys_inv k s"
  obtains op ph B where
    "queue_at k (length (log s)) op ph (regions_of k (batches s)) (sys_queue s)"
    "own_occupancy (sys_queue s) = enc64 (count B)" "regions_of k (batches s) \<subseteq># B" "\<forall>r. count B r < 256"
    "ph = op \<longleftrightarrow> (\<exists>b\<in>set (batches s). ended b = None)"
  using assms by (auto simp: sys_inv_def words_ok_def)

lemma write_index_at:
  "queue_at k c op ph M q \<Longrightarrow> k < 32 \<Longrightarrow> unat (current_write_index (2 ^ k) q) = c mod 2 ^ k"
  by (simp add: queue_at_def current_write_index_eq write_index_mk)

text \<open>Within the window the cell of the next task is none of the cells of a running batch.\<close>

lemma window_cell_free:
  assumes "in_window k (Suc c) b" "running b" "first b \<le> i" "i < c"
  shows "i mod 2 ^ k \<noteq> c mod 2 ^ k"
proof -
  have "Suc c \<le> first b + 2 ^ k"
    using assms(1,2) block_start_le [of "2 ^ (k - 3)" "first b"] by (simp add: in_window_def)
  then show ?thesis
    using mod_window_distinct [of "Suc c" "first b" "2 ^ k" i c] assms(3,4) by auto
qed

lemma inv_write:
  assumes "sys_inv k s" "6 \<le> k" "k < 32" "owner s = Checked t"
    and "i = unat (current_write_index (2 ^ k) (sys_queue s))"
  shows "sys_inv k (s\<lparr>sys_queue := set_inner (sys_queue s)
       ((inner (sys_queue s))\<lparr>buffer := (buffer (inner (sys_queue s)))[i := Some t]\<rparr>),
     owner := Written t, failed := failed s \<or> length (buffer (inner (sys_queue s))) \<le> i\<rparr>)"
proof -
  let ?c = "length (log s)" and ?buf = "buffer (inner (sys_queue s))"
  obtain op ph B where q: "queue_at k ?c op ph (regions_of k (batches s)) (sys_queue s)"
      "own_occupancy (sys_queue s) = enc64 (count B)" "regions_of k (batches s) \<subseteq># B" "\<forall>r. count B r < 256"
      "ph = op \<longleftrightarrow> (\<exists>b\<in>set (batches s). ended b = None)"
    using assms(1) by (rule sys_inv_words)
  have i: "i = ?c mod 2 ^ k" using write_index_at [OF q(1) assms(3)] assms(5) by simp
  have len: "length ?buf = 2 ^ k" using q(1) by (simp add: queue_at_def)
  have "words_ok k ?c (batches s) (set_inner (sys_queue s) ((inner (sys_queue s))\<lparr>buffer := ?buf[i := Some t]\<rparr>))"
    unfolding words_ok_def using q by (intro exI [of _ op] exI [of _ ph] exI [of _ B]) (simp add: queue_at_def set_inner_def)
  moreover have "cells_ok (2 ^ k) (log s) (?buf[i := Some t]) b" if b: "b \<in> set (batches s)" for b
    unfolding cells_ok_def
  proof (intro impI ballI)
    fix j
    assume un: "untaken b" and jn: "j \<in> {next_task b..<batch_end ?c b}"
    then have j: "j \<in> {first b..<batch_end ?c b}" using next_task_ge [of b] by simp
    have "batch_end ?c b \<le> ?c" using assms(1) chain_bounds [OF _ b] by (auto simp: sys_inv_def)
    moreover have "in_window k (Suc ?c) b" using assms(1,4) b by (simp add: sys_inv_def owner_ok_def)
    ultimately have "j mod 2 ^ k \<noteq> i"
      using window_cell_free [of k ?c b j] untaken_running [OF un] j i by simp
    then show "?buf[i := Some t] ! (j mod 2 ^ k) = Some (log s ! j)"
      using assms(1) b un jn by (simp add: sys_inv_def cells_ok_def nth_upd_other)
  qed
  moreover have "\<not> 2 ^ k \<le> ?c mod (2::nat) ^ k" by (simp add: not_le)
  ultimately show ?thesis
    using assms(1,4) len i by (simp add: sys_inv_def owner_ok_def set_inner_def)
qed

text \<open>The entries of the log stay when it grows.\<close>

lemma stage_ok_append:
  assumes "stage_ok l b" "\<And>e. ended b = Some e \<Longrightarrow> e \<le> length l"
  shows "stage_ok (l @ [t]) b"
proof -
  have same: "map ((!) (l @ [t])) [first b..<e] = map ((!) l) [first b..<e]" if "e \<le> length l" for e
    using that by (auto simp: nth_append)
  have taken: "taken_ok l (first b) e ts \<Longrightarrow> taken_ok (l @ [t]) (first b) e ts" if "ended b = Some e" for e ts
    using same [OF assms(2) [OF that]] by (simp only: taken_ok_def)
  show ?thesis
  proof (cases "stage b")
    case (Iterating it ts)
    then obtain e where e: "ended b = Some e" "first b + length ts \<le> e"
        "it = iter64 (first b) e (first b + length ts)" "ts = map ((!) l) [first b..<first b + length ts]"
        "same_cycle (first b) e \<or> ts = []"
      using assms(1) by (auto simp: stage_ok_def)
    from e(4) have "ts = map ((!) (l @ [t])) [first b..<first b + length ts]"
      using same [of "first b + length ts"] assms(2) [OF e(1)] e(2) by simp
    then show ?thesis using Iterating e by (simp add: stage_ok_def)
  next
    case (Mapping ta ts)
    then obtain e where e: "ended b = Some e" "first b + length ts \<le> e" "ta = bounds64 (first b) e"
        "ts = map ((!) l) [first b..<first b + length ts]"
      using assms(1) by (auto simp: stage_ok_def)
    from e(4) have "ts = map ((!) (l @ [t])) [first b..<first b + length ts]"
      using same [of "first b + length ts"] assms(2) [OF e(1)] e(2) by simp
    then show ?thesis using Mapping e by (simp add: stage_ok_def)
  qed (use assms(1) taken in \<open>auto simp: stage_ok_def\<close>)
qed

lemma cells_ok_append:
  assumes "cells_ok n l buf b" "buf ! (length l mod n) = Some t" "batch_end (length l) b \<le> length l"
  shows "cells_ok n (l @ [t]) buf b"
  using assms unfolding cells_ok_def
  by (auto simp: nth_append batch_end_def less_Suc_eq split: option.splits)

lemma batches_append:
  assumes "sys_inv k s" "owner s = Written t" "b \<in> set (batches s)"
  shows "stage_ok (log s @ [t]) b \<and> cells_ok (2 ^ k) (log s @ [t]) (buffer (inner (sys_queue s))) b \<and>
    in_window k (Suc (length (log s))) b"
proof -
  have "batch_end (length (log s)) b \<le> length (log s)"
    using assms(1) chain_bounds [OF _ assms(3)] by (auto simp: sys_inv_def)
  moreover from this have "\<And>e. ended b = Some e \<Longrightarrow> e \<le> length (log s)" by (simp add: batch_end_def)
  ultimately show ?thesis
    using assms by (simp add: sys_inv_def owner_ok_def stage_ok_append cells_ok_append)
qed

lemma claim_at:
  assumes "queue_at k c op ph M q" "claim_slot q = (base, prev, q')"
  shows "base = mk_slot c ph" "(base XOR prev) AND PHASE = 0 \<longleftrightarrow> ph = op"
    "queue_at k (Suc c) ph ph M q'" "own_occupancy q' = own_occupancy q"
    "buffer (inner q') = buffer (inner q)"
  using assms claim_slot_mk [of q c op ph] slot64.same_phase_mk [of c ph c op] by (auto simp: queue_at_def)

lemma inv_claim_joins:
  assumes "sys_inv k s" "owner s = Written t" "claim_slot (sys_queue s) = (base, prev, q)"
    and "(base XOR prev) AND PHASE = 0"
  shows "sys_inv k (s\<lparr>sys_queue := q, owner := Idle, log := log s @ [t]\<rparr>)"
proof -
  let ?c = "length (log s)"
  obtain op ph B where w: "queue_at k ?c op ph (regions_of k (batches s)) (sys_queue s)"
      "own_occupancy (sys_queue s) = enc64 (count B)" "regions_of k (batches s) \<subseteq># B" "\<forall>r. count B r < 256"
      "ph = op \<longleftrightarrow> (\<exists>b\<in>set (batches s). ended b = None)"
    using assms(1) by (rule sys_inv_words)
  note q = claim_at [OF w(1) assms(3)]
  have op: "\<exists>b\<in>set (batches s). ended b = None" using q(2) assms(4) w(5) by simp
  have "words_ok k (Suc ?c) (batches s) q"
    unfolding words_ok_def using w q op by (intro exI [of _ ph] exI [of _ B]) simp
  moreover have "chain 0 (Suc ?c) (batches s)"
    using assms(1) op by (intro chain_extend) (simp_all add: sys_inv_def)
  ultimately show ?thesis
    using assms(1,2) batches_append [OF assms(1,2)] q(5) by (simp add: sys_inv_def owner_ok_def)
qed

lemma inv_claim_opens:
  assumes "sys_inv k s" "6 \<le> k" "k < 32" "owner s = Written t" "claim_slot (sys_queue s) = (base, prev, q)"
    and "(base XOR prev) AND PHASE \<noteq> 0"
  shows "sys_inv k (s\<lparr>sys_queue := q, owner := Occupying (current_write_index (2 ^ k) (sys_queue s)), log := log s @ [t],
     batches := batches s @ [\<lparr>first = length (log s), ended = None, stage = Claimed \<lparr>ur_base_slot = base\<rparr>\<rparr>]\<rparr>)"
proof -
  let ?c = "length (log s)" and ?b = "\<lparr>first = length (log s), ended = None, stage = Claimed \<lparr>ur_base_slot = base\<rparr>\<rparr>"
  obtain op ph B where w: "queue_at k ?c op ph (regions_of k (batches s)) (sys_queue s)"
      "own_occupancy (sys_queue s) = enc64 (count B)" "regions_of k (batches s) \<subseteq># B" "\<forall>r. count B r < 256"
      "ph = op \<longleftrightarrow> (\<exists>b\<in>set (batches s). ended b = None)"
    using assms(1) by (rule sys_inv_words)
  note q = claim_at [OF w(1) assms(5)]
  have closed: "\<forall>b\<in>set (batches s). ended b \<noteq> None" using q(2) assms(6) w(5) by simp
  have "regions_of k (batches s @ [?b]) = regions_of k (batches s)"
    by (simp add: regions_of_def occupying_def)
  then have "words_ok k (Suc ?c) (batches s @ [?b]) q"
    unfolding words_ok_def using w q by (intro exI [of _ ph] exI [of _ B]) simp
  moreover have "chain 0 (Suc ?c) (batches s @ [?b])"
    using assms(1) closed by (intro chain_append) (simp_all add: sys_inv_def)
  moreover have "stage_ok (log s @ [t]) ?b" using q(1) by (auto simp: stage_ok_def)
  moreover have "cells_ok (2 ^ k) (log s @ [t]) (buffer (inner q)) ?b"
    using assms(1,4)
    by (auto simp: cells_ok_def next_task_def batch_end_def sys_inv_def owner_ok_def q(5) less_Suc_eq)
  moreover have "in_window k (Suc ?c) ?b"
    using region_start_lap [of k ?c] assms(2) by (simp add: in_window_def)
  moreover have "owner_ok k (s\<lparr>sys_queue := q, owner := Occupying (current_write_index (2 ^ k) (sys_queue s)), log := log s @ [t],
     batches := batches s @ [?b]\<rparr>)"
    using assms(1,4) write_index_at [OF w(1) assms(3)] by (simp add: owner_ok_def sys_inv_def)
  ultimately show ?thesis
    using assms(1) batches_append [OF assms(1,4)] q(5) by (simp add: sys_inv_def)
qed

text \<open>An update of one batch and of the queue, in general.\<close>

lemma inv_update:
  assumes "sys_inv k s" "j < length (batches s)" "b = batches s ! j"
    and "words_ok k (length (log s)) ((batches s)[j := b']) q"
    and "first b' = first b" "batch_end (length (log s)) b' = batch_end (length (log s)) b"
    and "ended b' = None \<longrightarrow> ended b = None" "running b' \<longrightarrow> running b"
    and "stage_ok (log s) b'" "cells_ok (2 ^ k) (log s) (buffer (inner q)) b'"
    and "\<forall>i<length (batches s). i \<noteq> j \<longrightarrow> cells_ok (2 ^ k) (log s) (buffer (inner q)) (batches s ! i)"
    and "owner_ok k (s\<lparr>sys_queue := q, owner := ow, batches := (batches s)[j := b']\<rparr>)"
  shows "sys_inv k (s\<lparr>sys_queue := q, owner := ow, batches := (batches s)[j := b']\<rparr>)"
proof -
  let ?c = "length (log s)" and ?bs = "(batches s)[j := b']"
  have "b \<in> set (batches s)" using assms(2,3) by simp
  then have win: "in_window k ?c b'" using assms(1,5,8) by (simp add: sys_inv_def in_window_def)
  have "chain 0 ?c ?bs"
    using assms(1,2,3,5,6,7) by (intro chain_update) (simp_all add: sys_inv_def)
  moreover have "\<forall>x\<in>set ?bs. stage_ok (log s) x \<and> in_window k ?c x"
    by (rule all_upd) (use assms(1,9) win in \<open>auto simp: sys_inv_def\<close>)
  moreover have "\<forall>x\<in>set ?bs. cells_ok (2 ^ k) (log s) (buffer (inner q)) x"
    by (rule all_upd_nth) (use assms(10,11) in simp_all)
  ultimately show ?thesis using assms(1,4,12) by (simp add: sys_inv_def)
qed

lemma inv_occupy:
  assumes "sys_inv k s" "6 \<le> k" "k < 32" "owner s = Occupying i" "j < length (batches s)"
    and "stage (batches s ! j) = Claimed ur"
    and "within_limits k (s\<lparr>sys_queue := occupy_region (2 ^ k) i (sys_queue s), owner := Idle,
      batches := set_stage j (Unbounded ur) (batches s)\<rparr>)"
  shows "sys_inv k (s\<lparr>sys_queue := occupy_region (2 ^ k) i (sys_queue s), owner := Idle,
    batches := set_stage j (Unbounded ur) (batches s)\<rparr>)"
proof -
  let ?c = "length (log s)" and ?b = "batches s ! j" and ?q = "occupy_region (2 ^ k) i (sys_queue s)"
  let ?b' = "?b\<lparr>stage := Unbounded ur\<rparr>"
  obtain bs b0 ur0 where bs: "batches s = bs @ [b0]" "no_claimed bs" "unat i = first b0 mod 2 ^ k"
    using assms(1,4) by (auto simp: sys_inv_def owner_ok_def)
  have j: "j = length bs"
  proof (rule ccontr)
    assume "j \<noteq> length bs"
    then have "?b \<in> set bs" using assms(5) bs(1) by (simp add: nth_append)
    then show False using bs(2) assms(6) by (auto simp: no_claimed_def)
  qed
  then have b0: "?b = b0" using bs(1) by simp
  obtain op ph B where w: "queue_at k ?c op ph (regions_of k (batches s)) (sys_queue s)"
      "ph = op \<longleftrightarrow> (\<exists>b\<in>set (batches s). ended b = None)"
    using sys_inv_words [OF assms(1)] by metis
  have chain: "chain 0 ?c (batches s)" using assms(1) by (simp add: sys_inv_def)
  have b: "stage_ok (log s) ?b" "cells_ok (2 ^ k) (log s) (buffer (inner (sys_queue s))) ?b" "in_window k ?c ?b"
    using assms(1,5) by (simp_all add: sys_inv_def)
  have win: "\<forall>x\<in>set ((batches s)[j := ?b']). in_window k ?c x"
    by (rule all_upd) (use assms(1,6) b(3) in \<open>auto simp: sys_inv_def in_window_def running_def\<close>)
  have i: "unat i < 2 ^ k" "region k (unat i) = region k (first ?b)" using bs(3) b0 by (simp_all add: region_def)
  have M: "regions_of k ((batches s)[j := ?b']) = add_mset (region k (first ?b)) (regions_of k (batches s))"
    using assms(5,6) by (simp add: regions_of_update occupying_def)
  have count: "\<forall>r. count (regions_of k ((batches s)[j := ?b'])) r < 256"
  proof
    fix r
    have upd: "chain 0 ?c ((batches s)[j := ?b'])"
      using chain assms(5) by (intro chain_update) (simp_all add: batch_end_def)
    show "count (regions_of k ((batches s)[j := ?b'])) r < 256"
    proof (cases "k \<le> 10")
      case True
      have "count (regions_of k ((batches s)[j := ?b'])) r \<le> 2 ^ (k - 3)"
        using upd win assms(2) by (intro count_regions_le) simp_all
      also have "(2::nat) ^ (k - 3) \<le> 2 ^ 7" using True by (intro power_increasing) simp_all
      finally show ?thesis by simp
    next
      case False
      then have "r < 8 \<Longrightarrow> ?thesis" using assms(7) by (simp add: within_limits_def set_stage_def)
      moreover have "r \<notin># regions_of k ((batches s)[j := ?b'])" if "\<not> r < 8"
        using regions_less [of k "(batches s)[j := ?b']"] that assms(2) by fastforce
      ultimately show ?thesis by (cases "r < 8") (simp_all add: not_in_iff)
    qed
  qed
  have "occupancy (inner (sys_queue s)) + one_shifted (2 ^ k) i = enc64 (count (regions_of k ((batches s)[j := ?b'])))"
    using occ64.occupy_mset [of k i "regions_of k (batches s)"] assms(2,3) i w(1) M by (simp add: queue_at_def)
  then have q: "queue_at k ?c op ph (regions_of k ((batches s)[j := ?b'])) ?q"
      "own_occupancy ?q = enc64 (count (regions_of k ((batches s)[j := ?b'])))"
    using w(1) by (simp_all add: queue_at_def occupy_region_def Let_def)
  have "(\<exists>x\<in>set ((batches s)[j := ?b']). ended x = None) \<longleftrightarrow> (\<exists>x\<in>set (batches s). ended x = None)"
    using assms(5) by (rule open_update) simp
  then have words: "words_ok k ?c ((batches s)[j := ?b']) ?q"
    unfolding words_ok_def using q w(2) count by blast
  have buf: "buffer (inner ?q) = buffer (inner (sys_queue s))" by (simp add: occupy_region_def Let_def)
  have "no_claimed ((batches s)[j := ?b'])"
    using bs(2) unfolding bs(1) j by (auto simp: no_claimed_def)
  then have "owner_ok k (s\<lparr>sys_queue := ?q, owner := Idle, batches := (batches s)[j := ?b']\<rparr>)"
    by (simp add: owner_ok_def)
  moreover have "first ?b' = first ?b" "batch_end ?c ?b' = batch_end ?c ?b"
      "ended ?b' = None \<longrightarrow> ended ?b = None" "running ?b' \<longrightarrow> running ?b"
    using assms(6) by (simp_all add: batch_end_def running_def)
  moreover have "stage_ok (log s) ?b'" using b(1) assms(6) by (simp add: stage_ok_def)
  moreover have "cells_ok (2 ^ k) (log s) (buffer (inner ?q)) ?b'"
    using b(2) assms(6) by (simp add: cells_ok_def untaken_def next_task_def batch_end_def buf)
  moreover have "\<forall>x<length (batches s). x \<noteq> j \<longrightarrow> cells_ok (2 ^ k) (log s) (buffer (inner ?q)) (batches s ! x)"
    using assms(1) by (simp add: sys_inv_def buf)
  ultimately show ?thesis
    unfolding set_stage_def by (intro inv_update [OF assms(1,5) refl words])
qed

section \<open>Steps of the holders of batches keep the invariant\<close>

lemma inv_bound:
  assumes "sys_inv k s" "k < 32" "j < length (batches s)" "stage (batches s ! j) = Unbounded ur"
    and "into_bounded ur (inner (sys_queue s)) = (br, s')"
  shows "sys_inv k (s\<lparr>sys_queue := set_inner (sys_queue s) s',
    batches := (batches s)[j := (batches s ! j)\<lparr>stage := Bounded br, ended := Some (length (log s))\<rparr>]\<rparr>)"
proof -
  let ?c = "length (log s)" and ?b = "batches s ! j" and ?q = "set_inner (sys_queue s) s'"
  let ?b' = "?b\<lparr>stage := Bounded br, ended := Some ?c\<rparr>"
  obtain op ph B where w: "queue_at k ?c op ph (regions_of k (batches s)) (sys_queue s)"
      "own_occupancy (sys_queue s) = enc64 (count B)" "regions_of k (batches s) \<subseteq># B" "\<forall>r. count B r < 256"
      "ph = op \<longleftrightarrow> (\<exists>b\<in>set (batches s). ended b = None)"
    using assms(1) by (rule sys_inv_words)
  have chain: "chain 0 ?c (batches s)" using assms(1) by (simp add: sys_inv_def)
  have b: "stage_ok (log s) ?b" "cells_ok (2 ^ k) (log s) (buffer (inner (sys_queue s))) ?b"
    using assms(1,3) by (simp_all add: sys_inv_def)
  then obtain p where ur: "ur = \<lparr>ur_base_slot = mk_slot (first ?b) p\<rparr>" and open_j: "ended ?b = None"
    using assms(4) by (auto simp: stage_ok_def)
  have s': "br = bounds64 (first ?b) ?c" "s' = (inner (sys_queue s))\<lparr>slot := mk_slot ?c (\<not> ph)\<rparr>"
    using set_bounds_spec [of ur "first ?b" p "inner (sys_queue s)" ?c ph] assms(5) w(1) ur
    by (simp_all add: queue_at_def)
  have closed: "\<forall>x\<in>set ((batches s)[j := ?b']). ended x \<noteq> None"
    by (rule all_upd_nth) (use chain_open_unique [OF chain assms(3) _ open_j] in auto)
  have M: "regions_of k ((batches s)[j := ?b']) = regions_of k (batches s)"
    using assms(3,4) in_regions [of ?b "batches s" k] by (simp add: regions_of_update occupying_def)
  have "ph = op" using w(5) open_j assms(3) by (metis nth_mem)
  then have words: "words_ok k ?c ((batches s)[j := ?b']) ?q"
    unfolding words_ok_def M using w closed
    by (intro exI [of _ op] exI [of _ "\<not> ph"] exI [of _ B]) (auto simp: queue_at_def set_inner_def s'(2))
  have buf: "buffer (inner ?q) = buffer (inner (sys_queue s))" by (simp add: set_inner_def s'(2))
  have "owner_ok k (s\<lparr>sys_queue := ?q, batches := (batches s)[j := ?b']\<rparr>)"
    by (rule owner_ok_update)
      (use assms(1,3,4) buf in \<open>simp_all add: sys_inv_def running_def\<close>)
  then have "owner_ok k (s\<lparr>sys_queue := ?q, owner := owner s, batches := (batches s)[j := ?b']\<rparr>)" by simp
  moreover have "first ?b' = first ?b" "batch_end ?c ?b' = batch_end ?c ?b"
      "ended ?b' = None \<longrightarrow> ended ?b = None" "running ?b' \<longrightarrow> running ?b"
    using assms(4) open_j by (simp_all add: batch_end_def running_def)
  moreover have "stage_ok (log s) ?b'" using s'(1) by (simp add: stage_ok_def)
  moreover have "cells_ok (2 ^ k) (log s) (buffer (inner ?q)) ?b'"
    using b(2) assms(4) open_j by (simp add: cells_ok_def untaken_def next_task_def batch_end_def buf)
  moreover have "\<forall>x<length (batches s). x \<noteq> j \<longrightarrow> cells_ok (2 ^ k) (log s) (buffer (inner ?q)) (batches s ! x)"
    using assms(1) by (simp add: sys_inv_def buf)
  ultimately have "sys_inv k (s\<lparr>sys_queue := ?q, owner := owner s, batches := (batches s)[j := ?b']\<rparr>)"
    by (intro inv_update [OF assms(1,3) refl words])
  then show ?thesis by simp
qed

text \<open>A bounded batch finds the tasks it has left, in order.\<close>

lemma bounded_window:
  assumes "sys_inv k s" "b \<in> set (batches s)" "untaken b" "ended b = Some e"
  shows "first b < e" "e \<le> length (log s)" "e \<le> first b + 2 ^ k"
    "length (buffer (inner (sys_queue s))) = 2 ^ k"
    "window_live (2 ^ k) (next_task b) e (buffer (inner (sys_queue s)))"
    "map the (window (2 ^ k) (next_task b) e (buffer (inner (sys_queue s)))) = map ((!) (log s)) [next_task b..<e]"
proof -
  let ?buf = "buffer (inner (sys_queue s))"
  show lt: "first b < e" "e \<le> length (log s)"
    using assms(1,4) chain_bounds [OF _ assms(2)] by (auto simp: sys_inv_def batch_end_def)
  have "in_window k (length (log s)) b" using assms(1,2) by (simp add: sys_inv_def)
  then show "e \<le> first b + 2 ^ k"
    using untaken_running [OF assms(3)] lt(2) block_start_le [of "2 ^ (k - 3)" "first b"]
    by (simp add: in_window_def)
  have cells: "\<forall>i\<in>{next_task b..<e}. ?buf ! (i mod 2 ^ k) = Some (log s ! i)"
    using assms by (simp add: sys_inv_def cells_ok_def batch_end_def)
  then show "window_live (2 ^ k) (next_task b) e ?buf" by (simp add: window_live_def)
  show "map the (window (2 ^ k) (next_task b) e ?buf) = map ((!) (log s)) [next_task b..<e]"
    using cells by (simp add: window_def)
  show "length ?buf = 2 ^ k" using assms(1) by (auto simp: sys_inv_def words_ok_def queue_at_def)
qed

lemma bounded_end:
  assumes "sys_inv k s" "b \<in> set (batches s)" "stage b = Bounded br"
  obtains e where "ended b = Some e" "br = bounds64 (first b) e" "untaken b" "next_task b = first b"
proof -
  have "stage_ok (log s) b" using assms(1,2) by (simp add: sys_inv_def)
  with that assms(3) show ?thesis by (auto simp: stage_ok_def untaken_def next_task_def)
qed

text \<open>\<open>to_vec\<close> finds all tasks; the destructors do unless the counter wraps around inside the batch.\<close>

lemma bounded_takes:
  assumes "sys_inv k s" "k < 32" "b \<in> set (batches s)" "stage b = Bounded br" "ended b = Some e"
  shows "copy_out (2 ^ k) br (buffer (inner (sys_queue s))) = Inr (map ((!) (log s)) [first b..<e],
    clear_window (2 ^ k) (first b) e (buffer (inner (sys_queue s))))"
proof -
  have b: "br = bounds64 (first b) e" "untaken b" "next_task b = first b"
    using bounded_end [OF assms(1,3,4)] assms(5) by fastforce+
  note w = bounded_window [OF assms(1,3) b(2) assms(5), unfolded b(3)]
  show ?thesis using copied.consume_live [OF _ w(1,3,4,5)] assms(2) by (simp add: b(1) w(6))
qed

lemma bounded_drops:
  assumes "sys_inv k s" "k < 32" "b \<in> set (batches s)" "stage b = Bounded br" "ended b = Some e"
  shows "drop_cells (2 ^ k) (range_indices (range_start br) (range_end br)) (buffer (inner (sys_queue s))) =
    (if same_cycle (first b) e
     then Inr (map ((!) (log s)) [first b..<e], clear_window (2 ^ k) (first b) e (buffer (inner (sys_queue s))))
     else Inr ([], buffer (inner (sys_queue s))))"
proof -
  have b: "br = bounds64 (first b) e" "untaken b" "next_task b = first b"
    using bounded_end [OF assms(1,3,4)] assms(5) by fastforce+
  note w = bounded_window [OF assms(1,3) b(2) assms(5), unfolded b(3)]
  show ?thesis
  proof (cases "same_cycle (first b) e")
    case True
    then show ?thesis using dropped.consume_live [OF _ w(1,3,4,5)] assms(2) by (simp add: b(1) w(6))
  next
    case False
    have "(2::nat) ^ k \<le> 2 ^ 32" using assms(2) by (intro power_increasing) simp_all
    then have "e mod 2 ^ 32 \<le> first b mod 2 ^ 32"
      using wrapped_bounds [OF _ _ False] w(1,3) by linarith
    then show ?thesis using False by (simp add: b(1) range_indices_def)
  qed
qed

text \<open>An iterator gives out the next task until there is none left, or none at all after a wrap-around.\<close>

lemma iterating_next:
  assumes "sys_inv k s" "k < 32" "b \<in> set (batches s)" "stage b = Iterating it ts"
  obtains e where "ended b = Some e" "first b + length ts \<le> e" "it = iter64 (first b) e (first b + length ts)"
    "ts = map ((!) (log s)) [first b..<first b + length ts]" "same_cycle (first b) e \<or> ts = []"
    "iter_next (2 ^ k) it (buffer (inner (sys_queue s))) =
      (if same_cycle (first b) e \<and> first b + length ts < e
       then Inr (Some (log s ! (first b + length ts)), iter64 (first b) e (Suc (first b + length ts)),
         clear_window (2 ^ k) (first b + length ts) (Suc (first b + length ts)) (buffer (inner (sys_queue s))))
       else Inr (None, it, buffer (inner (sys_queue s))))"
proof -
  let ?buf = "buffer (inner (sys_queue s))" and ?n = "first b + length ts"
  have "stage_ok (log s) b" using assms(1,3) by (simp add: sys_inv_def)
  then obtain e where e: "ended b = Some e" "?n \<le> e" "it = iter64 (first b) e ?n"
      "ts = map ((!) (log s)) [first b..<?n]" "same_cycle (first b) e \<or> ts = []"
    using assms(4) by (auto simp: stage_ok_def)
  have un: "untaken b" "next_task b = ?n" using assms(4) by (simp_all add: untaken_def next_task_def)
  note w = bounded_window [OF assms(1,3) un(1) e(1), unfolded un(2)]
  have "iter_next (2 ^ k) it ?buf = (if same_cycle (first b) e \<and> ?n < e
      then Inr (Some (log s ! ?n), iter64 (first b) e (Suc ?n), clear_window (2 ^ k) ?n (Suc ?n) ?buf)
      else Inr (None, it, ?buf))"
  proof (cases "same_cycle (first b) e \<and> ?n < e")
    case True
    have "map the (window (2 ^ k) ?n e ?buf) ! 0 = map ((!) (log s)) [?n..<e] ! 0" by (simp only: w(6))
    then have "the (?buf ! (?n mod 2 ^ k)) = log s ! ?n" using True by (simp add: window_def)
    then show ?thesis
      using iter_next_64 [of k ?n e ?buf "first b"] same_cycle_between [of "first b" e ?n] True w assms(2)
      by (simp add: e(3) clear_window_Cons)
  next
    case False
    have "(2::nat) ^ k \<le> 2 ^ 32" using assms(2) by (intro power_increasing) simp_all
    then have "e mod 2 ^ 32 \<le> ?n mod 2 ^ 32"
      using wrapped_bounds [of "first b" e] w(1,3) e(2,5) False by (cases "?n < e") auto
    then show ?thesis using False by (simp add: e(3) iter_next_def word_less_nat_alt)
  qed
  with e that show ?thesis by blast
qed

text \<open>An assignment gives out the next task, whether or not the counter wraps around.\<close>

lemma mapping_next:
  assumes "sys_inv k s" "k < 32" "b \<in> set (batches s)" "stage b = Mapping ta ts"
  obtains e where "ended b = Some e" "first b + length ts \<le> e" "ta = bounds64 (first b) e"
    "ts = map ((!) (log s)) [first b..<first b + length ts]"
    "assignment_tasks (2 ^ k) ta = map (\<lambda>i. i mod 2 ^ k) [first b..<e]"
    "first b + length ts < e \<Longrightarrow>
      read_cell (assignment_tasks (2 ^ k) ta ! length ts) (buffer (inner (sys_queue s))) =
        Inr (log s ! (first b + length ts),
          clear_window (2 ^ k) (first b + length ts) (Suc (first b + length ts)) (buffer (inner (sys_queue s))))"
proof -
  let ?buf = "buffer (inner (sys_queue s))" and ?n = "first b + length ts"
  have "stage_ok (log s) b" using assms(1,3) by (simp add: sys_inv_def)
  then obtain e where e: "ended b = Some e" "?n \<le> e" "ta = bounds64 (first b) e"
      "ts = map ((!) (log s)) [first b..<?n]"
    using assms(4) by (auto simp: stage_ok_def)
  have un: "untaken b" "next_task b = ?n" using assms(4) by (simp_all add: untaken_def next_task_def)
  note w = bounded_window [OF assms(1,3) un(1) e(1), unfolded un(2)]
  have cells: "assignment_tasks (2 ^ k) ta = map (\<lambda>i. i mod 2 ^ k) [first b..<e]"
    using slice_indices_64 [of k "first b" e] w(1,3) assms(2) by (simp add: assignment_tasks_def e(3))
  have "read_cell (assignment_tasks (2 ^ k) ta ! length ts) ?buf =
      Inr (log s ! ?n, clear_window (2 ^ k) ?n (Suc ?n) ?buf)" if lt: "?n < e"
  proof -
    have "map the (window (2 ^ k) ?n e ?buf) ! 0 = map ((!) (log s)) [?n..<e] ! 0" by (simp only: w(6))
    then have "the (?buf ! (?n mod 2 ^ k)) = log s ! ?n" using lt by (simp add: window_def)
    moreover have "?buf ! (?n mod 2 ^ k) \<noteq> None" using w(5) lt by (simp add: window_live_def)
    moreover have "[first b..<e] ! length ts = ?n" using lt by (intro nth_upt)
    ultimately show ?thesis
      using read_cell_live [of "?n mod 2 ^ k" ?buf] w(4) lt by (simp add: cells clear_window_Cons)
  qed
  with e cells that show ?thesis by blast
qed

text \<open>
  Taking tasks out of a bounded batch: the cells of the tasks \<open>n\<close> to \<open>m - 1\<close> are cleared, and its
  stage becomes \<open>st\<close>.
\<close>

lemma clear_window_keep:
  assumes "length buf = n" "i \<notin> {a..<e}" "lo \<le> i" "lo \<le> a" "i < hi" "e \<le> hi" "hi \<le> lo + n"
  shows "clear_window n a e buf ! (i mod n) = buf ! (i mod n)"
proof -
  have "x mod n \<noteq> i mod n" if "x \<in> {a..<e}" for x
    using mod_window_distinct [of hi lo n x i] that assms(2-7) by auto
  moreover have "0 < n" using assms(3,5,7) by linarith
  ultimately show ?thesis using assms(1) by (auto simp: nth_clear_window)
qed

lemma inv_clear:
  assumes "sys_inv k s" "j < length (batches s)" "b = batches s ! j" "ended b = Some e"
    and "occupying b" "occupying (b\<lparr>stage := st\<rparr>)" "stage_ok (log s) (b\<lparr>stage := st\<rparr>)"
    and "first b \<le> n" "n \<le> m" "m \<le> e"
    and "untaken (b\<lparr>stage := st\<rparr>) \<Longrightarrow> untaken b \<and> next_task b = n \<and> next_task (b\<lparr>stage := st\<rparr>) = m"
    and "buf = clear_window (2 ^ k) n m (buffer (inner (sys_queue s)))"
  shows "sys_inv k (s\<lparr>sys_queue := set_inner (sys_queue s) ((inner (sys_queue s))\<lparr>buffer := buf\<rparr>),
    batches := set_stage j st (batches s)\<rparr>)"
proof -
  let ?c = "length (log s)" and ?buf = "buffer (inner (sys_queue s))"
  let ?q = "set_inner (sys_queue s) ((inner (sys_queue s))\<lparr>buffer := buf\<rparr>)"
  let ?b' = "b\<lparr>stage := st\<rparr>"
  have mem: "b \<in> set (batches s)" using assms(2,3) by simp
  have chain: "chain 0 ?c (batches s)" using assms(1) by (simp add: sys_inv_def)
  have ec: "e \<le> ?c" using chain_bounds [OF chain mem] assms(4) by (simp add: batch_end_def)
  have len: "length ?buf = 2 ^ k" using assms(1) by (auto simp: sys_inv_def words_ok_def queue_at_def)
  note run = occupying_running [OF assms(5)]
  have win: "?c \<le> first x + 2 ^ k" if "x \<in> set (batches s)" "running x" for x
    using assms(1) that block_start_le [of "2 ^ (k - 3)" "first x"]
    by (force simp: sys_inv_def in_window_def)
  have others: "cells_ok (2 ^ k) (log s) (buffer (inner ?q)) (batches s ! x)" if x: "x < length (batches s)" "x \<noteq> j" for x
    unfolding cells_ok_def
  proof (intro impI ballI)
    fix i
    let ?x = "batches s ! x"
    assume un: "untaken ?x" and ix: "i \<in> {next_task ?x..<batch_end ?c ?x}"
    then have i: "i \<in> {first ?x..<batch_end ?c ?x}" using next_task_ge [of ?x] by simp
    have bx: "?x \<in> set (batches s)" using x by simp
    have out: "i \<notin> {n..<m}"
      using chain_disjoint [OF chain, of x j] chain_disjoint [OF chain, of j x] x assms(2-4,8-10) i
      by (cases "x < j") (auto simp: batch_end_def)
    have "i < ?c" using chain_bounds [OF chain bx] i by simp
    moreover have "?c \<le> min (first ?x) (first b) + 2 ^ k"
      using win [OF bx untaken_running [OF un]] win [OF mem run] by (simp add: min_def)
    ultimately have "buf ! (i mod 2 ^ k) = ?buf ! (i mod 2 ^ k)"
      unfolding assms(12)
      using clear_window_keep [OF len out, of "min (first ?x) (first b)" ?c] i assms(8-10) ec by (simp add: min_le_iff_disj)
    then show "buffer (inner ?q) ! (i mod 2 ^ k) = Some (log s ! i)"
      using assms(1) bx un ix by (simp add: set_inner_def sys_inv_def cells_ok_def)
  qed
  have "\<forall>t. owner s = Written t \<longrightarrow>
      buffer (inner ?q) ! (?c mod 2 ^ k) = ?buf ! (?c mod 2 ^ k)"
  proof (intro allI impI)
    fix t
    assume "owner s = Written t"
    then have "in_window k (Suc ?c) b" using assms(1) mem by (simp add: sys_inv_def owner_ok_def)
    then have "Suc ?c \<le> first b + 2 ^ k"
      using run block_start_le [of "2 ^ (k - 3)" "first b"] by (simp add: in_window_def)
    then show "buffer (inner ?q) ! (?c mod 2 ^ k) = ?buf ! (?c mod 2 ^ k)"
      using clear_window_keep [OF len, of ?c n m "first b" "Suc ?c"] assms(8-10,12) ec by (simp add: set_inner_def)
  qed
  then have "owner_ok k (s\<lparr>sys_queue := ?q, batches := (batches s)[j := ?b']\<rparr>)"
    using assms(1-3,5,6) occupying_running [OF assms(6)] run
    by (intro owner_ok_update) (auto simp: sys_inv_def occupying_def split: stage.splits)
  then have "owner_ok k (s\<lparr>sys_queue := ?q, owner := owner s, batches := (batches s)[j := ?b']\<rparr>)" by simp
  moreover have "words_ok k ?c ((batches s)[j := ?b']) ?q"
  proof -
    have "regions_of k ((batches s)[j := ?b']) = regions_of k (batches s)"
      using assms(2,3,5,6) in_regions [OF mem assms(5), of k] by (simp add: regions_of_update)
    moreover have "(\<exists>x\<in>set ((batches s)[j := ?b']). ended x = None) \<longleftrightarrow> (\<exists>x\<in>set (batches s). ended x = None)"
      using assms(2) by (rule open_update) (simp add: assms(3))
    ultimately show ?thesis
      using assms(1,12) by (simp add: sys_inv_def words_ok_def queue_at_def set_inner_def)
  qed
  moreover have "first ?b' = first b" "batch_end ?c ?b' = batch_end ?c b"
      "ended ?b' = None \<longrightarrow> ended b = None" "running ?b' \<longrightarrow> running b"
    using run by (simp_all add: batch_end_def)
  moreover have "cells_ok (2 ^ k) (log s) (buffer (inner ?q)) ?b'"
    unfolding cells_ok_def
  proof (intro impI ballI)
    fix i
    assume un': "untaken ?b'" and "i \<in> {next_task ?b'..<batch_end ?c ?b'}"
    with assms(11) have un: "untaken b" "next_task b = n" and i: "i \<in> {m..<e}"
      using assms(4) by (auto simp: batch_end_def)
    have "buf ! (i mod 2 ^ k) = ?buf ! (i mod 2 ^ k)"
      using clear_window_keep [OF len, of i n m "first b" ?c] win [OF mem run] i assms(8-10,12) ec by simp
    then show "buffer (inner ?q) ! (i mod 2 ^ k) = Some (log s ! i)"
      using assms(1,4,9) mem un i by (simp add: set_inner_def sys_inv_def cells_ok_def batch_end_def)
  qed
  ultimately have "sys_inv k (s\<lparr>sys_queue := ?q, owner := owner s, batches := (batches s)[j := ?b']\<rparr>)"
    using others assms(7) by (intro inv_update [OF assms(1-3)]) auto
  then show ?thesis by (simp add: set_stage_def assms(3))
qed

lemma set_inner_same [simp]: "set_inner q (inner q) = q"
  by (simp add: set_inner_def)

text \<open>The steps in which a batch is taken over, read or dropped.\<close>

lemma inv_take:
  assumes "sys_inv k s" "k < 32" "j < length (batches s)" "stage (batches s ! j) = Bounded br"
    and "copy_out (2 ^ k) br (buffer (inner (sys_queue s))) = Inr (ts, buf)"
  shows "sys_inv k (s\<lparr>sys_queue := set_inner (sys_queue s) ((inner (sys_queue s))\<lparr>buffer := buf\<rparr>),
    batches := set_stage j (Consumed br ts) (batches s)\<rparr>)"
proof -
  let ?b = "batches s ! j"
  have mem: "?b \<in> set (batches s)" using assms(3) by simp
  obtain e where e: "ended ?b = Some e" "br = bounds64 (first ?b) e" "untaken ?b"
    using bounded_end [OF assms(1) mem assms(4)] by metis
  show ?thesis
    by (rule inv_clear [OF assms(1,3) refl e(1), of _ "first ?b" e])
      (use e assms(4,5) bounded_takes [OF assms(1,2) mem assms(4) e(1)] bounded_window(1) [OF assms(1) mem e(3,1)] in
        \<open>auto simp: occupying_def stage_ok_def taken_ok_def untaken_def\<close>)
qed

lemma inv_drop_range:
  assumes "sys_inv k s" "k < 32" "j < length (batches s)" "stage (batches s ! j) = Bounded br"
    and "drop_cells (2 ^ k) (range_indices (range_start br) (range_end br)) (buffer (inner (sys_queue s))) = Inr (ts, buf)"
  shows "sys_inv k (s\<lparr>sys_queue := set_inner (sys_queue s) ((inner (sys_queue s))\<lparr>buffer := buf\<rparr>),
    batches := set_stage j (Consumed br ts) (batches s)\<rparr>)"
proof -
  let ?b = "batches s ! j"
  have mem: "?b \<in> set (batches s)" using assms(3) by simp
  obtain e where e: "ended ?b = Some e" "br = bounds64 (first ?b) e" "untaken ?b"
    using bounded_end [OF assms(1) mem assms(4)] by metis
  show ?thesis
    by (rule inv_clear [OF assms(1,3) refl e(1), of _ "first ?b" "if same_cycle (first ?b) e then e else first ?b"])
      (use e assms(4,5) bounded_drops [OF assms(1,2) mem assms(4) e(1)] bounded_window(1) [OF assms(1) mem e(3,1)] in
        \<open>auto simp: occupying_def stage_ok_def taken_ok_def untaken_def split: if_splits\<close>)
qed

lemma inv_start_iter:
  assumes "sys_inv k s" "j < length (batches s)" "stage (batches s ! j) = Bounded br"
  shows "sys_inv k (s\<lparr>batches := set_stage j (Iterating (into_iter br) []) (batches s)\<rparr>)"
proof -
  let ?b = "batches s ! j"
  have mem: "?b \<in> set (batches s)" using assms(2) by simp
  obtain e where e: "ended ?b = Some e" "br = bounds64 (first ?b) e" "untaken ?b" "next_task ?b = first ?b"
    using bounded_end [OF assms(1) mem assms(3)] by metis
  have "sys_inv k (s\<lparr>sys_queue := set_inner (sys_queue s)
      ((inner (sys_queue s))\<lparr>buffer := buffer (inner (sys_queue s))\<rparr>),
    batches := set_stage j (Iterating (into_iter br) []) (batches s)\<rparr>)"
    by (rule inv_clear [OF assms(1,2) refl e(1), of _ "first ?b" "first ?b"])
      (use e assms(3) bounded_window(1) [OF assms(1) mem e(3,1)] in
        \<open>auto simp: occupying_def stage_ok_def into_iter_64 next_task_def\<close>)
  then show ?thesis by simp
qed

lemma inv_iterate:
  assumes "sys_inv k s" "k < 32" "j < length (batches s)" "stage (batches s ! j) = Iterating it ts"
    and "iter_next (2 ^ k) it (buffer (inner (sys_queue s))) = Inr (Some t, it', buf)"
  shows "sys_inv k (s\<lparr>sys_queue := set_inner (sys_queue s) ((inner (sys_queue s))\<lparr>buffer := buf\<rparr>),
    batches := set_stage j (Iterating it' (ts @ [t])) (batches s)\<rparr>)"
proof -
  let ?b = "batches s ! j"
  let ?n = "first ?b + length ts"
  have mem: "?b \<in> set (batches s)" using assms(3) by simp
  obtain e where e: "ended ?b = Some e" "?n \<le> e" "it = iter64 (first ?b) e ?n"
      "ts = map ((!) (log s)) [first ?b..<?n]"
    and next_: "iter_next (2 ^ k) it (buffer (inner (sys_queue s))) =
      (if same_cycle (first ?b) e \<and> ?n < e
       then Inr (Some (log s ! ?n), iter64 (first ?b) e (Suc ?n),
         clear_window (2 ^ k) ?n (Suc ?n) (buffer (inner (sys_queue s))))
       else Inr (None, it, buffer (inner (sys_queue s))))"
    using iterating_next [OF assms(1,2) mem assms(4)] by metis
  have n: "same_cycle (first ?b) e" "?n < e" "t = log s ! ?n" "it' = iter64 (first ?b) e (Suc ?n)"
      "buf = clear_window (2 ^ k) ?n (Suc ?n) (buffer (inner (sys_queue s)))"
    using next_ assms(5) by (auto split: if_splits)
  have "ts @ [t] = map ((!) (log s)) [first ?b..<Suc ?n]" by (subst e(4)) (simp add: n(3))
  then show ?thesis
    by (intro inv_clear [OF assms(1,3) refl e(1), of _ ?n "Suc ?n"])
      (use e(1) n assms(4) in \<open>auto simp: occupying_def stage_ok_def untaken_def next_task_def\<close>)
qed

lemma inv_start_map:
  assumes "sys_inv k s" "j < length (batches s)" "stage (batches s ! j) = Bounded br"
  shows "sys_inv k (s\<lparr>batches := set_stage j (Mapping br []) (batches s)\<rparr>)"
proof -
  let ?b = "batches s ! j"
  have mem: "?b \<in> set (batches s)" using assms(2) by simp
  obtain e where e: "ended ?b = Some e" "br = bounds64 (first ?b) e" "untaken ?b" "next_task ?b = first ?b"
    using bounded_end [OF assms(1) mem assms(3)] by metis
  have "sys_inv k (s\<lparr>sys_queue := set_inner (sys_queue s)
      ((inner (sys_queue s))\<lparr>buffer := buffer (inner (sys_queue s))\<rparr>),
    batches := set_stage j (Mapping br []) (batches s)\<rparr>)"
    by (rule inv_clear [OF assms(1,2) refl e(1), of _ "first ?b" "first ?b"])
      (use e assms(3) bounded_window(1) [OF assms(1) mem e(3,1)] in
        \<open>auto simp: occupying_def stage_ok_def next_task_def\<close>)
  then show ?thesis by simp
qed

lemma inv_map_next:
  assumes "sys_inv k s" "k < 32" "j < length (batches s)" "stage (batches s ! j) = Mapping ta ts"
    and "length ts < length (assignment_tasks (2 ^ k) ta)"
    and "read_cell (assignment_tasks (2 ^ k) ta ! length ts) (buffer (inner (sys_queue s))) = Inr (t, buf)"
  shows "sys_inv k (s\<lparr>sys_queue := set_inner (sys_queue s) ((inner (sys_queue s))\<lparr>buffer := buf\<rparr>),
    batches := set_stage j (Mapping ta (ts @ [t])) (batches s)\<rparr>)"
proof -
  let ?b = "batches s ! j"
  let ?n = "first ?b + length ts"
  have mem: "?b \<in> set (batches s)" using assms(3) by simp
  obtain e where e: "ended ?b = Some e" "?n \<le> e" "ta = bounds64 (first ?b) e"
      "ts = map ((!) (log s)) [first ?b..<?n]"
      "assignment_tasks (2 ^ k) ta = map (\<lambda>i. i mod 2 ^ k) [first ?b..<e]"
    and next_: "?n < e \<Longrightarrow>
      read_cell (assignment_tasks (2 ^ k) ta ! length ts) (buffer (inner (sys_queue s))) =
        Inr (log s ! ?n, clear_window (2 ^ k) ?n (Suc ?n) (buffer (inner (sys_queue s))))"
    using mapping_next [OF assms(1,2) mem assms(4)] by metis
  have n: "?n < e" using assms(5) e(5) by simp
  then have t: "t = log s ! ?n" "buf = clear_window (2 ^ k) ?n (Suc ?n) (buffer (inner (sys_queue s)))"
    using next_ assms(6) by auto
  have "ts @ [t] = map ((!) (log s)) [first ?b..<Suc ?n]" by (subst e(4)) (simp add: t(1))
  then show ?thesis
    by (intro inv_clear [OF assms(1,3) refl e(1), of _ ?n "Suc ?n"])
      (use e(1,3) n t(2) assms(4) in \<open>auto simp: occupying_def stage_ok_def untaken_def next_task_def\<close>)
qed

lemma deoccupy_frame:
  "deoccupy_region steal N i s = Inr (w, s') \<Longrightarrow>
    occupancy s' = occupancy s - one_shifted N i \<and> slot s' = slot s \<and> buffer s' = buffer s"
  by (auto simp: deoccupy_region_def Let_def split: if_splits option.splits)

lemma inv_release:
  assumes "sys_inv k s" "6 \<le> k" "k < 32" "j < length (batches s)" "occupying (batches s ! j)"
    and "ended (batches s ! j) = Some e" "taken_ok (log s) (first (batches s ! j)) e ts"
    and "deoccupy_region steal (2 ^ k) (range_start (bounds64 (first (batches s ! j)) e) AND (2 ^ k - 1))
      (inner (sys_queue s)) = Inr (woken, s')"
  shows "sys_inv k (s\<lparr>sys_queue := set_inner (sys_queue s) s', batches := set_stage j (Released ts) (batches s)\<rparr>)"
proof -
  let ?c = "length (log s)" and ?b = "batches s ! j" and ?q = "set_inner (sys_queue s) s'"
  let ?b' = "?b\<lparr>stage := Released ts\<rparr>" and ?i = "range_start (bounds64 (first (batches s ! j)) e) AND (2 ^ k - 1)"
  have mem: "?b \<in> set (batches s)" using assms(4) by simp
  have s': "occupancy s' = occupancy (inner (sys_queue s)) - one_shifted (2 ^ k) ?i"
      "slot s' = slot (inner (sys_queue s))" "buffer s' = buffer (inner (sys_queue s))"
    using deoccupy_frame [OF assms(8)] by simp_all
  obtain op ph B where w: "queue_at k ?c op ph (regions_of k (batches s)) (sys_queue s)"
      "own_occupancy (sys_queue s) = enc64 (count B)" "regions_of k (batches s) \<subseteq># B" "\<forall>r. count B r < 256"
      "ph = op \<longleftrightarrow> (\<exists>b\<in>set (batches s). ended b = None)"
    using assms(1) by (rule sys_inv_words)
  have i: "unat ?i = first ?b mod 2 ^ k" using assms(3) by (simp add: bounds64_masked)
  then have r: "region k (unat ?i) = region k (first ?b)" by (simp add: region_def)
  note occ = assms(5)
  have M: "regions_of k ((batches s)[j := ?b']) = regions_of k (batches s) - {#region k (first ?b)#}"
    using assms(4) occ by (simp add: regions_of_update occupying_def [of "?b'"])
  have "occupancy s' = enc64 (count (regions_of k ((batches s)[j := ?b'])))"
    using occ64.deoccupy_mset [of k ?i "regions_of k (batches s)"] in_regions [OF mem occ, of k] assms(2,3) i r w(1)
    by (simp add: s'(1) M queue_at_def)
  then have "queue_at k ?c op ph (regions_of k ((batches s)[j := ?b'])) ?q"
    using w(1) s'(2,3) by (simp add: queue_at_def set_inner_def)
  moreover have "own_occupancy ?q = enc64 (count B)" using w(2) by (simp add: set_inner_def)
  moreover have "regions_of k ((batches s)[j := ?b']) \<subseteq># B"
    unfolding M using w(3) by (rule subset_mset.order_trans [OF diff_subset_eq_self])
  moreover have "(\<exists>x\<in>set ((batches s)[j := ?b']). ended x = None) \<longleftrightarrow> (\<exists>x\<in>set (batches s). ended x = None)"
    using assms(4) by (rule open_update) simp
  ultimately have words: "words_ok k ?c ((batches s)[j := ?b']) ?q"
    unfolding words_ok_def using w(4,5) by blast
  have buf: "buffer (inner ?q) = buffer (inner (sys_queue s))" by (simp add: set_inner_def s'(3))
  have "owner_ok k (s\<lparr>sys_queue := ?q, batches := (batches s)[j := ?b']\<rparr>)"
    by (rule owner_ok_update) (use assms(1,4,5) buf in \<open>auto simp: sys_inv_def running_def occupying_def\<close>)
  then have "owner_ok k (s\<lparr>sys_queue := ?q, owner := owner s, batches := (batches s)[j := ?b']\<rparr>)" by simp
  moreover have "first ?b' = first ?b" "batch_end ?c ?b' = batch_end ?c ?b"
      "ended ?b' = None \<longrightarrow> ended ?b = None" "running ?b' \<longrightarrow> running ?b"
    by (simp_all add: batch_end_def running_def)
  moreover have "stage_ok (log s) ?b'" using assms(6,7) by (simp add: stage_ok_def)
  moreover have "cells_ok (2 ^ k) (log s) (buffer (inner ?q)) ?b'" by (simp add: cells_ok_def untaken_def)
  moreover have "\<forall>x<length (batches s). x \<noteq> j \<longrightarrow> cells_ok (2 ^ k) (log s) (buffer (inner ?q)) (batches s ! x)"
    using assms(1) by (simp add: sys_inv_def buf)
  ultimately have "sys_inv k (s\<lparr>sys_queue := ?q, owner := owner s, batches := (batches s)[j := ?b']\<rparr>)"
    by (intro inv_update [OF assms(1,4) refl words])
  then show ?thesis by (simp add: set_stage_def)
qed

lemma consumed_end:
  assumes "sys_inv k s" "b \<in> set (batches s)" "stage b = Consumed br ts"
  obtains e where "ended b = Some e" "br = bounds64 (first b) e" "taken_ok (log s) (first b) e ts" "occupying b"
proof -
  have "stage_ok (log s) b" using assms(1,2) by (simp add: sys_inv_def)
  with that assms(3) show ?thesis by (auto simp: stage_ok_def occupying_def)
qed

lemma inv_release_range:
  assumes "sys_inv k s" "6 \<le> k" "k < 32" "j < length (batches s)" "stage (batches s ! j) = Consumed br ts"
    and "bounded_deoccupy_buffer steal (2 ^ k) br (inner (sys_queue s)) = Inr (woken, s')"
  shows "sys_inv k (s\<lparr>sys_queue := set_inner (sys_queue s) s', batches := set_stage j (Released ts) (batches s)\<rparr>)"
proof -
  obtain e where e: "ended (batches s ! j) = Some e" "br = bounds64 (first (batches s ! j)) e"
      "taken_ok (log s) (first (batches s ! j)) e ts" "occupying (batches s ! j)"
    using consumed_end [OF assms(1) _ assms(5)] assms(4) by auto
  show ?thesis
    using inv_release [OF assms(1-4) e(4,1,3)] assms(6) by (simp add: bounded_deoccupy_buffer_def e(2))
qed

text \<open>An iterator at its end gave out everything, or has nothing after a wrap-around.\<close>

lemma iterating_done:
  assumes "sys_inv k s" "k < 32" "b \<in> set (batches s)" "stage b = Iterating it ts"
    and "iter_next (2 ^ k) it (buffer (inner (sys_queue s))) = Inr (None, it', buf)"
  obtains e where "ended b = Some e" "it' = it" "iter_range it = bounds64 (first b) e"
    "buf = buffer (inner (sys_queue s))" "taken_ok (log s) (first b) e ts" "occupying b"
proof -
  let ?n = "first b + length ts"
  obtain e where e: "ended b = Some e" "?n \<le> e" "it = iter64 (first b) e ?n"
      "ts = map ((!) (log s)) [first b..<?n]" "same_cycle (first b) e \<or> ts = []"
    and "iter_next (2 ^ k) it (buffer (inner (sys_queue s))) =
      (if same_cycle (first b) e \<and> ?n < e
       then Inr (Some (log s ! ?n), iter64 (first b) e (Suc ?n),
         clear_window (2 ^ k) ?n (Suc ?n) (buffer (inner (sys_queue s))))
       else Inr (None, it, buffer (inner (sys_queue s))))"
    using iterating_next [OF assms(1-4)] by metis
  then have n: "\<not> (same_cycle (first b) e \<and> ?n < e)" "it' = it" "buf = buffer (inner (sys_queue s))"
    using assms(5) by (auto split: if_splits)
  then have "taken_ok (log s) (first b) e ts" using e(2,4,5) by (auto simp: taken_ok_def)
  then show ?thesis using that e n assms(4) by (simp add: occupying_def)
qed

lemma inv_release_iter:
  assumes "sys_inv k s" "6 \<le> k" "k < 32" "j < length (batches s)" "stage (batches s ! j) = Iterating it ts"
    and "iter_next (2 ^ k) it (buffer (inner (sys_queue s))) = Inr (None, it', buf)"
    and "iter_deoccupy_buffer steal (2 ^ k) it' ((inner (sys_queue s))\<lparr>buffer := buf\<rparr>) = Inr (woken, s')"
  shows "sys_inv k (s\<lparr>sys_queue := set_inner (sys_queue s) s', batches := set_stage j (Released ts) (batches s)\<rparr>)"
proof -
  have mem: "batches s ! j \<in> set (batches s)" using assms(4) by simp
  obtain e where e: "ended (batches s ! j) = Some e" "it' = it" "iter_range it = bounds64 (first (batches s ! j)) e"
      "buf = buffer (inner (sys_queue s))" "taken_ok (log s) (first (batches s ! j)) e ts" "occupying (batches s ! j)"
    using iterating_done [OF assms(1,3) mem assms(5,6)] by metis
  show ?thesis
    using inv_release [OF assms(1-4) e(6,1,5)] assms(7) by (simp add: iter_deoccupy_buffer_def e(2-4))
qed

lemma mapping_done:
  assumes "sys_inv k s" "k < 32" "b \<in> set (batches s)" "stage b = Mapping ta ts"
    and "length ts = length (assignment_tasks (2 ^ k) ta)"
  obtains e where "ended b = Some e" "ta = bounds64 (first b) e" "taken_ok (log s) (first b) e ts" "occupying b"
proof -
  obtain e where e: "ended b = Some e" "first b + length ts \<le> e" "ta = bounds64 (first b) e"
      "ts = map ((!) (log s)) [first b..<first b + length ts]"
      "assignment_tasks (2 ^ k) ta = map (\<lambda>i. i mod 2 ^ k) [first b..<e]"
    using mapping_next [OF assms(1-4)] by metis
  moreover have "first b + length ts = e" using assms(5) e(2,5) by simp
  ultimately show ?thesis using that assms(4) by (simp add: occupying_def taken_ok_def)
qed

lemma inv_release_map:
  assumes "sys_inv k s" "6 \<le> k" "k < 32" "j < length (batches s)" "stage (batches s ! j) = Mapping ta ts"
    and "length ts = length (assignment_tasks (2 ^ k) ta)"
    and "assignment_deoccupy_buffer steal (2 ^ k) ta (inner (sys_queue s)) = Inr (woken, s')"
  shows "sys_inv k (s\<lparr>sys_queue := set_inner (sys_queue s) s', batches := set_stage j (Released ts) (batches s)\<rparr>)"
proof -
  have mem: "batches s ! j \<in> set (batches s)" using assms(4) by simp
  obtain e where e: "ended (batches s ! j) = Some e" "ta = bounds64 (first (batches s ! j)) e"
      "taken_ok (log s) (first (batches s ! j)) e ts" "occupying (batches s ! j)"
    using mapping_done [OF assms(1,3) mem assms(5,6)] by metis
  show ?thesis
    using inv_release [OF assms(1-4) e(4,1,3)] assms(7) by (simp add: assignment_deoccupy_buffer_def e(2))
qed

section \<open>Every reachable state\<close>

lemma sys_inv_step:
  assumes "sys_step dpush steal (2 ^ k) s s'" "sys_inv k s" "6 \<le> k" "k < 32" "within_limits k s'"
  shows "sys_inv k s'"
proof -
  note k = assms(4) and inv = assms(2)
  from assms(1) show ?thesis
  proof (cases rule: sys_step.cases)
    case (check_free q t)
    then show ?thesis using inv_check_free [OF inv assms(3) k] by blast
  next
    case (check_full q waker)
    then show ?thesis using inv_check_full [OF inv assms(3) k] by blast
  next
    case (park waker)
    then show ?thesis using inv_park [OF inv] by blast
  next
    case (write_cell t i)
    then show ?thesis using inv_write [OF inv assms(3) k] by blast
  next
    case (claim_joins t base prev q)
    then show ?thesis using inv_claim_joins [OF inv] by blast
  next
    case (claim_opens t base prev q)
    then show ?thesis using inv_claim_opens [OF inv assms(3) k] by blast
  next
    case (occupy i j ur)
    then show ?thesis using inv_occupy [OF inv assms(3,4)] assms(5) by blast
  next
    case (bound j ur br s')
    then show ?thesis using inv_bound [OF inv k] by blast
  next
    case (take_tasks j br ts buf)
    then show ?thesis using inv_take [OF inv k] by blast
  next
    case (take_fails j br f)
    then show ?thesis using bounded_takes [OF inv k nth_mem] bounded_end [OF inv nth_mem] by (metis Inl_Inr_False)
  next
    case (start_iter j br)
    then show ?thesis using inv_start_iter [OF inv] by blast
  next
    case (iterate j it ts t it' buf)
    then show ?thesis using inv_iterate [OF inv k] by blast
  next
    case (iterate_fails j it ts f)
    then show ?thesis using iterating_next [OF inv k nth_mem] by (metis Inl_Inr_False)
  next
    case (release_iter j it ts it' buf woken s')
    then show ?thesis using inv_release_iter [OF inv assms(3) k] by blast
  next
    case (start_map j br)
    then show ?thesis using inv_start_map [OF inv] by blast
  next
    case (map_next j ta ts t buf)
    then show ?thesis using inv_map_next [OF inv k] by blast
  next
    case (map_fails j ta ts f)
    obtain e where "assignment_tasks (2 ^ k) ta = map (\<lambda>i. i mod 2 ^ k) [first (batches s ! j)..<e]"
      "first (batches s ! j) + length ts < e \<Longrightarrow> \<exists>r.
        read_cell (assignment_tasks (2 ^ k) ta ! length ts) (buffer (inner (sys_queue s))) = Inr r"
      using mapping_next [OF inv k nth_mem [OF map_fails(2)] map_fails(3)] by metis
    then show ?thesis using map_fails(4,5) by fastforce
  next
    case (release_map j ta ts woken s')
    then show ?thesis using inv_release_map [OF inv assms(3) k] by blast
  next
    case (drop_range j br ts buf)
    then show ?thesis using inv_drop_range [OF inv k] by blast
  next
    case (drop_fails j br f)
    then show ?thesis using bounded_drops [OF inv k nth_mem] bounded_end [OF inv nth_mem] by (metis Inl_Inr_False)
  next
    case (release j br ts woken s')
    then show ?thesis using inv_release_range [OF inv assms(3) k] by blast
  qed
qed

lemma sys_inv_start:
  assumes "6 \<le> k" "k < 32" "stack_queue_default None (2 ^ k) d = Some q"
  shows "sys_inv k (sys_start q)"
proof -
  have "queue_at k 0 True False {#} q" "own_occupancy q = 0"
    using default_queue_at [OF assms(1,2)] assms(3) by (metis option.inject)+
  then have "words_ok k 0 [] q" unfolding words_ok_def
    by (intro exI [of _ True] exI [of _ False] exI [of _ "{#}"]) (simp add: regions_of_def)
  then show ?thesis by (simp add: sys_inv_def sys_start_def owner_ok_def no_claimed_def)
qed

lemma sys_inv_limited:
  assumes "limited_reachable dpush steal k d s" "6 \<le> k" "k < 32"
  shows "sys_inv k s"
  using assms(1)
proof induction
  case (limited_init q)
  then show ?case using sys_inv_start [OF assms(2,3) limited_init] by simp
next
  case (limited_next s s')
  then show ?case using sys_inv_step assms(2,3) by blast
qed

lemma sys_inv_reachable:
  assumes "sys_reachable dpush steal (2 ^ k) d s" "6 \<le> k" "k \<le> 10"
  shows "sys_inv k s"
  using sys_inv_limited [OF limited_if_small [OF assms(1,3)] assms(2)] assms(3) by simp

end
