(* ===== verification/Runs.thy ===== *)
theory Runs
  imports Interleaving
begin

unbundle bit_operations_syntax

text \<open>
  What holds in every run of the steps of \<open>Interleaving\<close>: consequences of its invariant for the cells,
  the tasks and the occupancy word; that the owner's steps are \<open>push\<close>; that no holder of a batch is
  ever blocked; and the run in which a waker is parked too late.
\<close>

section \<open>What holds however the threads interleave\<close>

text \<open>
  C1. As long as at most 255 running batches start in one region, which needs no care up to 1024
  cells: no batch ever reads a cell that holds no task, no access leaves the buffer, and when the
  owner is about to write a task, its cell is none of those of a batch whose tasks were not all
  taken yet.
\<close>

theorem no_overwrite:
  assumes "limited_reachable dpush steal k d s" "6 \<le> k" "k < 32"
  shows "\<not> failed s \<and>
    (\<forall>t. owner s = Checked t \<longrightarrow> (\<forall>b\<in>set (batches s). untaken b \<longrightarrow>
      (\<forall>i\<in>{first b..<batch_end (length (log s)) b}.
        i mod 2 ^ k \<noteq> unat (current_write_index (2 ^ k) (sys_queue s)))))"
proof -
  have inv: "sys_inv k s" by (rule sys_inv_limited [OF assms])
  obtain op ph where "queue_at k (length (log s)) op ph (regions_of k (batches s)) (sys_queue s)"
    using sys_inv_words [OF inv] by metis
  then have i: "unat (current_write_index (2 ^ k) (sys_queue s)) = length (log s) mod 2 ^ k"
    using write_index_at assms(3) by fastforce
  have "i mod 2 ^ k \<noteq> length (log s) mod 2 ^ k"
    if "owner s = Checked t" "b \<in> set (batches s)" "untaken b" "i \<in> {first b..<batch_end (length (log s)) b}" for t b i
  proof -
    have "in_window k (Suc (length (log s))) b" using inv that(1,2) by (simp add: sys_inv_def owner_ok_def)
    moreover have "i < length (log s)"
      using inv chain_bounds [OF _ that(2)] that(4) by (fastforce simp: sys_inv_def)
    ultimately show ?thesis using window_cell_free untaken_running [OF that(3)] that(4) by auto
  qed
  then show ?thesis using inv i by (auto simp: sys_inv_def)
qed

text \<open>
  \<open>batch_range\<close>: the tasks pushed into a batch. \<open>batch_tasks\<close>: the tasks it gave out and those it still
  has in the buffer.
\<close>

definition batch_range :: "'t list \<Rightarrow> 't batch \<Rightarrow> 't list" where
  "batch_range l b = map ((!) l) [first b..<batch_end (length l) b]"

definition batch_tasks :: "'t list \<Rightarrow> 't batch \<Rightarrow> 't list" where
  "batch_tasks l b = (case stage b of
     Consumed _ ts \<Rightarrow> ts | Released ts \<Rightarrow> ts
   | Iterating _ ts \<Rightarrow> ts @ map ((!) l) [first b + length ts..<batch_end (length l) b]
   | Mapping _ ts \<Rightarrow> ts @ map ((!) l) [first b + length ts..<batch_end (length l) b]
   | _ \<Rightarrow> batch_range l b)"

lemma batch_tasks_ok:
  assumes "stage_ok l b"
  shows "batch_tasks l b = batch_range l b \<or>
    batch_tasks l b = [] \<and> \<not> same_cycle (first b) (batch_end (length l) b)"
proof -
  have part: "ts @ map ((!) l) [first b + length ts..<e] = map ((!) l) [first b..<e]"
    if "first b + length ts \<le> e" "ts = map ((!) l) [first b..<first b + length ts]" for ts e
  proof -
    have "ts @ map ((!) l) [first b + length ts..<e] =
        map ((!) l) ([first b..<first b + length ts] @ [first b + length ts..<e])"
      unfolding map_append using that(2) by metis
    also have "\<dots> = map ((!) l) [first b..<e]"
      using upt_add_eq_append [of "first b" "first b + length ts" "e - (first b + length ts)"] that(1) by simp
    finally show ?thesis .
  qed
  show ?thesis
    using assms part
    by (cases "stage b") (auto simp: stage_ok_def batch_tasks_def batch_range_def batch_end_def taken_ok_def)
qed

lemma chain_concat:
  "chain a (length l) bs \<Longrightarrow> concat (map (batch_range l) bs) = drop a l"
proof (induction bs arbitrary: a)
  case Nil
  then show ?case by simp
next
  case (Cons b bs)
  let ?e = "batch_end (length l) b"
  have c: "first b = a" "a < ?e" "chain ?e (length l) bs" using Cons.prems by simp_all
  have "?e \<le> length l" by (rule chain_le [OF c(3)])
  then have "map ((!) l) [a..<?e] = take (?e - a) (drop a l)" by (rule map_nth_upt)
  moreover have "drop ?e l = drop (?e - a) (drop a l)" using c(2) by simp
  ultimately show ?case using Cons.IH [OF c(3)] c(1) by (simp add: batch_range_def del: drop_drop)
qed

lemma same_cycle_less: "b < 2 ^ 32 \<Longrightarrow> a \<le> b \<Longrightarrow> same_cycle a b"
  by (simp add: same_cycle_def)

lemma batches_concat:
  assumes "sys_inv k s"
  shows "concat (map (batch_range (log s)) (batches s)) = log s"
    "length (log s) < 2 ^ 32 \<Longrightarrow> concat (map (batch_tasks (log s)) (batches s)) = log s"
proof -
  have chain: "chain 0 (length (log s)) (batches s)" using assms by (simp add: sys_inv_def)
  show range: "concat (map (batch_range (log s)) (batches s)) = log s"
    using chain_concat [OF chain] by (simp only: drop_0)
  assume short: "length (log s) < 2 ^ 32"
  have "batch_tasks (log s) b = batch_range (log s) b" if b: "b \<in> set (batches s)" for b
  proof -
    have "first b < batch_end (length (log s)) b" "batch_end (length (log s)) b \<le> length (log s)"
      using chain_bounds [OF chain b] by simp_all
    then have "same_cycle (first b) (batch_end (length (log s)) b)"
      using short by (intro same_cycle_less) simp_all
    then show ?thesis using batch_tasks_ok [of "log s" b] assms b by (auto simp: sys_inv_def)
  qed
  then have "map (batch_tasks (log s)) (batches s) = map (batch_range (log s)) (batches s)" by simp
  then show "concat (map (batch_tasks (log s)) (batches s)) = log s" by (simp only: range)
qed

text \<open>
  C2. As long as at most 255 running batches start in one region, which is always so up to 1024 cells: every
  task that was pushed belongs to exactly one batch: the batches, in the order they were
  opened, cover exactly the tasks in the order they were pushed, and at most one of them is open,
  the last. A batch gives out exactly its tasks, each once and in order; it may give out none only
  if the 32-bit counter wraps around inside it. So the first \<open>2 ^ 32 - 1\<close> tasks all get through.
\<close>

theorem every_task_once:
  assumes "limited_reachable dpush steal k d s" "6 \<le> k" "k < 32"
  shows "concat (map (batch_range (log s)) (batches s)) = log s \<and>
    (\<forall>b\<in>set (batches s). batch_tasks (log s) b = batch_range (log s) b \<or>
      batch_tasks (log s) b = [] \<and> \<not> same_cycle (first b) (batch_end (length (log s)) b)) \<and>
    (length (log s) < 2 ^ 32 \<longrightarrow> concat (map (batch_tasks (log s)) (batches s)) = log s) \<and>
    (\<forall>j<length (batches s). ended (batches s ! j) = None \<longrightarrow> j = length (batches s) - 1)"
proof -
  have inv: "sys_inv k s" by (rule sys_inv_limited [OF assms])
  then have chain: "chain 0 (length (log s)) (batches s)" by (simp add: sys_inv_def)
  have "j = length (batches s) - 1" if j: "j < length (batches s)" "ended (batches s ! j) = None" for j
  proof (rule ccontr)
    assume "j \<noteq> length (batches s) - 1"
    then have last: "j < length (batches s) - 1" "length (batches s) - 1 < length (batches s)" using j(1) by simp_all
    let ?b = "batches s ! (length (batches s) - 1)"
    have "?b \<in> set (batches s)" using last(2) by simp
    from chain_bounds [OF chain this] chain_disjoint [OF chain last] j(2)
    show False by (simp add: batch_end_def)
  qed
  moreover have "\<forall>b\<in>set (batches s). batch_tasks (log s) b = batch_range (log s) b \<or>
      batch_tasks (log s) b = [] \<and> \<not> same_cycle (first b) (batch_end (length (log s)) b)"
    using inv batch_tasks_ok by (auto simp: sys_inv_def)
  ultimately show ?thesis using batches_concat [OF inv] by blast
qed

text \<open>
  C12. As long as at most 255 running batches start in one region: the shared word counts exactly the batches that were handed out and not released, by the region
  they start in; and the owner's cached copy of it never shows a region free in which one of them
  started, as the comment on the cache claims.
\<close>

theorem occupancy_exact:
  assumes "limited_reachable dpush steal k d s" "6 \<le> k" "k < 32"
  shows "occupancy (inner (sys_queue s)) = enc64 (count (regions_of k (batches s))) \<and>
    (\<forall>i. unat i < 2 ^ k \<and> own_occupancy (sys_queue s) AND region_mask (2 ^ k) i = 0 \<longrightarrow>
      (\<forall>b\<in>set (batches s). occupying b \<longrightarrow> region k (first b) \<noteq> region k (unat i)))"
proof -
  have inv: "sys_inv k s" by (rule sys_inv_limited [OF assms])
  obtain op ph B where w: "queue_at k (length (log s)) op ph (regions_of k (batches s)) (sys_queue s)"
      "own_occupancy (sys_queue s) = enc64 (count B)" "regions_of k (batches s) \<subseteq># B" "\<forall>r. count B r < 256"
    using inv by (rule sys_inv_words)
  have "region k (first b) \<noteq> region k (unat i)"
    if "unat i < 2 ^ k" "own_occupancy (sys_queue s) AND region_mask (2 ^ k) i = 0" "b \<in> set (batches s)" "occupying b" for i b
    using occ64.is_free_mset [of k i B] w(2,4) that assms(2,3) mset_subset_eqD [OF w(3) in_regions [OF that(3,4)]]
    by auto
  then show ?thesis using w(1) by (auto simp: queue_at_def)
qed

text \<open>
  A push is refused only when it would lap a batch: some batch that was not released started
  exactly one lap before, in the region the counter is about to enter.
\<close>

theorem refusal_justified:
  assumes "limited_reachable dpush steal k d s" "6 \<le> k" "k < 32" "owner s = Idle"
    and "region_check (2 ^ k) (current_write_index (2 ^ k) (sys_queue s)) (sys_queue s) = (Inl QueueFull, q)"
  shows "\<exists>b\<in>set (batches s). occupying b \<and> length (log s) = block_start (2 ^ (k - 3)) (first b) + 2 ^ k"
proof -
  have inv: "sys_inv k s" by (rule sys_inv_limited [OF assms(1-3)])
  then have "words_ok k (length (log s)) (batches s) (sys_queue s)" by (simp add: sys_inv_def)
  from words_check [OF this assms(2) _ assms(5)] assms(3)
  have c: "2 ^ (k - 3) dvd length (log s)" "region k (length (log s)) \<in># regions_of k (batches s)" by simp_all
  then obtain b where b: "b \<in> set (batches s)" "occupying b" "region k (first b) = region k (length (log s))"
    by (auto simp: regions_of_def)
  have "first b < length (log s)"
    using inv chain_bounds [OF _ b(1)] by (fastforce simp: sys_inv_def)
  moreover have "length (log s) \<le> region_start k (first b) + 2 ^ k"
    using inv b(1) occupying_running [OF b(2)] by (simp add: sys_inv_def in_window_def)
  ultimately have "length (log s) = region_start k (first b) + 2 ^ k"
    using lap_iff [of k "first b" "length (log s)"] assms(2) b(3) c(1) by simp
  with b show ?thesis by blast
qed

lemma release_enabled:
  assumes "sys_inv k s" "6 \<le> k" "k < 32" "b \<in> set (batches s)" "occupying b"
    and "fifo_deque dpush steal contents" "steal_progress steal retries"
  shows "\<exists>woken s'. deoccupy_region steal (2 ^ k) (range_start (bounds64 (first b) e) AND (2 ^ k - 1))
      (inner (sys_queue s)) = Inr (woken, s') \<and>
    woken @ contents (stealer s') = contents (stealer (inner (sys_queue s)))"
proof -
  obtain op ph B where w: "queue_at k (length (log s)) op ph (regions_of k (batches s)) (sys_queue s)"
      "regions_of k (batches s) \<subseteq># B" "\<forall>r. count B r < 256"
    using sys_inv_words [OF assms(1)] by metis
  let ?i = "range_start (bounds64 (first b) e) AND (2 ^ k - 1)"
  have i: "unat ?i = first b mod 2 ^ k" using assms(3) by (simp add: bounds64_masked)
  have r: "region k (unat ?i) \<in># regions_of k (batches s)"
    using in_regions [OF assms(4,5), of k] by (simp add: i region_def)
  have count: "\<forall>r. count (regions_of k (batches s)) r < 256"
    using w(2,3) by (meson le_less_trans mset_subset_eq_count)
  have occ: "occupancy (inner (sys_queue s)) = enc64 (count (regions_of k (batches s)))" "unat ?i < 2 ^ k"
    using w(1) i by (simp_all add: queue_at_def)
  have "\<forall>r\<in>#regions_of k (batches s). r < 8" using assms(2) by (intro regions_less) simp
  from deoccupy_region_step [OF assms(2,3) occ(2,1) r this count assms(6,7)] show ?thesis by auto
qed

lemma release_range_enabled:
  assumes "sys_inv k s" "6 \<le> k" "k < 32" "b \<in> set (batches s)" "stage b = Consumed br ts"
    and "fifo_deque dpush steal contents" "steal_progress steal retries"
  shows "\<exists>woken s'. bounded_deoccupy_buffer steal (2 ^ k) br (inner (sys_queue s)) = Inr (woken, s') \<and>
    woken @ contents (stealer s') = contents (stealer (inner (sys_queue s)))"
proof -
  obtain e where "br = bounds64 (first b) e" "occupying b"
    using consumed_end [OF assms(1,4,5)] by metis
  with release_enabled [OF assms(1-4) _ assms(6,7), of e] show ?thesis
    by (simp add: bounded_deoccupy_buffer_def)
qed

lemma iterating_enabled:
  assumes "sys_inv k s" "6 \<le> k" "k < 32" "j < length (batches s)" "stage (batches s ! j) = Iterating it ts"
    and "fifo_deque dpush steal contents" "steal_progress steal retries"
  shows "\<exists>q st. sys_step dpush steal (2 ^ k) s (s\<lparr>sys_queue := q, batches := set_stage j st (batches s)\<rparr>) \<and>
    st \<noteq> Iterating it ts"
proof -
  let ?b = "batches s ! j"
  have mem: "?b \<in> set (batches s)" using assms(4) by simp
  obtain r where "iter_next (2 ^ k) it (buffer (inner (sys_queue s))) = Inr r"
    using iterating_next [OF assms(1,3) mem assms(5)] by metis
  then obtain t it' buf where next_: "iter_next (2 ^ k) it (buffer (inner (sys_queue s))) = Inr (t, it', buf)"
    by (cases r) auto
  show ?thesis
  proof (cases t)
    case (Some u)
    from sys_step.iterate [OF assms(4,5) next_ [unfolded Some], of dpush steal] show ?thesis by fastforce
  next
    case None
    obtain e where e: "it' = it" "iter_range it = bounds64 (first ?b) e" "buf = buffer (inner (sys_queue s))" "occupying ?b"
      using iterating_done [OF assms(1,3) mem assms(5) next_ [unfolded None]] by metis
    then obtain woken s' where "iter_deoccupy_buffer steal (2 ^ k) it' ((inner (sys_queue s))\<lparr>buffer := buf\<rparr>) = Inr (woken, s')"
      using release_enabled [OF assms(1-3) mem e(4) assms(6,7), of e] by (auto simp: iter_deoccupy_buffer_def)
    from sys_step.release_iter [OF assms(4,5) next_ [unfolded None] this] show ?thesis by fastforce
  qed
qed

lemma mapping_enabled:
  assumes "sys_inv k s" "6 \<le> k" "k < 32" "j < length (batches s)" "stage (batches s ! j) = Mapping ta ts"
    and "fifo_deque dpush steal contents" "steal_progress steal retries"
  shows "\<exists>q st. sys_step dpush steal (2 ^ k) s (s\<lparr>sys_queue := q, batches := set_stage j st (batches s)\<rparr>) \<and>
    st \<noteq> Mapping ta ts"
proof -
  let ?b = "batches s ! j"
  have mem: "?b \<in> set (batches s)" using assms(4) by simp
  obtain e where e: "first ?b + length ts \<le> e" "assignment_tasks (2 ^ k) ta = map (\<lambda>i. i mod 2 ^ k) [first ?b..<e]"
      "first ?b + length ts < e \<Longrightarrow> \<exists>r.
        read_cell (assignment_tasks (2 ^ k) ta ! length ts) (buffer (inner (sys_queue s))) = Inr r"
    using mapping_next [OF assms(1,3) mem assms(5)] by metis
  show ?thesis
  proof (cases "first ?b + length ts < e")
    case True
    then obtain t buf where "read_cell (assignment_tasks (2 ^ k) ta ! length ts) (buffer (inner (sys_queue s))) = Inr (t, buf)"
      using e(3) by auto
    from sys_step.map_next [OF assms(4,5) _ this, of dpush steal] True e(2) show ?thesis by fastforce
  next
    case False
    then have len: "length ts = length (assignment_tasks (2 ^ k) ta)" using e(1,2) by simp
    obtain e' where e': "ta = bounds64 (first ?b) e'" "occupying ?b"
      using mapping_done [OF assms(1,3) mem assms(5) len] by metis
    then obtain woken s' where "assignment_deoccupy_buffer steal (2 ^ k) ta (inner (sys_queue s)) = Inr (woken, s')"
      using release_enabled [OF assms(1-3) mem e'(2) assms(6,7), of e'] by (auto simp: assignment_deoccupy_buffer_def)
    from sys_step.release_map [OF assms(4,5) len this] show ?thesis by fastforce
  qed
qed

text \<open>
  The holders of batches wait for nobody: whoever has a batch can bound it, take its tasks,
  advance its iterator or release its region, whatever the owner and the others do.
\<close>

theorem holders_never_blocked:
  assumes "limited_reachable dpush steal k d s" "6 \<le> k" "k < 32"
    and "fifo_deque dpush steal contents" "steal_progress steal retries"
    and "j < length (batches s)" "occupying (batches s ! j)"
  shows "\<exists>s'. sys_step dpush steal (2 ^ k) s s' \<and> owner s' = owner s \<and> \<not> failed s' \<and>
    stage (batches s' ! j) \<noteq> stage (batches s ! j)"
proof -
  have inv: "sys_inv k s" by (rule sys_inv_limited [OF assms(1-3)])
  note k = assms(3)
  let ?b = "batches s ! j"
  have mem: "?b \<in> set (batches s)" and ok: "\<not> failed s" using assms(6) inv by (simp_all add: sys_inv_def)
  show ?thesis
  proof (cases "stage ?b")
    case (Unbounded ur)
    obtain br s' where "into_bounded ur (inner (sys_queue s)) = (br, s')" by fastforce
    from sys_step.bound [OF assms(6) Unbounded this, of dpush steal "2 ^ k"] Unbounded assms(6) ok show ?thesis
      by fastforce
  next
    case (Bounded br)
    obtain e where "copy_out (2 ^ k) br (buffer (inner (sys_queue s))) = Inr (map ((!) (log s)) [first ?b..<e],
       clear_window (2 ^ k) (first ?b) e (buffer (inner (sys_queue s))))"
      using bounded_takes [OF inv k mem Bounded] bounded_end [OF inv mem Bounded] by metis
    from sys_step.take_tasks [OF assms(6) Bounded this, of dpush steal] Bounded assms(6) ok show ?thesis
      by (fastforce simp: set_stage_def)
  next
    case (Iterating it ts)
    from iterating_enabled [OF inv assms(2) k assms(6) Iterating assms(4,5)] Iterating assms(6) ok show ?thesis
      by (fastforce simp: set_stage_def)
  next
    case (Mapping ta ts)
    from mapping_enabled [OF inv assms(2) k assms(6) Mapping assms(4,5)] Mapping assms(6) ok show ?thesis
      by (fastforce simp: set_stage_def)
  next
    case (Consumed br ts)
    obtain woken s' where "bounded_deoccupy_buffer steal (2 ^ k) br (inner (sys_queue s)) = Inr (woken, s')"
      using release_range_enabled [OF inv assms(2) k mem Consumed assms(4,5)] by blast
    from sys_step.release [OF assms(6) Consumed this, of dpush] Consumed assms(6) ok show ?thesis
      by (fastforce simp: set_stage_def)
  qed (use assms(7) in \<open>simp_all add: occupying_def\<close>)
qed

section \<open>The steps of the owner are push\<close>

lemma push_path:
  assumes "push N t (sys_queue s) = Inr (r, q)" "owner s = Idle"
  shows "\<exists>s'. (sys_step dpush steal N)\<^sup>*\<^sup>* s s' \<and> sys_queue s' = q \<and> failed s' = failed s \<and>
    (case r of
       Inl u \<Rightarrow> u = t \<and> owner s' = Parking waker \<and> log s' = log s \<and> batches s' = batches s
     | Inr a \<Rightarrow> owner s' = Idle \<and> log s' = log s @ [t] \<and> batches s' = batches s @
         (case a of None \<Rightarrow> [] | Some ur \<Rightarrow> [\<lparr>first = length (log s), ended = None, stage = Unbounded ur\<rparr>]))"
proof -
  let ?q = "sys_queue s"
  let ?i = "current_write_index N ?q"
  obtain c q1 where check: "region_check N ?i ?q = (c, q1)" by fastforce
  show ?thesis
  proof (cases c)
    case (Inl x)
    then have full: "region_check N ?i ?q = (Inl QueueFull, q1)" using check by (cases x) simp
    then have "r = Inl t" "q = q1" using assms(1) by (simp_all add: push_def)
    then show ?thesis using r_into_rtranclp [of "sys_step dpush steal N", OF sys_step.check_full [OF assms(2) full]]
      by (intro exI [of _ "s\<lparr>sys_queue := q1, owner := Parking waker\<rparr>"]) simp
  next
    case (Inr x)
    then have ok: "region_check N ?i ?q = (Inr (), q1)" using check by simp
    have frame: "own_slot q1 = own_slot ?q" "inner q1 = inner ?q"
      using region_check_frame [OF ok] by simp_all
    then have i: "current_write_index N q1 = ?i" by (simp add: current_write_index_eq)
    let ?q2 = "set_inner q1 ((inner q1)\<lparr>buffer := (buffer (inner q1))[unat ?i := Some t]\<rparr>)"
    have i2: "current_write_index N ?q2 = ?i" using i by (simp add: current_write_index_eq set_inner_def)
    obtain base prev q3 where claim: "claim_slot ?q2 = (base, prev, q3)" by (metis prod_cases3)
    let ?s1 = "s\<lparr>sys_queue := q1, owner := Checked t\<rparr>"
    let ?s2 = "?s1\<lparr>sys_queue := ?q2, owner := Written t, failed := failed s \<or> length (buffer (inner q1)) \<le> unat ?i\<rparr>"
    have len: "unat ?i < length (buffer (inner q1))"
      using assms(1) ok by (auto simp: push_def Let_def split: if_splits)
    have 1: "sys_step dpush steal N s ?s1" by (rule sys_step.check_free [OF assms(2) ok])
    have 2: "sys_step dpush steal N ?s1 ?s2"
      using sys_step.write_cell [of ?s1 t "unat ?i" N dpush steal] i by simp
    show ?thesis
    proof (cases "(base XOR prev) AND PHASE = 0")
      case True
      let ?s3 = "?s2\<lparr>sys_queue := q3, owner := Idle, log := log s @ [t]\<rparr>"
      have "sys_step dpush steal N ?s2 ?s3"
        using sys_step.claim_joins [of ?s2 t base prev q3 dpush steal N] claim True by simp
      with 1 2 have "(sys_step dpush steal N)\<^sup>*\<^sup>* s ?s3"
        by (meson converse_rtranclp_into_rtranclp r_into_rtranclp)
      moreover have "r = Inr None" "q = q3"
        using assms(1) ok len claim True by (auto simp: push_def set_inner_def Let_def)
      ultimately show ?thesis using len by (intro exI [of _ ?s3]) simp
    next
      case False
      let ?ur = "\<lparr>ur_base_slot = base\<rparr>"
      let ?b = "\<lparr>first = length (log s), ended = None, stage = Claimed ?ur\<rparr>"
      let ?s3 = "?s2\<lparr>sys_queue := q3, owner := Occupying ?i, log := log s @ [t], batches := batches s @ [?b]\<rparr>"
      let ?s4 = "?s3\<lparr>sys_queue := occupy_region N ?i q3, owner := Idle,
        batches := set_stage (length (batches s)) (Unbounded ?ur) (batches s @ [?b])\<rparr>"
      have "sys_step dpush steal N ?s2 ?s3"
        using sys_step.claim_opens [of ?s2 t base prev q3 dpush steal N] claim False i2 by simp
      moreover have "sys_step dpush steal N ?s3 ?s4"
        using sys_step.occupy [of ?s3 ?i "length (batches s)" ?ur dpush steal N] by simp
      ultimately have "(sys_step dpush steal N)\<^sup>*\<^sup>* s ?s4"
        using 1 2 by (meson converse_rtranclp_into_rtranclp r_into_rtranclp)
      moreover have "r = Inr (Some ?ur)" "q = occupy_region N ?i q3"
        using assms(1) ok len claim False by (auto simp: push_def set_inner_def Let_def)
      ultimately show ?thesis using len by (intro exI [of _ ?s4]) (simp add: set_stage_def)
    qed
  qed
qed

text \<open>
  C16. The steps refine the code of \<open>push\<close>: whatever \<open>push\<close> returns, the owner's steps, run one after
  the other, lead to the same queue, with the same task given back or the same new batch.
\<close>

theorem push_is_its_steps:
  assumes "push N t (sys_queue s) = Inr (r, q)" "owner s = Idle"
  shows "\<exists>s'. (sys_step dpush steal N)\<^sup>*\<^sup>* s s' \<and> sys_queue s' = q \<and> failed s' = failed s \<and>
    (case r of
       Inl u \<Rightarrow> u = t \<and> owner s' = Parking waker \<and> log s' = log s \<and> batches s' = batches s
     | Inr a \<Rightarrow> owner s' = Idle \<and> log s' = log s @ [t] \<and> batches s' = batches s @
         (case a of None \<Rightarrow> [] | Some ur \<Rightarrow> [\<lparr>first = length (log s), ended = None, stage = Unbounded ur\<rparr>]))"
  by (rule push_path [OF assms])

section \<open>A waker that nobody wakes\<close>

lemma reachable_path:
  "(sys_step dpush steal N)\<^sup>*\<^sup>* s s' \<Longrightarrow> sys_reachable dpush steal N d s \<Longrightarrow> sys_reachable dpush steal N d s'"
  by (induction rule: rtranclp_induct) (auto intro: sys_next)

text \<open>The owner pushes \<open>n\<close> tasks into one open batch.\<close>

lemma fill_reachable:
  assumes "6 \<le> k" "k \<le> 10" "n \<le> 2 ^ k"
  shows "\<exists>s :: ('t, 'wk list, 'wk) system. sys_reachable list_push list_steal (2 ^ k) [] s \<and> owner s = Idle \<and>
    length (log s) = n \<and> stealer (inner (sys_queue s)) = [] \<and>
    (if n = 0 then batches s = []
     else \<exists>ur. batches s = [\<lparr>first = 0, ended = None, stage = Unbounded ur\<rparr>])"
  using assms(3)
proof (induction n)
  case 0
  obtain q :: "(64 word, 't buffer_cell, 'wk list) stack_queue"
    where q: "stack_queue_default None (2 ^ k) [] = Some q" "stealer (inner q) = []"
    using default_queue_at [OF assms(1), of None "[]"] assms(2) by auto
  from sys_init [OF q(1)] q(2) show ?case by (intro exI [of _ "sys_start q"]) (simp add: sys_start_def)
next
  case (Suc n)
  then obtain s :: "('t, 'wk list, 'wk) system" where s: "sys_reachable list_push list_steal (2 ^ k) [] s"
      "owner s = Idle" "length (log s) = n" "stealer (inner (sys_queue s)) = []"
      "if n = 0 then batches s = [] else \<exists>ur. batches s = [\<lparr>first = 0, ended = None, stage = Unbounded ur\<rparr>]"
    by auto
  have k: "k < 32" using assms(2) by simp
  obtain op ph B where w: "queue_at k n op ph (regions_of k (batches s)) (sys_queue s)"
      "regions_of k (batches s) \<subseteq># B" "\<forall>r. count B r < 256" "ph = op \<longleftrightarrow> (\<exists>b\<in>set (batches s). ended b = None)"
    using sys_inv_words [OF sys_inv_reachable [OF s(1) assms(1,2)]] s(3) by metis
  have count: "\<forall>r. count (regions_of k (batches s)) r < 256"
    using w(2,3) by (meson le_less_trans mset_subset_eq_count)
  have free: "\<not> (2 ^ (k - 3) dvd n \<and> region k n \<in># regions_of k (batches s))"
  proof
    assume n: "2 ^ (k - 3) dvd n \<and> region k n \<in># regions_of k (batches s)"
    then have "n \<noteq> 0" "region k n = region k 0"
      using s(5) by (auto simp: regions_of_def occupying_def split: if_splits)
    then have "n = region_start k 0 + 2 ^ k"
      using lap_iff [of k 0 n] n Suc.prems assms(1) by (simp add: block_start_def)
    then show False using Suc.prems by (simp add: block_start_def)
  qed
  let ?a = "if ph = op then None else Some \<lparr>ur_base_slot = mk_slot n ph\<rparr>"
  obtain q1 where "region_check (2 ^ k) (current_write_index (2 ^ k) (sys_queue s)) (sys_queue s) = (Inr (), q1)"
    using words_check [of k n "batches s" "sys_queue s"] sys_inv_reachable [OF s(1) assms(1,2)] assms(1) k free s(3)
    by (cases "region_check (2 ^ k) (current_write_index (2 ^ k) (sys_queue s)) (sys_queue s)")
      (fastforce simp: sys_inv_def split: sum.splits)
  then obtain q where push: "push (2 ^ k) undefined (sys_queue s) = Inr (Inr ?a, q)"
      "stealer (inner q) = stealer (inner (sys_queue s))"
    using push_step [OF w(1) assms(1) k, of q1 undefined] unfolding current_write_index_eq by blast
  obtain s' where s': "(sys_step list_push list_steal (2 ^ k))\<^sup>*\<^sup>* s s'" "sys_queue s' = q" "owner s' = Idle"
      "log s' = log s @ [undefined]" "batches s' = batches s @
         (case ?a of None \<Rightarrow> [] | Some ur \<Rightarrow> [\<lparr>first = length (log s), ended = None, stage = Unbounded ur\<rparr>])"
    using push_path [OF push(1) s(2), of list_push list_steal] by auto
  have "\<exists>ur. batches s' = [\<lparr>first = 0, ended = None, stage = Unbounded ur\<rparr>]"
    using s'(5) s(3,5) w(4) by (auto split: if_splits)
  with reachable_path [OF s'(1) s(1)] s' s(3,4) push(2) show ?case by (intro exI [of _ s']) simp
qed

text \<open>With the batch still open and the buffer full, the next check fails.\<close>

lemma full_reachable:
  assumes "6 \<le> k" "k \<le> 10"
  shows "\<exists>(s :: ('t, 'wk list, 'wk) system) ur q. sys_reachable list_push list_steal (2 ^ k) [] s \<and> owner s = Idle \<and>
    length (log s) = 2 ^ k \<and> stealer (inner (sys_queue s)) = [] \<and>
    batches s = [\<lparr>first = 0, ended = None, stage = Unbounded ur\<rparr>] \<and>
    region_check (2 ^ k) (current_write_index (2 ^ k) (sys_queue s)) (sys_queue s) = (Inl QueueFull, q) \<and>
    inner q = inner (sys_queue s)"
proof -
  have k: "k < 32" using assms(2) by simp
  let ?N = "2 ^ k :: 64 word"
  obtain s :: "('t, 'wk list, 'wk) system" and ur where s: "sys_reachable list_push list_steal ?N [] s"
      "owner s = Idle" "length (log s) = 2 ^ k" "stealer (inner (sys_queue s)) = []"
      "batches s = [\<lparr>first = 0, ended = None, stage = Unbounded ur\<rparr>]"
    using fill_reachable [OF assms order_refl] by auto
  have busy: "region k (2 ^ k) \<in># regions_of k (batches s)"
    by (simp add: s(5) regions_of_def occupying_def region_def)
  obtain r q where check: "region_check ?N (current_write_index ?N (sys_queue s)) (sys_queue s) = (r, q)"
    by fastforce
  have "words_ok k (2 ^ k) (batches s) (sys_queue s)"
    using sys_inv_reachable [OF s(1) assms] s(3) by (simp add: sys_inv_def)
  from words_check [OF this assms(1) k check] busy have "inner q = inner (sys_queue s)" "\<exists>x. r = Inl x"
    by (auto simp: le_imp_power_dvd split: sum.splits)
  with s check show ?thesis by (metis queue_full.exhaust)
qed

text \<open>
  C35. A pusher that finds its region busy parks its waker after the check, in a step of its own. If
  the last batch is released in between, it finds nobody to wake: in a reachable state a waker is
  parked although no batch is left whose release could wake it.
\<close>

theorem lost_wakeup:
  assumes "6 \<le> k" "k \<le> 10"
  shows "\<exists>s :: ('t, 'wk list, 'wk) system. sys_reachable list_push list_steal (2 ^ k) [] s \<and>
    owner s = Idle \<and> stealer (inner (sys_queue s)) = [waker] \<and> occupancy (inner (sys_queue s)) = 0 \<and>
    (\<forall>b\<in>set (batches s). \<exists>ts. stage b = Released ts)"
proof -
  have k: "k < 32" using assms(2) by simp
  let ?N = "2 ^ k :: 64 word"
  obtain s :: "('t, 'wk list, 'wk) system" and ur q1 where s: "sys_reachable list_push list_steal ?N [] s"
      "owner s = Idle" "stealer (inner (sys_queue s)) = []"
      "batches s = [\<lparr>first = 0, ended = None, stage = Unbounded ur\<rparr>]"
    and full: "region_check ?N (current_write_index ?N (sys_queue s)) (sys_queue s) = (Inl QueueFull, q1)"
      "inner q1 = inner (sys_queue s)"
    using full_reachable [OF assms] by blast
  define s1 where "s1 = s\<lparr>sys_queue := q1, owner := Parking waker\<rparr>"
  have r1: "sys_reachable list_push list_steal ?N [] s1"
    unfolding s1_def using s(1) sys_step.check_full [OF s(2) full(1)] by (rule sys_next)
  have b1: "0 < length (batches s1)" "stage (batches s1 ! 0) = Unbounded ur" by (simp_all add: s1_def s(4))
  obtain br i2 where bound: "into_bounded ur (inner (sys_queue s1)) = (br, i2)" by fastforce
  define s2 where "s2 = s1\<lparr>sys_queue := set_inner (sys_queue s1) i2,
    batches := (batches s1)[0 := (batches s1 ! 0)\<lparr>stage := Bounded br, ended := Some (length (log s1))\<rparr>]\<rparr>"
  have r2: "sys_reachable list_push list_steal ?N [] s2"
    unfolding s2_def using r1 sys_step.bound [OF b1 bound] by (rule sys_next)
  have b2: "0 < length (batches s2)" "stage (batches s2 ! 0) = Bounded br" by (simp_all add: s2_def s1_def s(4))
  have st2: "stealer (inner (sys_queue s2)) = []"
    using bound s(3) by (auto simp: s2_def s1_def set_inner_def full(2) into_bounded_def set_bounds_def Let_def)
  obtain ts buf where taken: "copy_out ?N br (buffer (inner (sys_queue s2))) = Inr (ts, buf)"
    using bounded_takes [OF sys_inv_reachable [OF r2 assms] k nth_mem [OF b2(1)] b2(2)]
      bounded_end [OF sys_inv_reachable [OF r2 assms] nth_mem [OF b2(1)] b2(2)] by metis
  define s3 where "s3 = s2\<lparr>sys_queue := set_inner (sys_queue s2) ((inner (sys_queue s2))\<lparr>buffer := buf\<rparr>),
    batches := set_stage 0 (Consumed br ts) (batches s2)\<rparr>"
  have r3: "sys_reachable list_push list_steal ?N [] s3"
    unfolding s3_def using r2 sys_step.take_tasks [OF b2 taken] by (rule sys_next)
  have b3: "0 < length (batches s3)" "stage (batches s3 ! 0) = Consumed br ts"
    using b2(1) by (simp_all add: s3_def set_stage_def)
  have st3: "stealer (inner (sys_queue s3)) = []" using st2 by (simp add: s3_def set_inner_def)
  obtain woken i4 where rel: "bounded_deoccupy_buffer list_steal ?N br (inner (sys_queue s3)) = Inr (woken, i4)"
      "stealer i4 = []"
    using release_range_enabled [OF sys_inv_reachable [OF r3 assms] assms(1) k nth_mem [OF b3(1)] b3(2) list_deque] st3 by auto
  define s4 where "s4 = s3\<lparr>sys_queue := set_inner (sys_queue s3) i4, batches := set_stage 0 (Released ts) (batches s3)\<rparr>"
  have r4: "sys_reachable list_push list_steal ?N [] s4"
    unfolding s4_def using r3 sys_step.release [OF b3 rel(1)] by (rule sys_next)
  have own4: "owner s4 = Parking waker" by (simp add: s4_def s3_def s2_def s1_def)
  have st4: "stealer (inner (sys_queue s4)) = []" using rel(2) by (simp add: s4_def set_inner_def)
  have b4: "\<forall>b\<in>set (batches s4). \<exists>ts. stage b = Released ts"
    by (simp add: s4_def s3_def s2_def s1_def s(4) set_stage_def)
  define s5 where "s5 = s4\<lparr>sys_queue := pending_push list_push waker (sys_queue s4), owner := Idle\<rparr>"
  have r5: "sys_reachable list_push list_steal ?N [] s5"
    unfolding s5_def using r4 sys_step.park [OF own4] by (rule sys_next)
  have b5: "\<forall>b\<in>set (batches s5). \<exists>ts. stage b = Released ts" using b4 by (simp add: s5_def)
  obtain op ph where w: "queue_at k (length (log s5)) op ph (regions_of k (batches s5)) (sys_queue s5)"
    using sys_inv_words [OF sys_inv_reachable [OF r5 assms]] by metis
  have "filter occupying (batches s5) = []" using b5 by (auto simp: filter_empty_conv occupying_def)
  then have "occupancy (inner (sys_queue s5)) = 0" using w by (simp add: queue_at_def regions_of_def)
  then show ?thesis
    using r5 b5 st4 by (intro exI [of _ s5]) (simp add: s5_def pending_push_def list_push_def)
qed

section \<open>Witnesses\<close>

text \<open>A reachable state with a running batch of three tasks.\<close>

lemma three_reachable:
  "\<exists>s :: (nat, string list, string) system. sys_reachable list_push list_steal (2 ^ 6) [] s \<and> owner s = Idle \<and>
    length (log s) = 3 \<and> length (batches s) = 1 \<and> occupying (batches s ! 0)"
  using fill_reachable [of 6 3, where 't = nat and 'wk = string] by (force simp: occupying_def)

theorem no_overwrite_witness:
  "\<exists>s :: (nat, string list, string) system. length (log s) = 3 \<and> \<not> failed s"
proof -
  obtain s :: "(nat, string list, string) system" where s: "sys_reachable list_push list_steal (2 ^ 6) [] s"
    "length (log s) = 3" using three_reachable by blast
  from no_overwrite [OF limited_if_small [OF s(1)]] s(2) show ?thesis by auto
qed

theorem every_task_once_witness:
  "\<exists>s :: (nat, string list, string) system. length (log s) = 3 \<and>
    concat (map (batch_tasks (log s)) (batches s)) = log s"
proof -
  obtain s :: "(nat, string list, string) system" where s: "sys_reachable list_push list_steal (2 ^ 6) [] s"
    "length (log s) = 3" using three_reachable by blast
  from every_task_once [OF limited_if_small [OF s(1)]] s(2) show ?thesis by auto
qed

theorem occupancy_exact_witness:
  "\<exists>s :: (nat, string list, string) system. length (log s) = 3 \<and>
    occupancy (inner (sys_queue s)) = enc64 (count (regions_of 6 (batches s)))"
proof -
  obtain s :: "(nat, string list, string) system" where s: "sys_reachable list_push list_steal (2 ^ 6) [] s"
    "length (log s) = 3" using three_reachable by blast
  from occupancy_exact [OF limited_if_small [OF s(1)]] s(2) show ?thesis by auto
qed

theorem refusal_justified_witness:
  "\<exists>s :: (nat, string list, string) system. \<exists>b\<in>set (batches s). occupying b \<and>
    length (log s) = block_start 8 (first b) + 64"
proof -
  obtain s :: "(nat, string list, string) system" and q where s: "sys_reachable list_push list_steal (2 ^ 6) [] s"
    "owner s = Idle" "region_check (2 ^ 6) (current_write_index (2 ^ 6) (sys_queue s)) (sys_queue s) = (Inl QueueFull, q)"
    using full_reachable [of 6] by auto
  from refusal_justified [OF limited_if_small [OF s(1)] _ _ s(2,3)] show ?thesis by (intro exI [of _ s]) simp
qed

theorem holders_never_blocked_witness:
  "\<exists>s s' :: (nat, string list, string) system. sys_step list_push list_steal (2 ^ 6) s s' \<and>
    stage (batches s' ! 0) \<noteq> stage (batches s ! 0)"
proof -
  obtain s :: "(nat, string list, string) system" where s: "sys_reachable list_push list_steal (2 ^ 6) [] s"
    "0 < length (batches s)" "occupying (batches s ! 0)" using three_reachable by (metis zero_less_one)
  from holders_never_blocked [OF limited_if_small [OF s(1)] _ _ list_deque s(2,3)] show ?thesis by auto
qed

theorem push_is_its_steps_witness:
  "\<exists>s' :: (nat, string list, string) system.
    (sys_step list_push list_steal (2 ^ 6))\<^sup>*\<^sup>* (sys_start (fresh_queue None)) s' \<and> owner s' \<noteq> Occupying 0"
proof -
  obtain r q where "push (2 ^ 6) (5 :: nat) (fresh_queue None) = Inr (r, q)"
    using push_step [OF fresh_queue_at(1) [where uninit = None] _ _ fresh_queue_at(2), of "5 :: nat"] by auto
  then have "push (2 ^ 6) (5 :: nat) (sys_queue (sys_start (fresh_queue None))) = Inr (r, q)"
    by (simp add: sys_start_def)
  from push_is_its_steps [OF this, of list_push list_steal "''w''"] show ?thesis
    by (fastforce simp: sys_start_def split: sum.splits)
qed

theorem lost_wakeup_witness:
  "\<exists>s :: (nat, string list, string) system. stealer (inner (sys_queue s)) = [''w''] \<and>
    (\<forall>b\<in>set (batches s). \<exists>ts. stage b = Released ts)"
proof -
  have "6 \<le> (6::nat)" "(6::nat) \<le> 10" by simp_all
  from lost_wakeup [OF this, of "''w''", where 't = nat] show ?thesis by blast
qed

end
