(* ===== verification/Negotiation.thy ===== *)
theory Negotiation
  imports TaskRefs
begin

unbundle bit_operations_syntax

text \<open>
  The race between the thread that resolves a task (\<open>TaskRef::resolve_unchecked\<close>) and the thread that
  owns the \<open>BatchedTask\<close>, which may poll it or drop it (\<open>PinnedDrop for BatchedTask\<close>), at the grain of
  atomic operations on the state word. Each step of the relation is one atomic operation, with the
  accesses to the receiver's memory up to the next one as steps of their own.
\<close>

section \<open>Steps\<close>

text \<open>
  Where the resolver is: before its \<open>fetch_or\<close>; after it, with what it read and the value; after the
  write of the value; after the wake-up; at the end; or at the end because the task was dropped in
  place of being resolved. Where the owner is: the future is \<open>Batched\<close>;
  in the destructor's spin loop, with the state it looks at; deallocated; or \<open>Received\<close>.
\<close>

datatype 'v resolver_pc = RBegin 'v | RLoaded "64 word" 'v | RWrote | RWoke | RDone | RDropped

text \<open>The resolver is through: no access of it to the cell or the receiver is left.\<close>

definition through :: "'v resolver_pc \<Rightarrow> bool" where
  "through pc \<longleftrightarrow> pc = RDone \<or> pc = RDropped"

lemma through_simps [simp]:
  "through RDone" "through RDropped" "\<not> through (RBegin v)" "\<not> through (RLoaded st v)" "\<not> through RWrote" "\<not> through RWoke"
  by (simp_all add: through_def)

datatype owner_pc = OBatched | OSpin "64 word" | ODropped | OReceived

text \<open>
  \<open>rx_mem\<close> is the receiver's memory: \<open>None\<close> when it is gone, \<open>Some None\<close> before the value is written.
  \<open>broken\<close>: some access found the memory gone or uninitialised. \<open>reused\<close>: the cell, and with it the
  state word, has been taken over by a later task.
\<close>

record 'v race =
  state_word :: "64 word"
  rx_mem :: "'v option option"
  rpc :: "'v resolver_pc"
  opc :: owner_pc
  was_woken :: bool
  returned :: "'v list"
  discarded :: "'v list"
  broken :: bool
  reused :: bool

definition race_start :: "'v \<Rightarrow> 'v race" where
  "race_start v = \<lparr>state_word = 0, rx_mem = Some None, rpc = RBegin v, opc = OBatched, was_woken = False,
     returned = [], discarded = [], broken = False, reused = False\<rparr>"

text \<open>
  One step; \<open>drops\<close> is \<open>needs_drop::<T::Task>()\<close>. The future is polled only after it was woken. In place of
  resolving its task, whoever has the batch may drop it (\<open>Drop for TaskAssignment\<close>). When the
  resolver is through, its batch can be released and the cell reused, any number of times: the word
  is then whatever later tasks make of it. The future is not dropped any more by then (what happens
  otherwise is shown in \<open>TaskRefs\<close>), but its destructor may still be running.
\<close>

inductive race_step :: "bool \<Rightarrow> 'v race \<Rightarrow> 'v race \<Rightarrow> bool" for drops :: bool where
  begin_setting:
    "rpc s = RBegin v \<Longrightarrow>
     race_step drops s (s\<lparr>state_word := state_word s OR SETTING_VALUE, rpc := RLoaded (state_word s) v\<rparr>)"
| write_value:
    "rpc s = RLoaded state v \<Longrightarrow> state AND RX_DROPPED = 0 \<Longrightarrow>
     race_step drops s (s\<lparr>rpc := RWrote, broken := broken s \<or> rx_mem s = None,
       rx_mem := if rx_mem s = None then None else Some (Some v)\<rparr>)"
| discard_value:
    "rpc s = RLoaded state v \<Longrightarrow> state AND RX_DROPPED \<noteq> 0 \<Longrightarrow>
     race_step drops s (s\<lparr>rpc := RDone, discarded := v # discarded s\<rparr>)"
| wake:
    "rpc s = RWrote \<Longrightarrow>
     race_step drops s (s\<lparr>rpc := RWoke, broken := broken s \<or> rx_mem s = None, was_woken := True\<rparr>)"
| finish_setting:
    "rpc s = RWoke \<Longrightarrow>
     race_step drops s (s\<lparr>rpc := RDone, state_word := state_word s XOR (SETTING_VALUE OR VALUE_SET)\<rparr>)"
| poll_value:
    "opc s = OBatched \<Longrightarrow> was_woken s \<Longrightarrow> rx_mem s = Some (Some v) \<Longrightarrow>
     race_step drops s (s\<lparr>opc := OReceived, rx_mem := None, returned := v # returned s\<rparr>)"
| poll_uninit:
    "opc s = OBatched \<Longrightarrow> was_woken s \<Longrightarrow> rx_mem s \<in> {None, Some None} \<Longrightarrow>
     race_step drops s (s\<lparr>opc := OReceived, rx_mem := None, broken := True\<rparr>)"
| begin_drop:
    "opc s = OBatched \<Longrightarrow> \<not> reused s \<Longrightarrow>
     race_step drops s (s\<lparr>opc := OSpin (state_word s), state_word := state_word s OR RX_DROPPED\<rparr>)"
| spin:
    "opc s = OSpin state \<Longrightarrow> state AND SETTING_VALUE = SETTING_VALUE \<Longrightarrow>
     race_step drops s (s\<lparr>opc := OSpin (state_word s)\<rparr>)"
| drop_value:
    "opc s = OSpin state \<Longrightarrow> state AND SETTING_VALUE \<noteq> SETTING_VALUE \<Longrightarrow>
     drops \<Longrightarrow> state AND VALUE_SET = VALUE_SET \<Longrightarrow>
     race_step drops s (s\<lparr>opc := ODropped, rx_mem := None,
       broken := broken s \<or> rx_mem s \<in> {None, Some None},
       discarded := (case rx_mem s of Some (Some v) \<Rightarrow> v # discarded s | _ \<Rightarrow> discarded s)\<rparr>)"
| drop_only:
    "opc s = OSpin state \<Longrightarrow> state AND SETTING_VALUE \<noteq> SETTING_VALUE \<Longrightarrow>
     \<not> (drops \<and> state AND VALUE_SET = VALUE_SET) \<Longrightarrow>
     race_step drops s (s\<lparr>opc := ODropped, rx_mem := None\<rparr>)"
| drop_task:
    "rpc s = RBegin v \<Longrightarrow> race_step drops s (s\<lparr>rpc := RDropped\<rparr>)"
| reuse:
    "through (rpc s) \<Longrightarrow> race_step drops s (s\<lparr>reused := True, state_word := w\<rparr>)"

inductive race_reachable :: "bool \<Rightarrow> 'v \<Rightarrow> 'v race \<Rightarrow> bool" for drops :: bool and v :: 'v where
  start: "race_reachable drops v (race_start v)"
| step: "race_reachable drops v s \<Longrightarrow> race_step drops s s' \<Longrightarrow> race_reachable drops v s'"

section \<open>The invariant\<close>

text \<open>
  The state word is determined by where both threads are, and so is what each of them has read.
  \<open>rx_gone\<close>: the owner has set its flag. \<open>refused\<close>: the resolver saw that flag.
\<close>

definition rx_gone :: "'v race \<Rightarrow> bool" where
  "rx_gone s \<longleftrightarrow> (case opc s of OSpin _ \<Rightarrow> True | ODropped \<Rightarrow> True | _ \<Rightarrow> False)"

text \<open>What the owner's last look at the word may be, while it is in the destructor.\<close>

definition race_inv :: "'v \<Rightarrow> bool \<Rightarrow> 'v race \<Rightarrow> bool" where
  "race_inv v drops s \<longleftrightarrow> \<not> broken s \<and> (reused s \<longrightarrow> through (rpc s)) \<and>
     (case rpc s of
        RBegin u \<Rightarrow> u = v \<and> state_word s = flags False False (rx_gone s) \<and> \<not> was_woken s \<and>
          returned s = [] \<and> discarded s = [] \<and>
          (case opc s of OBatched \<Rightarrow> rx_mem s = Some None
             | OSpin st \<Rightarrow> (\<exists>d. st = flags False False d) \<and> rx_mem s = Some None
             | ODropped \<Rightarrow> True | OReceived \<Rightarrow> False)
      | RLoaded seen u \<Rightarrow> u = v \<and> state_word s = flags True False (rx_gone s) \<and> \<not> was_woken s \<and>
          returned s = [] \<and> discarded s = [] \<and>
          (seen = flags False False True \<and>
             (case opc s of OSpin st \<Rightarrow> (\<exists>d. st = flags False False d) | ODropped \<Rightarrow> True | _ \<Rightarrow> False) \<or>
           seen = flags False False False \<and> rx_mem s = Some None \<and>
             (case opc s of OBatched \<Rightarrow> True | OSpin st \<Rightarrow> (\<exists>d. st = flags True False d) | _ \<Rightarrow> False))
      | RWrote \<Rightarrow> state_word s = flags True False (rx_gone s) \<and> \<not> was_woken s \<and>
          returned s = [] \<and> discarded s = [] \<and> rx_mem s = Some (Some v) \<and>
          (case opc s of OBatched \<Rightarrow> True | OSpin st \<Rightarrow> (\<exists>d. st = flags True False d) | _ \<Rightarrow> False)
      | RWoke \<Rightarrow> state_word s = flags True False (rx_gone s) \<and> was_woken s \<and> discarded s = [] \<and>
          (case opc s of
             OBatched \<Rightarrow> rx_mem s = Some (Some v) \<and> returned s = []
           | OSpin st \<Rightarrow> (\<exists>d. st = flags True False d) \<and> rx_mem s = Some (Some v) \<and> returned s = []
           | ODropped \<Rightarrow> False
           | OReceived \<Rightarrow> returned s = [v])
      | RDone \<Rightarrow>
          (reused s \<or> state_word s = flags False True (rx_gone s)) \<and> was_woken s \<and>
            (case opc s of
               OBatched \<Rightarrow> rx_mem s = Some (Some v) \<and> returned s = [] \<and> discarded s = []
             | OSpin st \<Rightarrow> (reused s \<or> (\<exists>d. st = flags True False d \<or> st = flags False True d)) \<and>
                 rx_mem s = Some (Some v) \<and> returned s = [] \<and> discarded s = []
             | ODropped \<Rightarrow> returned s = [] \<and>
                 (discarded s = (if drops then [v] else []) \<or> reused s \<and> discarded s = [])
             | OReceived \<Rightarrow> returned s = [v] \<and> discarded s = []) \<or>
          (reused s \<or> state_word s = flags True False True) \<and> \<not> was_woken s \<and> returned s = [] \<and> discarded s = [v] \<and>
            (case opc s of OSpin st \<Rightarrow> (\<exists>d. st = flags False False d) | ODropped \<Rightarrow> True | _ \<Rightarrow> False)
      | RDropped \<Rightarrow> (reused s \<or> state_word s = flags False False (rx_gone s)) \<and> \<not> was_woken s \<and>
          returned s = [] \<and> discarded s = [] \<and>
          (case opc s of OBatched \<Rightarrow> rx_mem s = Some None
             | OSpin st \<Rightarrow> (\<exists>d. st = flags False False d) \<and> rx_mem s = Some None
             | ODropped \<Rightarrow> True | OReceived \<Rightarrow> False))"

lemma race_inv_start: "race_inv v drops (race_start v)"
  by (simp add: race_inv_def race_start_def rx_gone_def flags_0)

lemma race_inv_step:
  assumes "race_step drops s s'" "race_inv v drops s"
  shows "race_inv v drops s'"
  using assms
proof (cases rule: race_step.cases)
  case (begin_setting u)
  then show ?thesis using assms(2)
    by (auto simp: race_inv_def rx_gone_def flag_simps split: owner_pc.splits)
next
  case (write_value state u)
  then show ?thesis using assms(2)
    by (auto simp: race_inv_def rx_gone_def flag_simps split: owner_pc.splits)
next
  case (discard_value state u)
  then show ?thesis using assms(2)
    by (auto simp: race_inv_def rx_gone_def flag_simps split: owner_pc.splits)
next
  case wake
  then show ?thesis using assms(2)
    by (auto simp: race_inv_def rx_gone_def flag_simps split: owner_pc.splits)
next
  case finish_setting
  then show ?thesis using assms(2)
    by (auto simp: race_inv_def rx_gone_def flag_simps split: owner_pc.splits)
next
  case (poll_value u)
  then show ?thesis using assms(2)
    by (auto simp: race_inv_def rx_gone_def flag_simps split: resolver_pc.splits)
next
  case poll_uninit
  then show ?thesis using assms(2)
    by (auto simp: race_inv_def rx_gone_def flag_simps split: resolver_pc.splits)
next
  case begin_drop
  then show ?thesis using assms(2)
    by (auto simp: race_inv_def rx_gone_def flag_simps split: resolver_pc.splits)
next
  case (spin state)
  then show ?thesis using assms(2)
    by (auto simp: race_inv_def rx_gone_def flag_simps split: resolver_pc.splits)
next
  case (drop_value state)
  then show ?thesis using assms(2)
    by (auto simp: race_inv_def rx_gone_def flag_simps split: resolver_pc.splits)
next
  case (drop_only state)
  then show ?thesis using assms(2)
    by (auto simp: race_inv_def rx_gone_def flag_simps split: resolver_pc.splits)
next
  case (drop_task u)
  then show ?thesis using assms(2)
    by (auto simp: race_inv_def rx_gone_def flag_simps split: owner_pc.splits)
next
  case (reuse w)
  then show ?thesis using assms(2)
    by (auto simp: race_inv_def rx_gone_def through_def split: owner_pc.splits)
qed

lemma race_inv_reachable: "race_reachable drops v s \<Longrightarrow> race_inv v drops s"
  by (induction rule: race_reachable.induct) (auto intro: race_inv_start race_inv_step)

section \<open>Safety\<close>

text \<open>
  C10. However the two threads interleave, with polls only after the wake-up and a destructor that begins
  before the cell is reused, no access finds the receiver's memory gone or
  uninitialised, and the value is returned or dropped at most once.
\<close>

theorem race_safe:
  assumes "race_reachable drops v s"
  shows "\<not> broken s \<and> (returned s @ discarded s = [] \<or> returned s @ discarded s = [v])"
  using race_inv_reachable [OF assms]
  by (auto simp: race_inv_def split: resolver_pc.splits owner_pc.splits if_splits)

text \<open>
  C11. When both are through, in a race with the same provisos, the value went to exactly one place: to the poll that returned it, or to
  a drop, by the resolver if the receiver was gone first; unless the task was dropped before, and
  there never was a value. A value that was set, of a future that is
  dropped unpolled, is forgotten when the type of tasks needs no drop, or when the cell was reused
  while the destructor was running.
\<close>

theorem race_outcome:
  assumes "race_reachable drops v s" "through (rpc s)" "opc s = OReceived \<or> opc s = ODropped"
  shows "returned s = (if opc s = OReceived then [v] else []) \<and>
    (discarded s = (if opc s = ODropped \<and> (drops \<or> \<not> was_woken s) \<and> rpc s = RDone then [v] else []) \<or>
     discarded s = [] \<and> opc s = ODropped \<and> was_woken s \<and> reused s)"
  using race_inv_reachable [OF assms(1)] assms(2,3)
  by (auto simp: race_inv_def through_def)

section \<open>Progress\<close>

text \<open>The steps each thread has left at most, but for the spin loop.\<close>

definition resolver_left :: "'v resolver_pc \<Rightarrow> nat" where
  "resolver_left pc = (case pc of RBegin _ \<Rightarrow> 4 | RLoaded _ _ \<Rightarrow> 3 | RWrote \<Rightarrow> 2 | RWoke \<Rightarrow> 1 | _ \<Rightarrow> 0)"

definition owner_left :: "owner_pc \<Rightarrow> nat" where
  "owner_left pc = (case pc of
     OBatched \<Rightarrow> 3
   | OSpin st \<Rightarrow> if st AND SETTING_VALUE = SETTING_VALUE then 2 else 1
   | _ \<Rightarrow> 0)"

text \<open>
  C19. The destructor waits for the resolver and, once its cell is reused, for the resolvers of later
  tasks, and for nothing else: every step brings one of the two threads nearer to its end, except
  a round of the spin loop while the resolver still has a step to do or after the cell was reused;
  and until the resolver is through it can always do a step.
\<close>

theorem race_progress:
  assumes "race_reachable drops v s"
  shows "(\<forall>s'. race_step drops s s' \<longrightarrow>
      resolver_left (rpc s') + owner_left (opc s') < resolver_left (rpc s) + owner_left (opc s) \<or>
      (rpc s' = rpc s \<and> (\<not> through (rpc s) \<or> reused s) \<and> (\<exists>st st'. opc s = OSpin st \<and> opc s' = OSpin st')) \<or>
      (rpc s' = rpc s \<and> opc s' = opc s \<and> through (rpc s) \<and> reused s')) \<and>
    (\<not> through (rpc s) \<longrightarrow> (\<exists>s'. race_step drops s s' \<and> opc s' = opc s \<and> rpc s' \<noteq> rpc s))"
proof (intro conjI allI impI)
  fix s'
  assume "race_step drops s s'"
  then show "resolver_left (rpc s') + owner_left (opc s') < resolver_left (rpc s) + owner_left (opc s) \<or>
      (rpc s' = rpc s \<and> (\<not> through (rpc s) \<or> reused s) \<and> (\<exists>st st'. opc s = OSpin st \<and> opc s' = OSpin st')) \<or>
      (rpc s' = rpc s \<and> opc s' = opc s \<and> through (rpc s) \<and> reused s')"
    using race_inv_reachable [OF assms]
    by (cases rule: race_step.cases)
      (auto simp: resolver_left_def owner_left_def race_inv_def rx_gone_def flag_simps through_def
        split: resolver_pc.splits)
next
  assume "\<not> through (rpc s)"
  then show "\<exists>s'. race_step drops s s' \<and> opc s' = opc s \<and> rpc s' \<noteq> rpc s"
  proof (cases "rpc s")
    case (RBegin u)
    from race_step.begin_setting [OF this] RBegin show ?thesis by fastforce
  next
    case (RLoaded state u)
    show ?thesis
    proof (cases "state AND RX_DROPPED = 0")
      case True
      from race_step.write_value [OF RLoaded True] RLoaded show ?thesis by fastforce
    next
      case False
      from race_step.discard_value [OF RLoaded False] RLoaded show ?thesis by fastforce
    qed
  next
    case RWrote
    from race_step.wake [OF this] RWrote show ?thesis by fastforce
  next
    case RWoke
    from race_step.finish_setting [OF this] RWoke show ?thesis by fastforce
  qed simp_all
qed

section \<open>A value that is forgotten\<close>

text \<open>
  C34. A destructor that came after the resolver began spins until the value is set. If it is slow and
  its cell is reused before its next load, it reads the new task's state, which was set to zero:
  not \<open>VALUE_SET\<close>, so that the value is neither returned nor dropped, although its type needs it.
\<close>

theorem value_leaked_on_reuse:
  "\<exists>s. race_reachable True v s \<and> rpc s = RDone \<and> opc s = ODropped \<and> was_woken s \<and>
    returned s = [] \<and> discarded s = []"
proof -
  let ?f = "flags"
  let ?s0 = "race_start v"
  let ?s1 = "?s0\<lparr>state_word := ?f True False False, rpc := RLoaded (?f False False False) v\<rparr>"
  let ?s2 = "?s1\<lparr>opc := OSpin (?f True False False), state_word := ?f True False True\<rparr>"
  let ?s3 = "?s2\<lparr>rpc := RWrote, broken := broken ?s2 \<or> rx_mem ?s2 = None,
    rx_mem := if rx_mem ?s2 = None then None else Some (Some v)\<rparr>"
  let ?s4 = "?s3\<lparr>rpc := RWoke, broken := broken ?s3 \<or> rx_mem ?s3 = None, was_woken := True\<rparr>"
  let ?s5 = "?s4\<lparr>rpc := RDone, state_word := ?f False True True\<rparr>"
  let ?s6 = "?s5\<lparr>reused := True, state_word := ?f False False False\<rparr>"
  let ?s7 = "?s6\<lparr>opc := OSpin (?f False False False)\<rparr>"
  let ?s8 = "?s7\<lparr>opc := ODropped, rx_mem := None\<rparr>"
  note word = race_start_def flags_0 [symmetric]
  have "race_step True ?s0 ?s1"
    using race_step.begin_setting [of ?s0 v True] by (simp add: word flag_simps)
  moreover have "race_step True ?s1 ?s2"
    using race_step.begin_drop [of ?s1 True] by (simp add: word flag_simps)
  moreover have "race_step True ?s2 ?s3"
    by (rule race_step.write_value [of _ "?f False False False"]) (simp_all add: flag_simps)
  moreover have "race_step True ?s3 ?s4" by (rule race_step.wake) simp
  moreover have "race_step True ?s4 ?s5"
    using race_step.finish_setting [of ?s4 True] by (simp add: flag_simps)
  moreover have "race_step True ?s5 ?s6" by (rule race_step.reuse) simp
  moreover have "race_step True ?s6 ?s7"
    using race_step.spin [of ?s6 "?f True False False" True] by (simp add: flag_simps)
  moreover have "race_step True ?s7 ?s8"
    by (rule race_step.drop_only [of _ "?f False False False"]) (simp_all add: flag_simps)
  ultimately have "race_reachable True v ?s8" by (meson race_reachable.intros)
  then show ?thesis by (rule exI [of _ ?s8, OF conjI]) (simp add: race_start_def)
qed

section \<open>The steps are those of the code\<close>

text \<open>
  C20. Run without interference, the resolver's steps are \<open>resolve_unchecked\<close>: the same word, the same
  value in the receiver, the same value dropped, the waker woken in the same case.
\<close>

theorem resolver_steps_refine:
  fixes futs :: "(64 word, 't, 'v, 'wk, 'f) futures"
  assumes "resolve_unchecked v cell futs = Inr (ws, vs, cell', futs')" "tr_rx cell = Some f"
    and "futs f = Some (Batched rx)" "rpc s = RBegin v" "state_word s = tr_state cell"
    and "rx_mem s = Some (rx_value rx)" "discarded s = []" "\<not> was_woken s"
  shows "\<exists>s'. (race_step drops)\<^sup>*\<^sup>* s s' \<and> rpc s' = RDone \<and> opc s' = opc s \<and> state_word s' = tr_state cell' \<and>
    discarded s' = vs \<and> was_woken s' = (ws \<noteq> []) \<and>
    (\<exists>rx'. futs' f = Some (Batched rx') \<and> rx_mem s' = Some (rx_value rx'))"
proof -
  let ?s1 = "s\<lparr>state_word := state_word s OR SETTING_VALUE, rpc := RLoaded (state_word s) v\<rparr>"
  have 1: "race_step drops s ?s1" by (rule race_step.begin_setting [OF assms(4)])
  show ?thesis
  proof (cases "state_word s AND RX_DROPPED = 0")
    case False
    have "race_step drops ?s1 (?s1\<lparr>rpc := RDone, discarded := v # discarded ?s1\<rparr>)"
      using False by (intro race_step.discard_value [of _ "state_word s"]) simp_all
    with 1 have "(race_step drops)\<^sup>*\<^sup>* s (?s1\<lparr>rpc := RDone, discarded := v # discarded ?s1\<rparr>)"
      by (meson converse_rtranclp_into_rtranclp r_into_rtranclp)
    moreover have "ws = [] \<and> vs = [v] \<and> futs' = futs \<and> tr_state cell' = state_word s OR SETTING_VALUE"
      using assms(1,5) False by (auto simp: resolve_unchecked_def Let_def)
    ultimately show ?thesis using assms by fastforce
  next
    case True
    let ?s2 = "?s1\<lparr>rpc := RWrote, broken := broken ?s1 \<or> rx_mem ?s1 = None,
      rx_mem := if rx_mem ?s1 = None then None else Some (Some v)\<rparr>"
    let ?s3 = "?s2\<lparr>rpc := RWoke, broken := broken ?s2 \<or> rx_mem ?s2 = None, was_woken := True\<rparr>"
    let ?s4 = "?s3\<lparr>rpc := RDone, state_word := state_word ?s3 XOR (SETTING_VALUE OR VALUE_SET)\<rparr>"
    have "race_step drops ?s1 ?s2"
      using True by (intro race_step.write_value [of _ "state_word s" v]) simp_all
    moreover have "race_step drops ?s2 ?s3" by (rule race_step.wake) simp
    moreover have "race_step drops ?s3 ?s4" by (rule race_step.finish_setting) simp
    ultimately have "(race_step drops)\<^sup>*\<^sup>* s ?s4"
      using 1 by (meson converse_rtranclp_into_rtranclp r_into_rtranclp)
    moreover have "ws = [rx_waker rx] \<and> vs = [] \<and> futs' f = Some (Batched (rx\<lparr>rx_value := Some v\<rparr>)) \<and>
        tr_state cell' = (state_word s OR SETTING_VALUE) XOR (SETTING_VALUE OR VALUE_SET)"
      using assms(1-3,5) True by (auto simp: resolve_unchecked_def Let_def)
    ultimately show ?thesis using assms by fastforce
  qed
qed

text \<open>
  C21. And the owner's steps are the destructor of \<open>BatchedTask\<close>: whenever that returns, they lead to
  the same word, the same value dropped and the receiver deallocated.
\<close>

theorem dropper_steps_refine:
  fixes cell :: "(64 word, 't, 'f) task_ref"
  assumes "batched_task_drop drops (Batched rx :: (64 word, 't, 'v, 'wk) batched_task) cell = Inr (vs, cell')"
    and "opc s = OBatched" "state_word s = tr_state cell" "rx_mem s = Some (rx_value rx)" "\<not> reused s"
  shows "\<exists>s'. (race_step drops)\<^sup>*\<^sup>* s s' \<and> opc s' = ODropped \<and> rpc s' = rpc s \<and>
    state_word s' = tr_state cell' \<and> discarded s' = vs @ discarded s \<and> rx_mem s' = None \<and>
    broken s' = broken s"
proof -
  let ?w = "state_word s"
  let ?s1 = "s\<lparr>opc := OSpin ?w, state_word := ?w OR RX_DROPPED\<rparr>"
  have clear: "?w AND SETTING_VALUE \<noteq> SETTING_VALUE"
  proof
    assume set: "?w AND SETTING_VALUE = SETTING_VALUE"
    moreover have "(RX_DROPPED :: 64 word) AND SETTING_VALUE = 0" by (simp add: flag_defs)
    ultimately have "(?w OR RX_DROPPED) AND SETTING_VALUE = SETTING_VALUE"
      by (simp add: bit.conj_disj_distrib2)
    with set have "spin_loop (\<lambda>_. ?w OR RX_DROPPED) 0 ?w = None" by (intro spin_loop_stuck)
    then show False using assms(1,3) by (simp add: batched_task_drop_def Let_def)
  qed
  have 1: "race_step drops s ?s1" by (rule race_step.begin_drop [OF assms(2,5)])
  show ?thesis
  proof (cases "drops \<and> ?w AND VALUE_SET = VALUE_SET")
    case True
    then obtain v where v: "rx_value rx = Some v" "vs = [v]" "cell' = cell\<lparr>tr_state := ?w OR RX_DROPPED\<rparr>"
      using assms(1,3) clear by (auto simp: batched_task_drop_def Let_def split: option.splits)
    let ?s2 = "?s1\<lparr>opc := ODropped, rx_mem := None, broken := broken ?s1 \<or> rx_mem ?s1 \<in> {None, Some None},
      discarded := (case rx_mem ?s1 of Some (Some v) \<Rightarrow> v # discarded ?s1 | _ \<Rightarrow> discarded ?s1)\<rparr>"
    have "race_step drops ?s1 ?s2"
      using True clear by (intro race_step.drop_value [of _ ?w]) simp_all
    with 1 have "(race_step drops)\<^sup>*\<^sup>* s ?s2" by (meson converse_rtranclp_into_rtranclp r_into_rtranclp)
    with v assms(4) show ?thesis by (intro exI [of _ ?s2]) simp
  next
    case False
    then have v: "vs = []" "cell' = cell\<lparr>tr_state := ?w OR RX_DROPPED\<rparr>"
      using assms(1,3) clear by (auto simp: batched_task_drop_def Let_def split: if_splits)
    let ?s2 = "?s1\<lparr>opc := ODropped, rx_mem := None\<rparr>"
    have "race_step drops ?s1 ?s2"
      using False clear by (intro race_step.drop_only [of _ ?w]) simp_all
    with 1 have "(race_step drops)\<^sup>*\<^sup>* s ?s2" by (meson converse_rtranclp_into_rtranclp r_into_rtranclp)
    with v show ?thesis by (intro exI [of _ ?s2]) simp
  qed
qed

section \<open>Witnesses\<close>

text \<open>A run in which the future is dropped first, and the resolver drops the value.\<close>

definition dropped_first :: "nat race" where
  "dropped_first = \<lparr>state_word = flags True False True, rx_mem = None, rpc = RDone, opc = ODropped,
     was_woken = False, returned = [], discarded = [5], broken = False, reused = False\<rparr>"

lemma dropped_first_reachable: "race_reachable True 5 dropped_first"
proof -
  let ?s0 = "race_start 5 :: nat race"
  let ?s1 = "?s0\<lparr>opc := OSpin (state_word ?s0), state_word := state_word ?s0 OR RX_DROPPED\<rparr>"
  let ?s2 = "?s1\<lparr>opc := ODropped, rx_mem := None\<rparr>"
  let ?s3 = "?s2\<lparr>state_word := state_word ?s2 OR SETTING_VALUE, rpc := RLoaded (state_word ?s2) 5\<rparr>"
  let ?s4 = "?s3\<lparr>rpc := RDone, discarded := 5 # discarded ?s3\<rparr>"
  have w: "state_word ?s0 = flags False False False" by (simp add: race_start_def flags_0)
  have "race_step True ?s0 ?s1" by (rule race_step.begin_drop) (simp_all add: race_start_def)
  moreover have "race_step True ?s1 ?s2"
    by (rule race_step.drop_only [of _ "flags False False False"]) (simp_all add: w flag_simps)
  moreover have "race_step True ?s2 ?s3" by (rule race_step.begin_setting) (simp add: race_start_def)
  moreover have "race_step True ?s3 ?s4"
    by (rule race_step.discard_value [of _ "state_word ?s2"]) (simp_all add: w flag_simps)
  ultimately have "race_reachable True 5 ?s4" by (meson race_reachable.intros)
  moreover have "?s4 = dropped_first"
    by (simp add: dropped_first_def w flag_simps) (simp add: race_start_def)
  ultimately show ?thesis by simp
qed

theorem race_safe_witness: "\<not> broken dropped_first \<and>
    (returned dropped_first @ discarded dropped_first = [] \<or> returned dropped_first @ discarded dropped_first = [5])"
  using race_safe [OF dropped_first_reachable] .

theorem race_outcome_witness: "discarded dropped_first = [5]"
proof -
  have "rpc dropped_first = RDone" "through (rpc dropped_first)" "opc dropped_first = ODropped" "\<not> was_woken dropped_first"
    by (simp_all add: dropped_first_def)
  with race_outcome [OF dropped_first_reachable] show ?thesis by simp
qed

theorem race_progress_witness: "\<exists>s'. race_step True (race_start (5 :: nat)) s' \<and> rpc s' \<noteq> rpc (race_start (5 :: nat))"
proof -
  have "\<not> through (rpc (race_start (5 :: nat)))" by (simp add: race_start_def)
  with race_progress [OF race_reachable.start [of True "5 :: nat"]] show ?thesis by blast
qed

theorem resolver_steps_refine_witness:
  "\<exists>s'. (race_step True)\<^sup>*\<^sup>* (race_start (5 :: nat)) s' \<and> rpc s' = RDone \<and> was_woken s'"
proof -
  let ?rx = "receiver_new 0 ''w'' :: (64 word, nat, string) receiver"
  have "resolve_unchecked 5 (task_cell () () False) [() \<mapsto> Batched ?rx] = Inr ([''w''], [],
      (task_cell () () False)\<lparr>tr_state := flags False True False\<rparr>, deliver [() \<mapsto> Batched ?rx] () ?rx 5)"
    using resolve_live [of "task_cell () () False" "()" "[() \<mapsto> Batched ?rx]" ?rx 5]
    by (simp add: task_cell_def receiver_new_def)
  from resolver_steps_refine [OF this, of "()" ?rx "race_start 5" True]
  show ?thesis by (fastforce simp: race_start_def task_cell_def flags_0 receiver_new_def)
qed

theorem dropper_steps_refine_witness:
  "\<exists>s'. (race_step True)\<^sup>*\<^sup>* (race_start (5 :: nat)) s' \<and> opc s' = ODropped \<and> rpc s' = RBegin 5"
proof -
  let ?rx = "receiver_new 0 ''w'' :: (64 word, nat, string) receiver"
  have "batched_task_drop True (Batched ?rx :: (64 word, unit, nat, string) batched_task)
      (task_cell () () False :: (64 word, unit, unit) task_ref) = Inr ([], task_cell () () True)"
    by (simp add: batched_task_drop_def task_cell_def flag_simps Let_def)
  from dropper_steps_refine [OF this, of "race_start 5"]
  show ?thesis by (fastforce simp: race_start_def task_cell_def flags_0 receiver_new_def)
qed

end
