(* ===== verification/TaskSystem.thy ===== *)
theory TaskSystem
  imports Interleaving Negotiation
begin

unbundle bit_operations_syntax

text \<open>
  A \<open>TaskQueue\<close> at work: the thread that owns the queue polls futures, which enqueues their tasks;
  other threads hold batches and resolve their tasks with \<open>map\<close>; and whoever has a future polls it
  again when it was woken, or drops it. Every step has at most one atomic operation, and the
  operations are those of the component theories, on the same cells and futures.

  The steps are related to two smaller systems: without the state words and the receivers they are
  steps of \<open>Interleaving\<close> (\<open>shared\<close>, below), and seen from a single task they are steps of the race of
  \<open>Negotiation\<close>.
\<close>

section \<open>State\<close>

text \<open>
  The first five fields are those of \<open>Interleaving\<close>, for tasks with the addresses of their futures.
  \<open>ts_resolver j\<close> is where the thread that has batch \<open>j\<close> is in \<open>resolve_unchecked\<close>, or \<open>RDropped\<close> if the
  assignment is being dropped, or was; \<open>ts_dropping f\<close> what
  the destructor of the future \<open>f\<close> read last, if it is running. What was returned by polls and what
  values were dropped is recorded with the future they were meant for. An address is used for one
  future only; a future that returned its value stays, as \<open>Received\<close>.
\<close>

record ('f, 't, 'v, 'wk, 'd) task_system =
  ts_queue :: "(64 word, (64 word, 't, 'f) task_ref, 'd) stack_queue"
  ts_owner :: "('f \<times> 't, 'wk) owner_step"
  ts_log :: "('f \<times> 't) list"
  ts_batches :: "('f \<times> 't) batch list"
  ts_failed :: bool
  ts_resolver :: "nat \<Rightarrow> 'v resolver_pc"
  ts_futures :: "(64 word, 't, 'v, 'wk, 'f) futures"
  ts_dropping :: "'f \<rightharpoonup> 64 word"
  ts_woken :: "'f set"
  ts_returned :: "('f \<times> 'v) list"
  ts_discarded :: "('f \<times> 'v) list"

definition cell_at :: "nat \<Rightarrow> ('u, 'c, 'd) stack_queue \<Rightarrow> 'c" where
  "cell_at i q = buffer (inner q) ! i"

definition set_cell :: "nat \<Rightarrow> 'c \<Rightarrow> ('u, 'c, 'd) stack_queue \<Rightarrow> ('u, 'c, 'd) stack_queue" where
  "set_cell i c q = set_inner q ((inner q)\<lparr>buffer := (buffer (inner q))[i := c]\<rparr>)"

text \<open>The cell batch \<open>j\<close> is resolving: that of the task it took last.\<close>

definition resolving :: "64 word \<Rightarrow> ('f \<times> 't) batch list \<Rightarrow> nat \<Rightarrow> nat option" where
  "resolving N bs j =
     (if j < length bs then
        case stage (bs ! j) of
          Mapping ta ts \<Rightarrow> if ts = [] then None else Some (assignment_tasks N ta ! (length ts - 1))
        | _ \<Rightarrow> None
      else None)"

text \<open>A future inside \<open>poll\<close> is borrowed: nobody else polls or drops it.\<close>

definition in_poll :: "('f \<times> 't, 'wk) owner_step \<Rightarrow> 'f \<Rightarrow> bool" where
  "in_poll ow f \<longleftrightarrow> (case ow of Checked x \<Rightarrow> fst x = f | Written x \<Rightarrow> fst x = f | _ \<Rightarrow> False)"

section \<open>Steps\<close>

text \<open>
  The first poll of a future (\<open>poll_free\<close> to \<open>poll_occupies\<close>) is \<open>BatchedTask::poll\<close> in the state
  \<open>Unbatched\<close> with \<open>StackQueue::enqueue\<close>; \<open>task_bound\<close> to \<open>map_releases\<close> are \<open>into_assignment\<close> and
  \<open>TaskAssignment::map\<close>, of which \<open>resolve_begins\<close> to \<open>resolve_finishes\<close> are \<open>resolve_unchecked\<close>, and,
  with \<open>drop_starts\<close> and \<open>drop_takes\<close> in place of \<open>map_starts\<close> and \<open>map_takes\<close>, the destructors of
  \<open>PendingAssignment\<close> and \<open>TaskAssignment\<close>: a task that needs no drop is left in its cell, which nobody
  reads before it is written again, and counts as taken too; \<open>poll_ready\<close> is \<open>poll\<close>
  in the state \<open>Batched\<close>; and the last steps are the destructor of \<open>BatchedTask\<close>.
  A future that was enqueued is polled again only after it was woken, and dropped only while the
  cell is still its own: this is what the code relies on.

  \<open>op (f, t)\<close> is the value that is computed of the task \<open>t\<close> of the future \<open>f\<close>. It is any function, and a
  future has one task, so a closure that keeps state is covered, and so is \<open>resolve_with_iter\<close> as
  long as the iterator has enough values.
\<close>

inductive task_step ::
    "('f \<times> 't \<Rightarrow> 'v) \<Rightarrow> bool \<Rightarrow> ('d \<Rightarrow> 'wk \<Rightarrow> 'd) \<Rightarrow> ('d \<Rightarrow> 'wk steal \<times> 'd) \<Rightarrow> 64 word
      \<Rightarrow> ('f, 't, 'v, 'wk, 'd) task_system \<Rightarrow> ('f, 't, 'v, 'wk, 'd) task_system \<Rightarrow> bool"
  for op :: "'f \<times> 't \<Rightarrow> 'v" and drops :: bool and dpush :: "'d \<Rightarrow> 'wk \<Rightarrow> 'd"
    and steal :: "'d \<Rightarrow> 'wk steal \<times> 'd" and N :: "64 word" where
  poll_free:
    "ts_owner s = Idle \<Longrightarrow> ts_futures s f = Some (Unbatched t) \<Longrightarrow>
     region_check N (current_write_index N (ts_queue s)) (ts_queue s) = (Inr (), q) \<Longrightarrow>
     task_step op drops dpush steal N s (s\<lparr>ts_queue := q, ts_owner := Checked (f, t)\<rparr>)"
| poll_full:
    "ts_owner s = Idle \<Longrightarrow> ts_futures s f = Some (Unbatched t) \<Longrightarrow>
     region_check N (current_write_index N (ts_queue s)) (ts_queue s) = (Inl QueueFull, q) \<Longrightarrow>
     task_step op drops dpush steal N s (s\<lparr>ts_queue := q, ts_owner := Parking waker\<rparr>)"
| poll_parks:
    "ts_owner s = Parking waker \<Longrightarrow>
     task_step op drops dpush steal N s
       (s\<lparr>ts_queue := pending_push dpush waker (ts_queue s), ts_owner := Idle\<rparr>)"
| poll_writes:
    "ts_owner s = Checked (f, t) \<Longrightarrow> i = current_write_index N (ts_queue s) \<Longrightarrow>
     write_task f waker i (cell_at (unat i) (ts_queue s)) (ts_futures s) = (cell, futs) \<Longrightarrow>
     task_step op drops dpush steal N s
       (s\<lparr>ts_queue := set_cell (unat i) cell (ts_queue s), ts_futures := futs, ts_owner := Written (f, t),
          ts_failed := ts_failed s \<or> length (buffer (inner (ts_queue s))) \<le> unat i\<rparr>)"
| poll_joins:
    "ts_owner s = Written x \<Longrightarrow> claim_slot (ts_queue s) = (base, prev, q) \<Longrightarrow>
     (base XOR prev) AND PHASE = 0 \<Longrightarrow>
     task_step op drops dpush steal N s (s\<lparr>ts_queue := q, ts_owner := Idle, ts_log := ts_log s @ [x]\<rparr>)"
| poll_opens:
    "ts_owner s = Written x \<Longrightarrow> claim_slot (ts_queue s) = (base, prev, q) \<Longrightarrow>
     (base XOR prev) AND PHASE \<noteq> 0 \<Longrightarrow>
     task_step op drops dpush steal N s
       (s\<lparr>ts_queue := q, ts_owner := Occupying (current_write_index N (ts_queue s)), ts_log := ts_log s @ [x],
          ts_batches := ts_batches s @
            [\<lparr>first = length (ts_log s), ended = None, stage = Claimed \<lparr>ur_base_slot = base\<rparr>\<rparr>]\<rparr>)"
| poll_occupies:
    "ts_owner s = Occupying i \<Longrightarrow> j < length (ts_batches s) \<Longrightarrow> stage (ts_batches s ! j) = Claimed ur \<Longrightarrow>
     task_step op drops dpush steal N s
       (s\<lparr>ts_queue := occupy_region N i (ts_queue s), ts_owner := Idle,
          ts_batches := set_stage j (Unbounded ur) (ts_batches s)\<rparr>)"
| task_bound:
    "j < length (ts_batches s) \<Longrightarrow> stage (ts_batches s ! j) = Unbounded ur \<Longrightarrow>
     into_assignment \<lparr>pa_base_slot = ur_base_slot ur\<rparr> (inner (ts_queue s)) = (ta, s') \<Longrightarrow>
     task_step op drops dpush steal N s
       (s\<lparr>ts_queue := set_inner (ts_queue s) s',
          ts_batches := (ts_batches s)[j := (ts_batches s ! j)\<lparr>stage := Bounded ta, ended := Some (length (ts_log s))\<rparr>]\<rparr>)"
| map_starts:
    "j < length (ts_batches s) \<Longrightarrow> stage (ts_batches s ! j) = Bounded ta \<Longrightarrow>
     task_step op drops dpush steal N s
       (s\<lparr>ts_batches := set_stage j (Mapping ta []) (ts_batches s), ts_resolver := (ts_resolver s)(j := RDone)\<rparr>)"
| map_takes:
    "j < length (ts_batches s) \<Longrightarrow> stage (ts_batches s ! j) = Mapping ta ts \<Longrightarrow> ts_resolver s j = RDone \<Longrightarrow>
     length ts < length (assignment_tasks N ta) \<Longrightarrow> i = assignment_tasks N ta ! length ts \<Longrightarrow>
     take_task_unchecked (cell_at i (ts_queue s)) = Inr (t, cell) \<Longrightarrow>
     task_step op drops dpush steal N s
       (s\<lparr>ts_queue := set_cell i cell (ts_queue s),
          ts_batches := set_stage j (Mapping ta (ts @ [(the (tr_rx cell), t)])) (ts_batches s),
          ts_resolver := (ts_resolver s)(j := RBegin (op (the (tr_rx cell), t)))\<rparr>)"
| drop_starts:
    "j < length (ts_batches s) \<Longrightarrow> stage (ts_batches s ! j) = Bounded ta \<Longrightarrow>
     task_step op drops dpush steal N s
       (s\<lparr>ts_batches := set_stage j (Mapping ta []) (ts_batches s), ts_resolver := (ts_resolver s)(j := RDropped)\<rparr>)"
| drop_takes:
    "j < length (ts_batches s) \<Longrightarrow> stage (ts_batches s ! j) = Mapping ta ts \<Longrightarrow> ts_resolver s j = RDropped \<Longrightarrow>
     length ts < length (assignment_tasks N ta) \<Longrightarrow> i = assignment_tasks N ta ! length ts \<Longrightarrow>
     take_task_unchecked (cell_at i (ts_queue s)) = Inr (t, cell) \<Longrightarrow>
     task_step op drops dpush steal N s
       (s\<lparr>ts_queue := set_cell i cell (ts_queue s),
          ts_batches := set_stage j (Mapping ta (ts @ [(the (tr_rx cell), t)])) (ts_batches s)\<rparr>)"
| take_fails:
    "j < length (ts_batches s) \<Longrightarrow> stage (ts_batches s ! j) = Mapping ta ts \<Longrightarrow> through (ts_resolver s j) \<Longrightarrow>
     length ts < length (assignment_tasks N ta) \<Longrightarrow> i = assignment_tasks N ta ! length ts \<Longrightarrow>
     take_task_unchecked (cell_at i (ts_queue s)) = Inl e \<Longrightarrow>
     task_step op drops dpush steal N s (s\<lparr>ts_failed := True\<rparr>)"
| resolve_begins:
    "resolving N (ts_batches s) j = Some i \<Longrightarrow> ts_resolver s j = RBegin v \<Longrightarrow> cell = cell_at i (ts_queue s) \<Longrightarrow>
     task_step op drops dpush steal N s
       (s\<lparr>ts_queue := set_cell i (cell\<lparr>tr_state := tr_state cell OR SETTING_VALUE\<rparr>) (ts_queue s),
          ts_resolver := (ts_resolver s)(j := RLoaded (tr_state cell) v)\<rparr>)"
| resolve_writes:
    "resolving N (ts_batches s) j = Some i \<Longrightarrow> ts_resolver s j = RLoaded state v \<Longrightarrow> state AND RX_DROPPED = 0 \<Longrightarrow>
     tr_rx (cell_at i (ts_queue s)) = Some f \<Longrightarrow> ts_futures s f = Some (Batched rx) \<Longrightarrow>
     task_step op drops dpush steal N s
       (s\<lparr>ts_futures := deliver (ts_futures s) f rx v, ts_resolver := (ts_resolver s)(j := RWrote)\<rparr>)"
| resolve_dangles:
    "resolving N (ts_batches s) j = Some i \<Longrightarrow>
     (\<exists>state v. ts_resolver s j = RLoaded state v \<and> state AND RX_DROPPED = 0) \<or> ts_resolver s j = RWrote \<Longrightarrow>
     (\<forall>f rx. \<not> (tr_rx (cell_at i (ts_queue s)) = Some f \<and> ts_futures s f = Some (Batched rx))) \<Longrightarrow>
     task_step op drops dpush steal N s (s\<lparr>ts_failed := True\<rparr>)"
| resolve_discards:
    "resolving N (ts_batches s) j = Some i \<Longrightarrow> ts_resolver s j = RLoaded state v \<Longrightarrow> state AND RX_DROPPED \<noteq> 0 \<Longrightarrow>
     task_step op drops dpush steal N s
       (s\<lparr>ts_discarded := (the (tr_rx (cell_at i (ts_queue s))), v) # ts_discarded s,
          ts_resolver := (ts_resolver s)(j := RDone)\<rparr>)"
| resolve_wakes:
    "resolving N (ts_batches s) j = Some i \<Longrightarrow> ts_resolver s j = RWrote \<Longrightarrow>
     tr_rx (cell_at i (ts_queue s)) = Some f \<Longrightarrow> ts_futures s f = Some (Batched rx) \<Longrightarrow>
     task_step op drops dpush steal N s
       (s\<lparr>ts_woken := insert f (ts_woken s), ts_resolver := (ts_resolver s)(j := RWoke)\<rparr>)"
| resolve_finishes:
    "resolving N (ts_batches s) j = Some i \<Longrightarrow> ts_resolver s j = RWoke \<Longrightarrow> cell = cell_at i (ts_queue s) \<Longrightarrow>
     task_step op drops dpush steal N s
       (s\<lparr>ts_queue := set_cell i (cell\<lparr>tr_state := tr_state cell XOR (SETTING_VALUE OR VALUE_SET)\<rparr>) (ts_queue s),
          ts_resolver := (ts_resolver s)(j := RDone)\<rparr>)"
| map_releases:
    "j < length (ts_batches s) \<Longrightarrow> stage (ts_batches s ! j) = Mapping ta ts \<Longrightarrow> through (ts_resolver s j) \<Longrightarrow>
     length ts = length (assignment_tasks N ta) \<Longrightarrow>
     assignment_deoccupy_buffer steal N ta (inner (ts_queue s)) = Inr (woken, s') \<Longrightarrow>
     task_step op drops dpush steal N s
       (s\<lparr>ts_queue := set_inner (ts_queue s) s', ts_batches := set_stage j (Released ts) (ts_batches s)\<rparr>)"
| poll_ready:
    "f \<in> ts_woken s \<Longrightarrow> ts_futures s f = Some (Batched rx) \<Longrightarrow> ts_dropping s f = None \<Longrightarrow> \<not> in_poll (ts_owner s) f \<Longrightarrow>
     batched_task_poll dpush N f waker (ts_queue s) (ts_futures s) = Inr (Ready v, a, q, futs) \<Longrightarrow>
     task_step op drops dpush steal N s
       (s\<lparr>ts_queue := q, ts_futures := futs, ts_returned := (f, v) # ts_returned s\<rparr>)"
| poll_fails:
    "f \<in> ts_woken s \<Longrightarrow> ts_futures s f = Some (Batched rx) \<Longrightarrow> ts_dropping s f = None \<Longrightarrow> \<not> in_poll (ts_owner s) f \<Longrightarrow>
     batched_task_poll dpush N f waker (ts_queue s) (ts_futures s) = Inl e \<Longrightarrow>
     task_step op drops dpush steal N s (s\<lparr>ts_failed := True\<rparr>)"
| drop_unbatched:
    "ts_futures s f = Some (Unbatched t) \<Longrightarrow> \<not> in_poll (ts_owner s) f \<Longrightarrow>
     task_step op drops dpush steal N s (s\<lparr>ts_futures := (ts_futures s)(f := None)\<rparr>)"
| drop_begins:
    "ts_futures s f = Some (Batched rx) \<Longrightarrow> ts_dropping s f = None \<Longrightarrow> \<not> in_poll (ts_owner s) f \<Longrightarrow>
     i = unat (rx_state rx) \<Longrightarrow> cell = cell_at i (ts_queue s) \<Longrightarrow> tr_rx cell = Some f \<Longrightarrow>
     task_step op drops dpush steal N s
       (s\<lparr>ts_queue := set_cell i (cell\<lparr>tr_state := tr_state cell OR RX_DROPPED\<rparr>) (ts_queue s),
          ts_dropping := (ts_dropping s)(f \<mapsto> tr_state cell)\<rparr>)"
| drop_spins:
    "ts_dropping s f = Some state \<Longrightarrow> ts_futures s f = Some (Batched rx) \<Longrightarrow> state AND SETTING_VALUE = SETTING_VALUE \<Longrightarrow>
     task_step op drops dpush steal N s
       (s\<lparr>ts_dropping := (ts_dropping s)(f \<mapsto> tr_state (cell_at (unat (rx_state rx)) (ts_queue s)))\<rparr>)"
| drop_values:
    "ts_dropping s f = Some state \<Longrightarrow> ts_futures s f = Some (Batched rx) \<Longrightarrow> state AND SETTING_VALUE \<noteq> SETTING_VALUE \<Longrightarrow>
     drops \<Longrightarrow> state AND VALUE_SET = VALUE_SET \<Longrightarrow> rx_value rx = Some v \<Longrightarrow>
     task_step op drops dpush steal N s
       (s\<lparr>ts_futures := (ts_futures s)(f := None), ts_dropping := (ts_dropping s)(f := None),
          ts_discarded := (f, v) # ts_discarded s\<rparr>)"
| drop_fails:
    "ts_dropping s f = Some state \<Longrightarrow> ts_futures s f = Some (Batched rx) \<Longrightarrow> state AND SETTING_VALUE \<noteq> SETTING_VALUE \<Longrightarrow>
     drops \<Longrightarrow> state AND VALUE_SET = VALUE_SET \<Longrightarrow> rx_value rx = None \<Longrightarrow>
     task_step op drops dpush steal N s (s\<lparr>ts_failed := True\<rparr>)"
| drop_only:
    "ts_dropping s f = Some state \<Longrightarrow> ts_futures s f = Some (Batched rx) \<Longrightarrow> state AND SETTING_VALUE \<noteq> SETTING_VALUE \<Longrightarrow>
     \<not> (drops \<and> state AND VALUE_SET = VALUE_SET) \<Longrightarrow>
     task_step op drops dpush steal N s
       (s\<lparr>ts_futures := (ts_futures s)(f := None), ts_dropping := (ts_dropping s)(f := None)\<rparr>)"

text \<open>At the start there are futures, none of them polled, and a new queue.\<close>

definition task_start ::
    "(64 word, (64 word, 't, 'f) task_ref, 'd) stack_queue \<Rightarrow> (64 word, 't, 'v, 'wk, 'f) futures
      \<Rightarrow> ('f, 't, 'v, 'wk, 'd) task_system" where
  "task_start q futs = \<lparr>ts_queue = q, ts_owner = Idle, ts_log = [], ts_batches = [], ts_failed = False,
     ts_resolver = (\<lambda>_. RDone), ts_futures = futs, ts_dropping = Map.empty, ts_woken = {},
     ts_returned = [], ts_discarded = []\<rparr>"

section \<open>What the queue sees of it\<close>

text \<open>
  A cell holds a task, with the address of its future, until the task is taken out.
\<close>

definition task_in :: "('u, 't, 'f) task_ref \<Rightarrow> ('f \<times> 't) option" where
  "task_in cell = (case (tr_rx cell, tr_task cell) of (Some f, Some t) \<Rightarrow> Some (f, t) | _ \<Rightarrow> None)"

definition map_inner :: "('c \<Rightarrow> 'e) \<Rightarrow> ('u, 'c, 'd) inner \<Rightarrow> ('u, 'e, 'd) inner" where
  "map_inner g s = \<lparr>slot = slot s, occupancy = occupancy s, buffer = map g (buffer s), stealer = stealer s\<rparr>"

definition map_queue :: "('c \<Rightarrow> 'e) \<Rightarrow> ('u, 'c, 'd) stack_queue \<Rightarrow> ('u, 'e, 'd) stack_queue" where
  "map_queue g q = \<lparr>own_slot = own_slot q, own_occupancy = own_occupancy q, inner = map_inner g (inner q)\<rparr>"

definition shared :: "('f, 't, 'v, 'wk, 'd) task_system \<Rightarrow> ('f \<times> 't, 'd, 'wk) system" where
  "shared s = \<lparr>sys_queue = map_queue task_in (ts_queue s), owner = ts_owner s, log = ts_log s,
     batches = ts_batches s, failed = False\<rparr>"

lemma map_inner_simps [simp]:
  "slot (map_inner g s) = slot s" "occupancy (map_inner g s) = occupancy s"
  "buffer (map_inner g s) = map g (buffer s)" "stealer (map_inner g s) = stealer s"
  by (simp_all add: map_inner_def)

lemma map_queue_simps [simp]:
  "own_slot (map_queue g q) = own_slot q" "own_occupancy (map_queue g q) = own_occupancy q"
  "inner (map_queue g q) = map_inner g (inner q)"
  by (simp_all add: map_queue_def)

lemma shared_simps [simp]:
  "sys_queue (shared s) = map_queue task_in (ts_queue s)" "owner (shared s) = ts_owner s"
  "log (shared s) = ts_log s" "batches (shared s) = ts_batches s" "failed (shared s) = False"
  by (simp_all add: shared_def)

text \<open>The operations of the queue do not look into the cells.\<close>

lemma map_current_write_index [simp]: "current_write_index N (map_queue g q) = current_write_index N q"
  by (simp add: current_write_index_eq)

lemma map_region_check:
  "region_check N i (map_queue g q) = (fst (region_check N i q), map_queue g (snd (region_check N i q)))"
  by (simp add: region_check_def check_regional_occupancy_def Let_def map_queue_def)

lemma map_claim_slot:
  "claim_slot q = (base, prev, q') \<Longrightarrow> claim_slot (map_queue g q) = (base, prev, map_queue g q')"
  by (auto simp: claim_slot_def replace_slot_def Let_def map_queue_def map_inner_def)

lemma map_occupy_region: "occupy_region N i (map_queue g q) = map_queue g (occupy_region N i q)"
  by (simp add: occupy_region_def Let_def map_queue_def map_inner_def)

lemma map_pending_push: "pending_push dpush w (map_queue g q) = map_queue g (pending_push dpush w q)"
  by (simp add: pending_push_def map_queue_def map_inner_def)

lemma map_set_inner: "set_inner (map_queue g q) (map_inner g s) = map_queue g (set_inner q s)"
  by (simp add: set_inner_def map_queue_def)

lemma map_bound:
  "into_assignment \<lparr>pa_base_slot = ur_base_slot ur\<rparr> s = (ta, s') \<Longrightarrow> into_bounded ur (map_inner g s) = (ta, map_inner g s')"
  by (auto simp: into_assignment_def set_assignment_bounds_def into_bounded_def set_bounds_def Let_def map_inner_def)

lemma map_deoccupy:
  "deoccupy_region steal N i s = Inr (w, s') \<Longrightarrow> deoccupy_region steal N i (map_inner g s) = Inr (w, map_inner g s')"
  by (auto simp: deoccupy_region_def Let_def map_inner_def split: if_splits option.splits)

lemma map_set_cell:
  "map_queue g (set_cell i c q) = set_inner (map_queue g q)
     ((inner (map_queue g q))\<lparr>buffer := (buffer (inner (map_queue g q)))[i := g c]\<rparr>)"
  by (simp add: set_cell_def set_inner_def map_queue_def map_inner_def map_update)

lemma set_cell_simps [simp]:
  "own_slot (set_cell i c q) = own_slot q" "own_occupancy (set_cell i c q) = own_occupancy q"
  "slot (inner (set_cell i c q)) = slot (inner q)" "occupancy (inner (set_cell i c q)) = occupancy (inner q)"
  "stealer (inner (set_cell i c q)) = stealer (inner q)"
  "buffer (inner (set_cell i c q)) = (buffer (inner q))[i := c]"
  by (simp_all add: set_cell_def set_inner_def)

text \<open>A cell of which only the state word changes looks the same to the queue.\<close>

lemma task_in_state [simp]: "task_in (cell\<lparr>tr_state := w\<rparr>) = task_in cell"
  by (simp add: task_in_def)

lemma map_set_same:
  assumes "g c = g (cell_at i q)"
  shows "map_queue g (set_cell i c q) = map_queue g q"
proof -
  have "(map g (buffer (inner q)))[i := g c] = map g (buffer (inner q))"
  proof (cases "i < length (buffer (inner q))")
    case True
    then have "g c = map g (buffer (inner q)) ! i" using assms by (simp add: cell_at_def)
    then show ?thesis by (simp only: list_update_id)
  qed (simp add: list_update_beyond)
  then show ?thesis by (simp add: map_set_cell) (simp add: set_inner_def map_queue_def)
qed

section \<open>Every step is one of the queue, or none\<close>

text \<open>
  A cell with a task points at its future; the owner writes the task of the future it is polling.
\<close>

definition cells_point :: "('f, 't, 'v, 'wk, 'd) task_system \<Rightarrow> bool" where
  "cells_point s \<longleftrightarrow> (\<forall>cell\<in>set (buffer (inner (ts_queue s))). tr_task cell \<noteq> None \<longrightarrow> tr_rx cell \<noteq> None)"

definition polled_unbatched :: "('f, 't, 'v, 'wk, 'd) task_system \<Rightarrow> bool" where
  "polled_unbatched s \<longleftrightarrow> (\<forall>f t. ts_owner s = Checked (f, t) \<longrightarrow> ts_futures s f = Some (Unbatched t))"

lemma shared_take:
  assumes "cells_point s" "i < length (buffer (inner (ts_queue s)))"
    and "take_task_unchecked (cell_at i (ts_queue s)) = Inr (t, cell)"
  shows "read_cell i (buffer (inner (sys_queue (shared s)))) =
    Inr ((the (tr_rx cell), t), (buffer (inner (sys_queue (shared s))))[i := task_in cell])"
proof -
  let ?c = "buffer (inner (ts_queue s)) ! i"
  have c: "tr_task ?c = Some t" "cell = ?c\<lparr>tr_task := None\<rparr>"
    using assms(3) by (auto simp: take_task_unchecked_def cell_at_def split: option.splits)
  then obtain f where "tr_rx ?c = Some f" using assms(1,2) by (auto simp: cells_point_def)
  with c assms(2) show ?thesis by (simp add: read_cell_def task_in_def)
qed

lemma shared_step:
  assumes "task_step op drops dpush steal N s s'" "cells_point s" "polled_unbatched s"
    and "unat (current_write_index N (ts_queue s)) < length (buffer (inner (ts_queue s)))"
    and "\<forall>j ta ts. j < length (ts_batches s) \<and> stage (ts_batches s ! j) = Mapping ta ts \<longrightarrow>
      (\<forall>i\<in>set (assignment_tasks N ta). i < length (buffer (inner (ts_queue s))))"
  shows "sys_step dpush steal N (shared s) (shared s') \<or> shared s' = shared s"
  using assms(1)
proof (cases rule: task_step.cases)
  case (poll_free f t q)
  have "shared s' = (shared s)\<lparr>sys_queue := map_queue task_in q, owner := Checked (f, t)\<rparr>"
    by (simp add: poll_free(1) shared_def)
  moreover have "sys_step dpush steal N (shared s) ((shared s)\<lparr>sys_queue := map_queue task_in q, owner := Checked (f, t)\<rparr>)"
    using poll_free(2,4) by (intro sys_step.check_free) (simp_all add: map_region_check)
  ultimately show ?thesis by simp
next
  case (poll_full f t q waker)
  have "shared s' = (shared s)\<lparr>sys_queue := map_queue task_in q, owner := Parking waker\<rparr>"
    by (simp add: poll_full(1) shared_def)
  moreover have "sys_step dpush steal N (shared s) ((shared s)\<lparr>sys_queue := map_queue task_in q, owner := Parking waker\<rparr>)"
    using poll_full(2,4) by (intro sys_step.check_full) (simp_all add: map_region_check)
  ultimately show ?thesis by simp
next
  case (poll_parks waker)
  then show ?thesis using sys_step.park [of "shared s" waker dpush steal N]
    by (simp add: shared_def map_pending_push)
next
  case (poll_writes f t i waker cell futs)
  have "ts_futures s f = Some (Unbatched t)" using assms(3) poll_writes(2) by (simp add: polled_unbatched_def)
  then have "task_in cell = Some (f, t)"
    using poll_writes(4) by (auto simp: write_task_def task_ref_init_def task_in_def)
  moreover have "shared s' = (shared s)\<lparr>sys_queue := map_queue task_in (set_cell (unat i) cell (ts_queue s)),
      owner := Written (f, t), failed := False\<rparr>"
    by (simp add: poll_writes(1) shared_def)
  ultimately show ?thesis
    using sys_step.write_cell [of "shared s" "(f, t)" "unat i" N dpush steal] poll_writes(2,3) assms(4)
    by (simp add: map_set_cell)
next
  case (poll_joins x base prev q)
  then show ?thesis using sys_step.claim_joins [of "shared s" x base prev "map_queue task_in q" dpush steal N]
    by (simp add: shared_def map_claim_slot)
next
  case (poll_opens x base prev q)
  then show ?thesis using sys_step.claim_opens [of "shared s" x base prev "map_queue task_in q" dpush steal N]
    by (simp add: shared_def map_claim_slot)
next
  case (poll_occupies i j ur)
  then show ?thesis using sys_step.occupy [of "shared s" i j ur dpush steal N]
    by (simp add: shared_def map_occupy_region)
next
  case (task_bound j ur ta i)
  then show ?thesis using sys_step.bound [of j "shared s" ur ta "map_inner task_in i" dpush steal N]
    by (simp add: shared_def map_bound map_set_inner)
next
  case (map_starts j ta)
  then show ?thesis using sys_step.start_map [of j "shared s" ta dpush steal N] by (simp add: shared_def)
next
  case (drop_starts j ta)
  then show ?thesis using sys_step.start_map [of j "shared s" ta dpush steal N] by (simp add: shared_def)
next
  case (map_takes j ta ts i t cell)
  have i: "i < length (buffer (inner (ts_queue s)))" using assms(5) map_takes(2,3,5,6) nth_mem by blast
  have "task_in cell = None"
    using map_takes(7) by (auto simp: take_task_unchecked_def task_in_def split: option.splits)
  with shared_take [OF assms(2) i map_takes(7)] show ?thesis
    using sys_step.map_next [of j "shared s" ta ts N "(the (tr_rx cell), t)" _ dpush steal] map_takes(1-6)
    by (simp add: shared_def map_set_cell)
next
  case (drop_takes j ta ts i t cell)
  have i: "i < length (buffer (inner (ts_queue s)))" using assms(5) drop_takes(2,3,5,6) nth_mem by blast
  have "task_in cell = None"
    using drop_takes(7) by (auto simp: take_task_unchecked_def task_in_def split: option.splits)
  with shared_take [OF assms(2) i drop_takes(7)] show ?thesis
    using sys_step.map_next [of j "shared s" ta ts N "(the (tr_rx cell), t)" _ dpush steal] drop_takes(1-6)
    by (simp add: shared_def map_set_cell)
next
  case (map_releases j ta ts woken i)
  then show ?thesis using sys_step.release_map [of j "shared s" ta ts N steal woken "map_inner task_in i" dpush]
    by (simp add: shared_def assignment_deoccupy_buffer_def map_deoccupy map_set_inner)
next
  case (poll_ready f rx waker v a q futs)
  then show ?thesis by (auto simp: shared_def batched_task_poll_def split: option.splits)
qed (simp_all add: shared_def map_set_same)

end
