(* ===== verification/TaskRuns.thy ===== *)
theory TaskRuns
  imports TaskSystem
begin

unbundle bit_operations_syntax

text \<open>
  The invariant of the steps of \<open>TaskSystem\<close>. It has the invariant of the queue, for what the queue sees
  (\<open>shared\<close>), a reachable state of the race of \<open>Negotiation\<close> for every task that was enqueued
  (\<open>race_of\<close>), and the links between the two: which cell points at which future and back.
\<close>

section \<open>One task and its future\<close>

definition values_of :: "'f \<Rightarrow> ('f \<times> 'v) list \<Rightarrow> 'v list" where
  "values_of f xs = map snd (filter (\<lambda>x. fst x = f) xs)"

lemma values_of_simps [simp]:
  "values_of f [] = []" "values_of f (x # xs) = (if fst x = f then snd x # values_of f xs else values_of f xs)"
  by (simp_all add: values_of_def)

definition receiver_memory :: "('u, 't, 'v, 'wk) batched_task option \<Rightarrow> 'v option option" where
  "receiver_memory fut = (case fut of Some (Batched rx) \<Rightarrow> Some (rx_value rx) | _ \<Rightarrow> None)"

definition receiver_pc :: "('u, 't, 'v, 'wk) batched_task option \<Rightarrow> 64 word option \<Rightarrow> owner_pc" where
  "receiver_pc fut dropping =
     (case fut of
        None \<Rightarrow> ODropped
      | Some Received \<Rightarrow> OReceived
      | _ \<Rightarrow> (case dropping of None \<Rightarrow> OBatched | Some state \<Rightarrow> OSpin state))"

text \<open>The tasks written to the buffer so far; one of them may not be in the log yet.\<close>

definition enqueued :: "('f, 't, 'v, 'wk, 'd) task_system \<Rightarrow> nat" where
  "enqueued s = (case ts_owner s of Written _ \<Rightarrow> Suc (length (ts_log s)) | _ \<Rightarrow> length (ts_log s))"

text \<open>The race for the \<open>j\<close>-th task of the log, whose resolver is at \<open>pc\<close>.\<close>

definition race_of ::
    "nat \<Rightarrow> ('f, 't, 'v, 'wk, 'd) task_system \<Rightarrow> nat \<Rightarrow> 'v resolver_pc \<Rightarrow> 'v race" where
  "race_of k s j pc =
     (let f = fst (ts_log s ! j) in
      \<lparr>state_word = tr_state (cell_at (j mod 2 ^ k) (ts_queue s)),
       rx_mem = receiver_memory (ts_futures s f), rpc = pc,
       opc = receiver_pc (ts_futures s f) (ts_dropping s f), was_woken = f \<in> ts_woken s,
       returned = values_of f (ts_returned s), discarded = values_of f (ts_discarded s),
       broken = False, reused = j + 2 ^ k < enqueued s\<rparr>)"

text \<open>
  Where the resolver of the \<open>j\<close>-th task is, in a batch whose holder is at \<open>r\<close>; \<open>v\<close> is the task's value.
  Of the tasks it is through with, either all were resolved or all were dropped.
\<close>

definition settled :: "'v resolver_pc \<Rightarrow> 'v resolver_pc" where
  "settled r = (if r = RDropped then RDropped else RDone)"

lemma settled_simps [simp]: "through (settled r)" "through r \<Longrightarrow> settled r = r"
  by (auto simp: settled_def through_def)

definition pc_in :: "'x batch \<Rightarrow> 'v resolver_pc \<Rightarrow> 'v \<Rightarrow> nat \<Rightarrow> 'v resolver_pc" where
  "pc_in b r v j =
     (case stage b of
        Mapping ta ts \<Rightarrow>
          if first b + length ts \<le> j then RBegin v else if Suc j = first b + length ts then r else settled r
      | Consumed _ _ \<Rightarrow> settled r
      | Released _ \<Rightarrow> settled r
      | _ \<Rightarrow> RBegin v)"

abbreviation in_batch :: "nat \<Rightarrow> 'x batch \<Rightarrow> nat \<Rightarrow> bool" where
  "in_batch c b j \<equiv> first b \<le> j \<and> j < batch_end c b"

section \<open>The invariant\<close>

definition races_ok :: "nat \<Rightarrow> ('f \<times> 't \<Rightarrow> 'v) \<Rightarrow> bool \<Rightarrow> ('f, 't, 'v, 'wk, 'd) task_system \<Rightarrow> bool" where
  "races_ok k op drops s \<longleftrightarrow>
     (\<forall>m<length (ts_batches s). \<forall>j. in_batch (length (ts_log s)) (ts_batches s ! m) j \<longrightarrow>
        race_reachable drops (op (ts_log s ! j))
          (race_of k s j (pc_in (ts_batches s ! m) (ts_resolver s m) (op (ts_log s ! j)) j)))"

text \<open>A future that was enqueued has a cell, and the cell is its own until it is reused.\<close>

definition futures_ok :: "nat \<Rightarrow> ('f, 't, 'v, 'wk, 'd) task_system \<Rightarrow> bool" where
  "futures_ok k s \<longleftrightarrow> distinct (map fst (ts_log s)) \<and>
     (\<forall>j<length (ts_log s).
        (\<forall>t. ts_futures s (fst (ts_log s ! j)) \<noteq> Some (Unbatched t)) \<and>
        (\<forall>rx. ts_futures s (fst (ts_log s ! j)) = Some (Batched rx) \<longrightarrow> unat (rx_state rx) = j mod 2 ^ k) \<and>
        (enqueued s \<le> j + 2 ^ k \<longrightarrow> tr_rx (cell_at (j mod 2 ^ k) (ts_queue s)) = Some (fst (ts_log s ! j))))"

text \<open>Nothing happened to a future that was not enqueued.\<close>

definition others_ok :: "('f, 't, 'v, 'wk, 'd) task_system \<Rightarrow> bool" where
  "others_ok s \<longleftrightarrow> (\<forall>f. f \<notin> fst ` set (ts_log s) \<longrightarrow>
     ts_dropping s f = None \<and> f \<notin> ts_woken s \<and>
     values_of f (ts_returned s) = [] \<and> values_of f (ts_discarded s) = [] \<and>
     (\<forall>rx. ts_futures s f = Some (Batched rx) \<longrightarrow> (\<exists>t. ts_owner s = Written (f, t))))"

definition poll_ok :: "nat \<Rightarrow> ('f, 't, 'v, 'wk, 'd) task_system \<Rightarrow> bool" where
  "poll_ok k s \<longleftrightarrow> (\<forall>f t. ts_owner s = Written (f, t) \<longrightarrow>
     f \<notin> fst ` set (ts_log s) \<and> cell_at (length (ts_log s) mod 2 ^ k) (ts_queue s) = task_cell t f False \<and>
     (\<exists>i waker. ts_futures s f = Some (Batched (receiver_new i waker)) \<and> unat i = length (ts_log s) mod 2 ^ k))"

definition task_inv :: "nat \<Rightarrow> ('f \<times> 't \<Rightarrow> 'v) \<Rightarrow> bool \<Rightarrow> ('f, 't, 'v, 'wk, 'd) task_system \<Rightarrow> bool" where
  "task_inv k op drops s \<longleftrightarrow> \<not> ts_failed s \<and> sys_inv k (shared s) \<and> cells_point s \<and> polled_unbatched s \<and>
     futures_ok k s \<and> others_ok s \<and> poll_ok k s \<and> races_ok k op drops s"

lemma task_inv_dest:
  assumes "task_inv k op drops s"
  shows "\<not> ts_failed s" "sys_inv k (shared s)" "cells_point s" "polled_unbatched s" "futures_ok k s" "others_ok s"
    "poll_ok k s" "races_ok k op drops s"
  using assms by (simp_all add: task_inv_def)

lemma buffer_length: "sys_inv k (shared s) \<Longrightarrow> length (buffer (inner (ts_queue s))) = 2 ^ k"
  by (auto simp: sys_inv_def words_ok_def queue_at_def)

lemma write_cell_at:
  assumes "sys_inv k (shared s)" "k < 32"
  shows "unat (current_write_index (2 ^ k) (ts_queue s)) = length (ts_log s) mod 2 ^ k"
proof -
  obtain op ph where "queue_at k (length (ts_log s)) op ph (regions_of k (ts_batches s)) (map_queue task_in (ts_queue s))"
    using sys_inv_words [OF assms(1)] by (metis shared_simps(1,3,4))
  from write_index_at [OF this assms(2)] show ?thesis by simp
qed

lemma chain_covers: "chain a c bs \<Longrightarrow> a \<le> j \<Longrightarrow> j < c \<Longrightarrow> \<exists>m<length bs. in_batch c (bs ! m) j"
proof (induction bs arbitrary: a)
  case (Cons b bs)
  show ?case
  proof (cases "j < batch_end c b")
    case True
    then show ?thesis using Cons.prems by (intro exI [of _ 0]) auto
  next
    case False
    then obtain m where "m < length bs" "in_batch c (bs ! m) j" using Cons by fastforce
    then show ?thesis by (intro exI [of _ "Suc m"]) simp
  qed
qed simp

lemma in_one_batch:
  assumes "chain a c bs" "m < length bs" "n < length bs" "in_batch c (bs ! m) j" "in_batch c (bs ! n) j"
  shows "m = n"
  using chain_disjoint [OF assms(1), of m n] chain_disjoint [OF assms(1), of n m] assms(2-5)
  by (cases m n rule: linorder_cases) auto

lemma task_chain: "sys_inv k (shared s) \<Longrightarrow> chain 0 (length (ts_log s)) (ts_batches s)"
  by (simp add: sys_inv_def)

lemma in_batch_log:
  assumes "sys_inv k (shared s)" "m < length (ts_batches s)" "in_batch (length (ts_log s)) (ts_batches s ! m) j"
  shows "j < length (ts_log s)"
  using chain_bounds [OF task_chain [OF assms(1)], of "ts_batches s ! m"] assms(2,3) by simp

text \<open>A running batch keeps its cells: the buffer is written at most once round since its first task.\<close>

lemma running_cells:
  assumes "sys_inv k (shared s)" "m < length (ts_batches s)" "running (ts_batches s ! m)" "first (ts_batches s ! m) \<le> j"
  shows "enqueued s \<le> j + 2 ^ k"
    and "ts_owner s = Checked x \<Longrightarrow> Suc (length (ts_log s)) \<le> j + 2 ^ k"
proof -
  let ?b = "ts_batches s ! m"
  have mem: "?b \<in> set (batches (shared s))" using assms(2) by simp
  have le: "region_start k (first ?b) \<le> j" using block_start_le [of "2 ^ (k - 3)" "first ?b"] assms(4) by linarith
  have "in_window k (length (ts_log s)) ?b" using assms(1) mem by (simp add: sys_inv_def)
  moreover have "in_window k (Suc (length (ts_log s))) ?b" if "ts_owner s = Checked x \<or> ts_owner s = Written x" for x
    using assms(1) mem that by (auto simp: sys_inv_def owner_ok_def)
  ultimately show "enqueued s \<le> j + 2 ^ k" "ts_owner s = Checked x \<Longrightarrow> Suc (length (ts_log s)) \<le> j + 2 ^ k"
    using assms(3) le by (fastforce simp: enqueued_def in_window_def split: owner_step.splits)+
qed

lemma not_running_through: "stage_ok l b \<Longrightarrow> \<not> running b \<Longrightarrow> through (pc_in b r v j)"
  by (simp add: running_def pc_in_def split: stage.splits)

text \<open>Where a batch is resolving: at the cell of the task it took last.\<close>

lemma resolving_at:
  assumes "task_inv k op drops s" "k < 32" "resolving (2 ^ k) (ts_batches s) m = Some i"
  obtains j where "m < length (ts_batches s)" "in_batch (length (ts_log s)) (ts_batches s ! m) j" "i = j mod 2 ^ k"
    "enqueued s \<le> j + 2 ^ k" "j < length (ts_log s)" "tr_rx (cell_at i (ts_queue s)) = Some (fst (ts_log s ! j))"
    "\<And>r v. pc_in (ts_batches s ! m) r v j = r"
    "\<And>r v j'. j' \<noteq> j \<Longrightarrow> r \<noteq> RDropped \<Longrightarrow> pc_in (ts_batches s ! m) r v j' = pc_in (ts_batches s ! m) RDone v j'"
proof -
  let ?b = "ts_batches s ! m"
  note inv = task_inv_dest [OF assms(1)]
  obtain ta ts where m: "m < length (ts_batches s)" and st: "stage ?b = Mapping ta ts" "ts \<noteq> []"
      and i: "i = assignment_tasks (2 ^ k) ta ! (length ts - 1)"
    using assms(3) by (auto simp: resolving_def split: if_splits stage.splits)
  have mem: "?b \<in> set (batches (shared s))" using m by simp
  obtain n where n: "length ts = Suc n" using st(2) by (cases ts) auto
  let ?j = "first ?b + n"
  obtain e where e: "ended ?b = Some e" "first ?b + length ts \<le> e"
      "assignment_tasks (2 ^ k) ta = map (\<lambda>i. i mod 2 ^ k) [first ?b..<e]"
    using mapping_next [OF inv(2) assms(2) mem st(1)] by metis
  have "?j < e" using e(2) n by linarith
  then have range: "in_batch (length (ts_log s)) ?b ?j" using e(1) by (simp add: batch_end_def)
  have "[first ?b..<e] ! n = ?j" using \<open>?j < e\<close> by (rule nth_upt)
  then have ij: "i = ?j mod 2 ^ k" using \<open>?j < e\<close> by (simp add: i e(3) n)
  have run: "running ?b" using st(1) by (simp add: running_def)
  note live = running_cells(1) [OF inv(2) m run, of ?j]
  have log: "?j < length (ts_log s)" by (rule in_batch_log [OF inv(2) m range])
  show ?thesis
  proof (rule that [OF m range ij _ log])
    show "enqueued s \<le> ?j + 2 ^ k" using live by simp
    then show "tr_rx (cell_at i (ts_queue s)) = Some (fst (ts_log s ! ?j))"
      using inv(5) log by (simp add: futures_ok_def ij)
    show "pc_in ?b r v ?j = r" for r v by (simp add: pc_in_def st(1) n)
    show "pc_in ?b r v j' = pc_in ?b RDone v j'" if "j' \<noteq> ?j" "r \<noteq> RDropped" for r v j'
      using that by (auto simp: pc_in_def st(1) n settled_def)
  qed
qed

section \<open>Steps that leave the tasks alone\<close>

lemma cell_at_set_cell:
  "i < length (buffer (inner q)) \<Longrightarrow> cell_at j (set_cell i c q) = (if j = i then c else cell_at j q)"
  by (simp add: cell_at_def)

lemma cells_point_at:
  "cells_point s \<longleftrightarrow> (\<forall>i<length (buffer (inner (ts_queue s))).
     tr_task (cell_at i (ts_queue s)) \<noteq> None \<longrightarrow> tr_rx (cell_at i (ts_queue s)) \<noteq> None)"
  by (simp add: cells_point_def cell_at_def all_set_conv_all_nth)

lemma enqueued_same:
  "ts_log s' = ts_log s \<Longrightarrow>
    ts_owner s' = ts_owner s \<or> (\<forall>x. ts_owner s \<noteq> Written x \<and> ts_owner s' \<noteq> Written x) \<Longrightarrow> enqueued s' = enqueued s"
  by (auto simp: enqueued_def split: owner_step.splits)

lemma race_of_rpc: "rpc (race_of k s j pc) = pc"
  by (simp add: race_of_def Let_def)

lemma keeps_frame:
  assumes inv: "task_inv k op drops s"
    and log: "ts_log s' = ts_log s"
    and same: "ts_futures s' = ts_futures s" "ts_dropping s' = ts_dropping s" "ts_woken s' = ts_woken s"
      "ts_returned s' = ts_returned s" "ts_discarded s' = ts_discarded s" "ts_failed s' = ts_failed s"
    and len: "length (buffer (inner (ts_queue s'))) = length (buffer (inner (ts_queue s)))"
    and cells: "\<And>i. tr_state (cell_at i (ts_queue s')) = tr_state (cell_at i (ts_queue s))"
      "\<And>i. tr_rx (cell_at i (ts_queue s')) = tr_rx (cell_at i (ts_queue s))"
      "\<And>i. tr_task (cell_at i (ts_queue s')) \<noteq> None \<Longrightarrow> tr_task (cell_at i (ts_queue s)) \<noteq> None"
      "\<And>x. ts_owner s = Written x \<Longrightarrow>
        cell_at (length (ts_log s) mod 2 ^ k) (ts_queue s') = cell_at (length (ts_log s) mod 2 ^ k) (ts_queue s)"
    and owner: "ts_owner s' = ts_owner s \<or> (\<forall>x. ts_owner s \<noteq> Written x \<and> ts_owner s' \<noteq> Written x)"
      "\<And>f t. ts_owner s' = Checked (f, t) \<Longrightarrow> ts_futures s f = Some (Unbatched t)"
    and batches: "\<And>m j. m < length (ts_batches s') \<Longrightarrow> in_batch (length (ts_log s)) (ts_batches s' ! m) j \<Longrightarrow>
      m < length (ts_batches s) \<and> in_batch (length (ts_log s)) (ts_batches s ! m) j \<and>
      (pc_in (ts_batches s' ! m) (ts_resolver s' m) (op (ts_log s ! j)) j =
         pc_in (ts_batches s ! m) (ts_resolver s m) (op (ts_log s ! j)) j \<or>
       pc_in (ts_batches s ! m) (ts_resolver s m) (op (ts_log s ! j)) j = RBegin (op (ts_log s ! j)) \<and>
         pc_in (ts_batches s' ! m) (ts_resolver s' m) (op (ts_log s ! j)) j = RDropped)"
    and sys: "sys_inv k (shared s')"
  shows "task_inv k op drops s'"
proof -
  note inv' = task_inv_dest [OF inv]
  have enq: "enqueued s' = enqueued s" by (rule enqueued_same [OF log owner(1)])
  have race: "race_of k s' j pc = race_of k s j pc" for j and pc :: "'c resolver_pc"
    by (simp add: race_of_def Let_def log same cells enq)
  have written: "ts_owner s' = Written x \<longleftrightarrow> ts_owner s = Written x" for x using owner(1) by metis
  have "races_ok k op drops s'"
    unfolding races_ok_def
  proof (intro allI impI)
    fix m j
    assume m: "m < length (ts_batches s')" and "in_batch (length (ts_log s')) (ts_batches s' ! m) j"
    then have "in_batch (length (ts_log s)) (ts_batches s' ! m) j" by (simp add: log)
    note b = batches [OF m this]
    have "race_reachable drops (op (ts_log s ! j))
        (race_of k s j (pc_in (ts_batches s ! m) (ts_resolver s m) (op (ts_log s ! j)) j))"
      using inv'(8) b by (simp add: races_ok_def)
    moreover have "race_of k s j RDropped = (race_of k s j (RBegin v))\<lparr>rpc := RDropped\<rparr>" for v :: 'c
      by (simp add: race_of_def Let_def)
    then have "race_reachable drops v (race_of k s j (RBegin u)) \<Longrightarrow> race_reachable drops v (race_of k s j RDropped)" for u v
      using race_reachable.step race_step.drop_task by (metis race_of_rpc)
    ultimately show "race_reachable drops (op (ts_log s' ! j))
        (race_of k s' j (pc_in (ts_batches s' ! m) (ts_resolver s' m) (op (ts_log s' ! j)) j))"
      using b by (auto simp: race log)
  qed
  moreover have "cells_point s'"
    using inv'(3) cells(3) unfolding cells_point_at len by (simp add: cells(2))
  moreover have "polled_unbatched s'" using owner(2) by (simp add: polled_unbatched_def same)
  moreover have "futures_ok k s'" using inv'(5) by (simp add: futures_ok_def log same cells enq)
  moreover have "others_ok s'" using inv'(6) by (simp add: others_ok_def log same written)
  moreover have "poll_ok k s'" using inv'(7) cells(4) by (simp add: poll_ok_def log same written)
  ultimately show ?thesis using inv'(1) sys by (simp add: task_inv_def same)
qed

section \<open>Steps of one task\<close>

text \<open>
  A step that concerns only the \<open>j\<close>-th task of the log, which is in batch \<open>m\<close>: the future and what was
  recorded of it, the position of the resolver, and the state word of the cell, unless the cell is
  that of a later task.
\<close>

lemma reused_race:
  assumes "sys_inv k (shared s)" "m < length (ts_batches s)" "in_batch (length (ts_log s)) (ts_batches s ! m) j"
    and "j + 2 ^ k < w" "w = enqueued s \<or> w = Suc (length (ts_log s)) \<and> ts_owner s = Checked x"
  shows "through (pc_in (ts_batches s ! m) r v j)"
proof -
  have "\<not> running (ts_batches s ! m)"
    using running_cells(1) [OF assms(1,2), of j] running_cells(2) [OF assms(1,2), of j x] assms(3-5) by auto
  moreover have "stage_ok (ts_log s) (ts_batches s ! m)" using assms(1,2) by (simp add: sys_inv_def)
  ultimately show ?thesis by (intro not_running_through)
qed

lemma race_reuse:
  assumes "race_reachable drops v r" "through (rpc r)"
  shows "race_reachable drops v (r\<lparr>reused := True, state_word := w\<rparr>)"
  using race_reachable.step [OF assms(1) race_step.reuse [OF assms(2)]] .

text \<open>The other tasks of the log do not see such a step, or only that their cell was reused.\<close>

lemma race_elsewhere:
  assumes inv: "task_inv k op drops s" and jc: "j < length (ts_log s)"
    and same: "ts_log s' = ts_log s" "ts_batches s' = ts_batches s" "ts_owner s' = ts_owner s"
    and queue: "ts_queue s' = ts_queue s \<or> enqueued s \<le> j + 2 ^ k \<and>
      ts_queue s' = set_cell (j mod 2 ^ k) ((cell_at (j mod 2 ^ k) (ts_queue s))\<lparr>tr_state := w\<rparr>) (ts_queue s)"
    and n: "n < length (ts_batches s)" "in_batch (length (ts_log s)) (ts_batches s ! n) j'" "j' \<noteq> j"
    and other: "ts_futures s' f = ts_futures s f \<and> ts_dropping s' f = ts_dropping s f \<and> (f \<in> ts_woken s' \<longleftrightarrow> f \<in> ts_woken s) \<and>
      values_of f (ts_returned s') = values_of f (ts_returned s) \<and> values_of f (ts_discarded s') = values_of f (ts_discarded s)"
    and f: "f = fst (ts_log s ! j')" and pc: "pc = pc_in (ts_batches s ! n) (ts_resolver s n) (op (ts_log s ! j')) j'"
  shows "race_reachable drops (op (ts_log s ! j')) (race_of k s' j' pc)"
proof -
  note inv' = task_inv_dest [OF inv]
  let ?i = "j mod 2 ^ k"
  have enq: "enqueued s' = enqueued s" by (rule enqueued_same) (simp_all add: same)
  have i: "?i < length (buffer (inner (ts_queue s)))" using buffer_length [OF inv'(2)] by simp
  have ok: "race_reachable drops (op (ts_log s ! j')) (race_of k s j' pc)" using inv'(8) n by (simp add: races_ok_def pc)
  show ?thesis
  proof (cases "j' mod 2 ^ k = ?i \<and> ts_queue s' \<noteq> ts_queue s")
    case True
    then have "enqueued s \<le> j + 2 ^ k" using queue by auto
    have "j' < j"
    proof (rule ccontr)
      assume "\<not> j' < j"
      then have "j < j'" using n(3) by simp
      then have "j + 2 ^ k \<le> j'" using mod_eq_lap [of j "2 ^ k" j'] True by simp
      moreover have "j' < enqueued s" using in_batch_log [OF inv'(2) n(1,2)] by (simp add: enqueued_def split: owner_step.splits)
      ultimately show False using \<open>enqueued s \<le> j + 2 ^ k\<close> by simp
    qed
    then have "j' + 2 ^ k \<le> j" using mod_eq_lap [of j' "2 ^ k" j] True by simp
    then have reused: "j' + 2 ^ k < enqueued s" using jc by (simp add: enqueued_def split: owner_step.splits)
    have fin: "through pc" unfolding pc by (rule reused_race [OF inv'(2) n(1,2) reused]) simp
    have "race_of k s' j' pc = (race_of k s j' pc)\<lparr>reused := True, state_word := tr_state (cell_at ?i (ts_queue s'))\<rparr>"
      using other f reused True by (simp add: race_of_def Let_def same enq)
    moreover have "race_reachable drops (op (ts_log s ! j')) ((race_of k s j' pc)\<lparr>reused := True, state_word := tr_state (cell_at ?i (ts_queue s'))\<rparr>)"
      by (rule race_reuse [OF ok]) (simp add: race_of_def Let_def fin)
    ultimately show ?thesis by simp
  next
    case False
    then have "tr_state (cell_at (j' mod 2 ^ k) (ts_queue s')) = tr_state (cell_at (j' mod 2 ^ k) (ts_queue s))"
      using queue i by (auto simp: cell_at_set_cell)
    then have "race_of k s' j' pc = race_of k s j' pc"
      using other f by (simp add: race_of_def Let_def same enq)
    with ok show ?thesis by simp
  qed
qed

lemma keeps_local:
  assumes inv: "task_inv k op drops s" and k: "k < 32"
    and j: "m < length (ts_batches s)" "in_batch (length (ts_log s)) (ts_batches s ! m) j"
    and same: "ts_log s' = ts_log s" "ts_batches s' = ts_batches s" "ts_owner s' = ts_owner s" "ts_failed s' = ts_failed s"
    and queue: "ts_queue s' = ts_queue s \<or> enqueued s \<le> j + 2 ^ k \<and>
      ts_queue s' = set_cell (j mod 2 ^ k) ((cell_at (j mod 2 ^ k) (ts_queue s))\<lparr>tr_state := w\<rparr>) (ts_queue s)"
    and others: "\<And>f. f \<noteq> fst (ts_log s ! j) \<Longrightarrow> ts_futures s' f = ts_futures s f \<and> ts_dropping s' f = ts_dropping s f \<and>
      (f \<in> ts_woken s' \<longleftrightarrow> f \<in> ts_woken s) \<and> values_of f (ts_returned s') = values_of f (ts_returned s) \<and>
      values_of f (ts_discarded s') = values_of f (ts_discarded s)"
    and future: "\<And>t. ts_futures s' (fst (ts_log s ! j)) \<noteq> Some (Unbatched t)"
      "\<And>rx. ts_futures s' (fst (ts_log s ! j)) = Some (Batched rx) \<Longrightarrow> unat (rx_state rx) = j mod 2 ^ k"
    and resolver: "\<And>m'. m' \<noteq> m \<Longrightarrow> ts_resolver s' m' = ts_resolver s m'"
      "\<And>v j'. j' \<noteq> j \<Longrightarrow> pc_in (ts_batches s ! m) (ts_resolver s' m) v j' = pc_in (ts_batches s ! m) (ts_resolver s m) v j'"
    and race: "\<And>v. v = op (ts_log s ! j) \<Longrightarrow>
      race_step drops (race_of k s j (pc_in (ts_batches s ! m) (ts_resolver s m) v j))
        (race_of k s' j (pc_in (ts_batches s ! m) (ts_resolver s' m) v j))"
  shows "task_inv k op drops s'"
proof -
  note inv' = task_inv_dest [OF inv]
  let ?c = "length (ts_log s)" and ?f = "fst (ts_log s ! j)" and ?i = "j mod 2 ^ k"
  have jc: "j < ?c" by (rule in_batch_log [OF inv'(2) j])
  have enq: "enqueued s' = enqueued s" by (rule enqueued_same) (simp_all add: same)
  have i: "?i < length (buffer (inner (ts_queue s)))" using buffer_length [OF inv'(2)] by simp
  have cell: "cell_at i' (ts_queue s') = (if i' = ?i then (cell_at ?i (ts_queue s))\<lparr>tr_state := tr_state (cell_at ?i (ts_queue s'))\<rparr>
      else cell_at i' (ts_queue s))" for i'
    using queue i by (auto simp: cell_at_set_cell)
  have fields: "tr_rx (cell_at i' (ts_queue s')) = tr_rx (cell_at i' (ts_queue s))"
    "tr_task (cell_at i' (ts_queue s')) = tr_task (cell_at i' (ts_queue s))" for i'
    by (subst cell, simp)+
  have len: "length (buffer (inner (ts_queue s'))) = length (buffer (inner (ts_queue s)))"
    using queue by auto
  have member: "fst (ts_log s ! j') \<in> fst ` set (ts_log s)" if "j' < ?c" for j' using that by simp
  have dist: "fst (ts_log s ! j') \<noteq> ?f" if "j' < ?c" "j' \<noteq> j" for j'
    using inv'(5) that jc nth_eq_iff_index_eq [of "map fst (ts_log s)" j' j] by (simp add: futures_ok_def)
  have shared: "shared s' = shared s"
    using queue by (auto simp: shared_def same map_set_same)
  have "races_ok k op drops s'"
    unfolding races_ok_def
  proof (intro allI impI)
    fix n j'
    assume "n < length (ts_batches s')" and "in_batch (length (ts_log s')) (ts_batches s' ! n) j'"
    then have n: "n < length (ts_batches s)" "in_batch ?c (ts_batches s ! n) j'" by (simp_all add: same)
    let ?v = "op (ts_log s ! j')"
    let ?pc = "pc_in (ts_batches s ! n) (ts_resolver s n) ?v j'"
    have ok: "race_reachable drops ?v (race_of k s j' ?pc)" using inv'(8) n by (simp add: races_ok_def)
    show "race_reachable drops (op (ts_log s' ! j'))
        (race_of k s' j' (pc_in (ts_batches s' ! n) (ts_resolver s' n) (op (ts_log s' ! j')) j'))"
    proof (cases "j' = j")
      case True
      then have "n = m" using in_one_batch [OF task_chain [OF inv'(2)] n(1) j(1) n(2)] j(2) by simp
      with True ok race_reachable.step [OF _ race [OF refl]] show ?thesis by (simp add: same)
    next
      case False
      have pc: "pc_in (ts_batches s ! n) (ts_resolver s' n) ?v j' = ?pc"
        using resolver False by (cases "n = m") auto
      show ?thesis
        using race_elsewhere [OF inv jc same(1-3) queue n False others [OF dist [OF in_batch_log [OF inv'(2) n] False]] refl refl]
        by (simp add: same pc)
    qed
  qed
  moreover have "cells_point s'"
    using inv'(3) i unfolding cells_point_at len by (simp add: fields)
  moreover have "polled_unbatched s'"
  proof -
    have "ts_futures s' f = ts_futures s f" if "ts_futures s f = Some (Unbatched t)" for f t
      using others [of f] that inv'(5) jc by (cases "f = ?f") (auto simp: futures_ok_def)
    then show ?thesis using inv'(4) by (simp add: polled_unbatched_def same)
  qed
  moreover have "futures_ok k s'"
    unfolding futures_ok_def
  proof (intro conjI allI impI)
    show "distinct (map fst (ts_log s'))" using inv'(5) by (simp add: futures_ok_def same)
    fix j'
    assume "j' < length (ts_log s')"
    then have j': "j' < ?c" by (simp add: same)
    have f: "ts_futures s' (fst (ts_log s ! j')) = ts_futures s (fst (ts_log s ! j'))" if "j' \<noteq> j"
      using others [OF dist [OF j' that]] by simp
    show "ts_futures s' (fst (ts_log s' ! j')) \<noteq> Some (Unbatched t)" for t
      using inv'(5) j' f future(1) by (cases "j' = j") (simp_all add: futures_ok_def same)
    show "unat (rx_state rx) = j' mod 2 ^ k" if "ts_futures s' (fst (ts_log s' ! j')) = Some (Batched rx)" for rx
      using inv'(5) j' f future(2) that by (cases "j' = j") (simp_all add: futures_ok_def same)
    show "tr_rx (cell_at (j' mod 2 ^ k) (ts_queue s')) = Some (fst (ts_log s' ! j'))" if "enqueued s' \<le> j' + 2 ^ k"
      using inv'(5) j' that by (simp add: futures_ok_def same enq fields)
  qed
  moreover have "others_ok s'"
  proof -
    have "f \<noteq> ?f" if "f \<notin> fst ` set (ts_log s)" for f using member [OF jc] that by auto
    then show ?thesis using inv'(6) others by (simp add: others_ok_def same)
  qed
  moreover have "poll_ok k s'"
    unfolding poll_ok_def
  proof (intro allI impI)
    fix f t
    assume "ts_owner s' = Written (f, t)"
    then have written: "ts_owner s = Written (f, t)" by (simp add: same)
    then have p: "f \<notin> fst ` set (ts_log s)" "cell_at (?c mod 2 ^ k) (ts_queue s) = task_cell t f False"
        "\<exists>i waker. ts_futures s f = Some (Batched (receiver_new i waker)) \<and> unat i = ?c mod 2 ^ k"
      using inv'(7) by (simp_all add: poll_ok_def)
    have "?c mod 2 ^ k \<noteq> ?i \<or> ts_queue s' = ts_queue s"
    proof (rule ccontr)
      assume "\<not> ?thesis"
      then have "enqueued s \<le> j + 2 ^ k" "?c mod 2 ^ k = ?i" using queue by auto
      then show False using mod_eq_lap [of j "2 ^ k" ?c] jc written by (simp add: enqueued_def)
    qed
    then have "cell_at (?c mod 2 ^ k) (ts_queue s') = cell_at (?c mod 2 ^ k) (ts_queue s)"
      using cell [of "?c mod 2 ^ k"] by auto
    moreover have "f \<noteq> ?f" using p(1) member [OF jc] by auto
    ultimately show "f \<notin> fst ` set (ts_log s') \<and> cell_at (length (ts_log s') mod 2 ^ k) (ts_queue s') = task_cell t f False \<and>
        (\<exists>i waker. ts_futures s' f = Some (Batched (receiver_new i waker)) \<and> unat i = length (ts_log s') mod 2 ^ k)"
      using p others [of f] by (simp add: same)
  qed
  ultimately show ?thesis using inv'(1,2) by (simp add: task_inv_def same shared)
qed

section \<open>Every step keeps the invariant\<close>

lemma task_view:
  assumes "task_step op drops dpush steal (2 ^ k) s s'" "task_inv k op drops s" "k < 32"
  shows "sys_step dpush steal (2 ^ k) (shared s) (shared s') \<or> shared s' = shared s"
proof -
  note inv = task_inv_dest [OF assms(2)]
  have "unat (current_write_index (2 ^ k) (ts_queue s)) < length (buffer (inner (ts_queue s)))"
    using write_cell_at [OF inv(2) assms(3)] buffer_length [OF inv(2)] by simp
  moreover have "\<forall>i\<in>set (assignment_tasks (2 ^ k) ta). i < length (buffer (inner (ts_queue s)))"
    if "j < length (ts_batches s)" "stage (ts_batches s ! j) = Mapping ta ts" for j ta ts
  proof -
    note st = that(2)
    have "ts_batches s ! j \<in> set (batches (shared s))" using that(1) by simp
    then obtain e where "assignment_tasks (2 ^ k) ta = map (\<lambda>i. i mod 2 ^ k) [first (ts_batches s ! j)..<e]"
      using mapping_next [OF inv(2) assms(3) _ st] by metis
    then show ?thesis using buffer_length [OF inv(2)] by auto
  qed
  ultimately show ?thesis using shared_step [OF assms(1) inv(3,4)] by blast
qed

lemma task_sys_inv:
  assumes "task_step op drops dpush steal (2 ^ k) s s'" "task_inv k op drops s" "6 \<le> k" "k < 32"
    and "within_limits k (shared s')"
  shows "sys_inv k (shared s')"
  using task_view [OF assms(1,2,4)] sys_inv_step [OF _ task_inv_dest(2) [OF assms(2)] assms(3-5)]
    task_inv_dest(2) [OF assms(2)] by auto

lemma batch_end_stage [simp]: "batch_end c (b\<lparr>stage := st\<rparr>) = batch_end c b"
  by (simp add: batch_end_def)

lemma keeps_poll_starts:
  assumes "task_inv k op drops s" "ts_owner s = Idle" "ts_futures s f = Some (Unbatched t)"
    and "region_check N (current_write_index N (ts_queue s)) (ts_queue s) = (r, q)"
    and "ow = Checked (f, t) \<or> (\<exists>waker. ow = Parking waker)"
    and "sys_inv k (shared (s\<lparr>ts_queue := q, ts_owner := ow\<rparr>))"
  shows "task_inv k op drops (s\<lparr>ts_queue := q, ts_owner := ow\<rparr>)"
proof -
  have "inner q = inner (ts_queue s)" using region_check_frame [OF assms(4)] by simp
  then show ?thesis
    by (intro keeps_frame [OF assms(1)]) (use assms(2,3,5,6) in \<open>auto simp: cell_at_def\<close>)
qed

lemma keeps_poll_parks:
  assumes "task_inv k op drops s" "ts_owner s = Parking waker"
    and "sys_inv k (shared (s\<lparr>ts_queue := pending_push dpush waker (ts_queue s), ts_owner := Idle\<rparr>))"
  shows "task_inv k op drops (s\<lparr>ts_queue := pending_push dpush waker (ts_queue s), ts_owner := Idle\<rparr>)"
  by (rule keeps_frame [OF assms(1)]) (use assms(2,3) in \<open>auto simp: cell_at_def pending_push_def\<close>)

lemma keeps_poll_occupies:
  assumes "task_inv k op drops s" "ts_owner s = Occupying i" "j < length (ts_batches s)"
    and "stage (ts_batches s ! j) = Claimed ur"
    and "sys_inv k (shared (s\<lparr>ts_queue := occupy_region N i (ts_queue s), ts_owner := Idle,
      ts_batches := set_stage j (Unbounded ur) (ts_batches s)\<rparr>))"
  shows "task_inv k op drops (s\<lparr>ts_queue := occupy_region N i (ts_queue s), ts_owner := Idle,
      ts_batches := set_stage j (Unbounded ur) (ts_batches s)\<rparr>)"
proof (rule keeps_frame [OF assms(1)], goal_cases)
  case (15 m i)
  have "pc_in ((ts_batches s ! j)\<lparr>stage := Unbounded ur\<rparr>) r v i = pc_in (ts_batches s ! j) r v i" for r :: "'c resolver_pc" and v
    by (simp add: pc_in_def assms(4))
  with 15 assms(3) show ?case by (cases "m = j") (auto simp: set_stage_def)
qed (use assms(2,5) in \<open>auto simp: cell_at_def occupy_region_def Let_def\<close>)

lemma keeps_map_starts:
  assumes "task_inv k op drops s" "j < length (ts_batches s)" "stage (ts_batches s ! j) = Bounded ta"
    and "sys_inv k (shared (s\<lparr>ts_batches := set_stage j (Mapping ta []) (ts_batches s),
      ts_resolver := (ts_resolver s)(j := r0)\<rparr>))"
  shows "task_inv k op drops (s\<lparr>ts_batches := set_stage j (Mapping ta []) (ts_batches s),
      ts_resolver := (ts_resolver s)(j := r0)\<rparr>)"
proof (rule keeps_frame [OF assms(1)], goal_cases)
  case (15 m i)
  have "pc_in ((ts_batches s ! j)\<lparr>stage := Mapping ta []\<rparr>) r v i = pc_in (ts_batches s ! j) r' v i"
    if "first (ts_batches s ! j) \<le> i" for r r' :: "'c resolver_pc" and v
    using that by (simp add: pc_in_def assms(3))
  with 15 assms(2) show ?case by (cases "m = j") (auto simp: set_stage_def)
qed (use assms task_inv_dest(4) [OF assms(1)] in \<open>auto simp: polled_unbatched_def\<close>)

lemma keeps_task_bound:
  assumes "task_inv k op drops s" "j < length (ts_batches s)" "stage (ts_batches s ! j) = Unbounded ur"
    and "into_assignment \<lparr>pa_base_slot = ur_base_slot ur\<rparr> (inner (ts_queue s)) = (ta, i)"
    and "sys_inv k (shared (s\<lparr>ts_queue := set_inner (ts_queue s) i, ts_batches := (ts_batches s)
      [j := (ts_batches s ! j)\<lparr>stage := Bounded ta, ended := Some (length (ts_log s))\<rparr>]\<rparr>))"
  shows "task_inv k op drops (s\<lparr>ts_queue := set_inner (ts_queue s) i, ts_batches := (ts_batches s)
      [j := (ts_batches s ! j)\<lparr>stage := Bounded ta, ended := Some (length (ts_log s))\<rparr>]\<rparr>)"
proof (rule keeps_frame [OF assms(1)], goal_cases)
  case (15 m i)
  have "stage_ok (ts_log s) (ts_batches s ! j)"
    using task_inv_dest(2) [OF assms(1)] assms(2) by (simp add: sys_inv_def)
  then have "ended (ts_batches s ! j) = None" using assms(3) by (simp add: stage_ok_def)
  then show ?case using 15 assms(2,3) by (cases "m = j") (auto simp: batch_end_def pc_in_def)
qed (use assms(4,5) task_inv_dest(4) [OF assms(1)] in
    \<open>auto simp: cell_at_def polled_unbatched_def set_inner_def into_assignment_def set_assignment_bounds_def Let_def\<close>)

lemma keeps_map_releases:
  assumes "task_inv k op drops s" "k < 32" "j < length (ts_batches s)" "stage (ts_batches s ! j) = Mapping ta ts"
    and "through (ts_resolver s j)" "length ts = length (assignment_tasks (2 ^ k) ta)"
    and "assignment_deoccupy_buffer steal (2 ^ k) ta (inner (ts_queue s)) = Inr (woken, i)"
    and "sys_inv k (shared (s\<lparr>ts_queue := set_inner (ts_queue s) i, ts_batches := set_stage j (Released ts) (ts_batches s)\<rparr>))"
  shows "task_inv k op drops (s\<lparr>ts_queue := set_inner (ts_queue s) i, ts_batches := set_stage j (Released ts) (ts_batches s)\<rparr>)"
proof -
  let ?b = "ts_batches s ! j"
  have "?b \<in> set (batches (shared s))" using assms(3) by simp
  then obtain e where e: "ended ?b = Some e" "assignment_tasks (2 ^ k) ta = map (\<lambda>i. i mod 2 ^ k) [first ?b..<e]"
    using mapping_next [OF task_inv_dest(2) [OF assms(1)] assms(2) _ assms(4)] by metis
  have i: "buffer i = buffer (inner (ts_queue s))"
    using deoccupy_frame assms(7) unfolding assignment_deoccupy_buffer_def by blast
  show ?thesis
  proof (rule keeps_frame [OF assms(1)], goal_cases)
    case (15 m i)
    have "pc_in (?b\<lparr>stage := Released ts\<rparr>) (ts_resolver s j) v i = pc_in ?b (ts_resolver s j) v i"
      if "in_batch (length (ts_log s)) ?b i" for v
      using that assms(4-6) e by (simp add: pc_in_def batch_end_def)
    with 15 assms(3) show ?case by (cases "m = j") (auto simp: set_stage_def)
  qed (use assms(8) task_inv_dest(4) [OF assms(1)] in \<open>auto simp: cell_at_def polled_unbatched_def set_inner_def i\<close>)
qed

end
