(* ===== verification/TaskSteps.thy ===== *)
theory TaskSteps
  imports TaskRuns
begin

unbundle bit_operations_syntax

text \<open>
  The steps of \<open>TaskSystem\<close> that write to the buffer, extend the log, or concern one task, keep the
  invariant of \<open>TaskRuns\<close>; and every reachable state satisfies it.
\<close>

section \<open>Enqueueing\<close>

lemma keeps_poll_writes:
  assumes inv: "task_inv k op drops s" and k: "k < 32" and ow: "ts_owner s = Checked (f, t)"
    and i: "i = current_write_index (2 ^ k) (ts_queue s)"
    and w: "write_task f waker i (cell_at (unat i) (ts_queue s)) (ts_futures s) = (cell, futs)"
    and s': "s' = s\<lparr>ts_queue := set_cell (unat i) cell (ts_queue s), ts_futures := futs, ts_owner := Written (f, t),
      ts_failed := ts_failed s \<or> length (buffer (inner (ts_queue s))) \<le> unat i\<rparr>"
    and sys: "sys_inv k (shared s')"
  shows "task_inv k op drops s'"
proof -
  note inv' = task_inv_dest [OF inv]
  let ?c = "length (ts_log s)"
  have ui: "unat i = ?c mod 2 ^ k" using write_cell_at [OF inv'(2) k] i by simp
  have len: "length (buffer (inner (ts_queue s))) = 2 ^ k" by (rule buffer_length [OF inv'(2)])
  have fut: "ts_futures s f = Some (Unbatched t)" using inv'(4) ow by (simp add: polled_unbatched_def)
  then have w': "cell = task_cell t f False" "futs = (ts_futures s)(f \<mapsto> Batched (receiver_new i waker))"
    using w by (simp_all add: write_task_def init_task_cell)
  have cell: "cell_at n (ts_queue s') = (if n = ?c mod 2 ^ k then task_cell t f False else cell_at n (ts_queue s))" for n
    by (simp add: s' cell_at_set_cell len ui w')
  have enq: "enqueued s = ?c" "enqueued s' = Suc ?c" by (simp_all add: enqueued_def ow s')
  have old: "fst (ts_log s ! j) \<noteq> f" if "j < ?c" for j
    using inv'(5) that fut by (auto simp: futures_ok_def)
  have fresh: "f \<notin> fst ` set (ts_log s)" using old by (metis imageE in_set_conv_nth)
  have lap: "j + 2 ^ k \<le> ?c" if "j < ?c" "j mod 2 ^ k = ?c mod 2 ^ k" for j
    using mod_eq_lap [OF that(2,1)] .
  have "races_ok k op drops s'"
    unfolding races_ok_def
  proof (intro allI impI)
    fix m j
    assume "m < length (ts_batches s')" "in_batch (length (ts_log s')) (ts_batches s' ! m) j"
    then have b: "m < length (ts_batches s)" "in_batch ?c (ts_batches s ! m) j" by (simp_all add: s')
    let ?v = "op (ts_log s ! j)"
    let ?pc = "pc_in (ts_batches s ! m) (ts_resolver s m) ?v j"
    have jc: "j < ?c" by (rule in_batch_log [OF inv'(2) b])
    have ok: "race_reachable drops ?v (race_of k s j ?pc)" using inv'(8) b by (simp add: races_ok_def)
    have "race_reachable drops ?v (race_of k s' j ?pc)"
    proof (cases "j mod 2 ^ k = ?c mod 2 ^ k")
      case True
      then have reused: "j + 2 ^ k < Suc ?c" using lap [OF jc] by simp
      have fin: "through ?pc" by (rule reused_race [OF inv'(2) b reused, of "(f, t)"]) (simp add: ow)
      have "race_of k s' j ?pc = (race_of k s j ?pc)\<lparr>reused := True, state_word := flags False False False\<rparr>"
        using True reused old [OF jc] enq by (simp add: race_of_def Let_def cell task_cell_def) (simp add: s' w')
      then show ?thesis using race_reuse [OF ok] fin by (simp add: race_of_def Let_def)
    next
      case False
      then have "j + 2 ^ k \<noteq> ?c" by (metis mod_add_self2)
      then have "race_of k s' j ?pc = race_of k s j ?pc"
        using False old [OF jc] enq by (simp add: race_of_def Let_def cell less_Suc_eq) (simp add: s' w')
      with ok show ?thesis by simp
    qed
    then show "race_reachable drops (op (ts_log s' ! j))
        (race_of k s' j (pc_in (ts_batches s' ! m) (ts_resolver s' m) (op (ts_log s' ! j)) j))"
      by (simp add: s')
  qed
  moreover have "cells_point s'"
    using inv'(3) unfolding cells_point_at by (simp add: cell task_cell_def) (simp add: s')
  moreover have "polled_unbatched s'" by (simp add: polled_unbatched_def s')
  moreover have "futures_ok k s'"
    unfolding futures_ok_def
  proof (intro conjI allI impI)
    show "distinct (map fst (ts_log s'))" using inv'(5) by (simp add: futures_ok_def s')
    fix j
    assume "j < length (ts_log s')"
    then have j: "j < ?c" by (simp add: s')
    have same: "ts_log s' = ts_log s" "ts_futures s' (fst (ts_log s ! j)) = ts_futures s (fst (ts_log s ! j))"
      using old [OF j] by (simp_all add: s' w')
    show "ts_futures s' (fst (ts_log s' ! j)) \<noteq> Some (Unbatched t)" for t
      using inv'(5) j by (simp add: same futures_ok_def)
    show "unat (rx_state rx) = j mod 2 ^ k" if "ts_futures s' (fst (ts_log s' ! j)) = Some (Batched rx)" for rx
      using inv'(5) j that by (simp add: same futures_ok_def)
    show "tr_rx (cell_at (j mod 2 ^ k) (ts_queue s')) = Some (fst (ts_log s' ! j))" if "enqueued s' \<le> j + 2 ^ k"
    proof -
      have "j mod 2 ^ k \<noteq> ?c mod 2 ^ k" using lap [OF j] that enq by auto
      then show ?thesis using inv'(5) j that enq by (simp add: same cell futures_ok_def)
    qed
  qed
  moreover have "others_ok s'" using inv'(6) by (auto simp: others_ok_def s' w' ow)
  moreover have "poll_ok k s'" using cell fresh ui by (simp add: poll_ok_def) (auto simp: s' w')
  moreover have "\<not> ts_failed s'" using inv'(1) len ui by (simp add: s' not_le)
  ultimately show ?thesis using sys by (simp add: task_inv_def)
qed

text \<open>The task that was written joins the log; the batches only grow.\<close>

lemma keeps_claim:
  assumes inv: "task_inv k op drops s" and ow: "ts_owner s = Written x" "\<And>y. ow' \<noteq> Written y" "\<And>y. ow' \<noteq> Checked y"
    and q: "buffer (inner q) = buffer (inner (ts_queue s))"
    and bs: "bs = ts_batches s \<or> (\<exists>base. bs = ts_batches s @
      [\<lparr>first = length (ts_log s), ended = None, stage = Claimed \<lparr>ur_base_slot = base\<rparr>\<rparr>])"
    and s': "s' = s\<lparr>ts_queue := q, ts_owner := ow', ts_log := ts_log s @ [x], ts_batches := bs\<rparr>"
    and sys: "sys_inv k (shared s')"
  shows "task_inv k op drops s'"
proof -
  note inv' = task_inv_dest [OF inv]
  let ?c = "length (ts_log s)"
  obtain f t where x: "x = (f, t)" by (cases x)
  have cell: "cell_at n q = cell_at n (ts_queue s)" for n by (simp add: cell_at_def q)
  obtain i waker where p: "f \<notin> fst ` set (ts_log s)" "cell_at (?c mod 2 ^ k) (ts_queue s) = task_cell t f False"
      "ts_futures s f = Some (Batched (receiver_new i waker))" "unat i = ?c mod 2 ^ k"
    using inv'(7) ow(1) x by (auto simp: poll_ok_def)
  have other: "ts_dropping s f = None" "f \<notin> ts_woken s" "values_of f (ts_returned s) = []" "values_of f (ts_discarded s) = []"
    using inv'(6) p(1) by (simp_all add: others_ok_def)
  have enq: "enqueued s = Suc ?c" "enqueued s' = Suc ?c"
    using ow(2) by (auto simp: enqueued_def s' ow(1) split: owner_step.splits)
  have "races_ok k op drops s'"
    unfolding races_ok_def
  proof (intro allI impI)
    fix m j
    assume "m < length (ts_batches s')" "in_batch (length (ts_log s')) (ts_batches s' ! m) j"
    then have b: "m < length bs" "in_batch (Suc ?c) (bs ! m) j" by (simp_all add: s')
    let ?v = "op (ts_log s' ! j)"
    let ?pc = "pc_in (bs ! m) (ts_resolver s m) ?v j"
    have mem: "bs ! m \<in> set (batches (shared s'))" using b(1) by (simp add: s')
    have "stage_ok (log (shared s')) (bs ! m)" using sys mem unfolding sys_inv_def by blast
    note stg = this [unfolded shared_simps]
    have "chain 0 (length (log (shared s'))) (batches (shared s'))" using sys by (simp add: sys_inv_def)
    from chain_bounds [OF this mem] have le: "batch_end (Suc ?c) (bs ! m) \<le> Suc ?c" by (simp add: s')
    show "race_reachable drops (op (ts_log s' ! j))
        (race_of k s' j (pc_in (ts_batches s' ! m) (ts_resolver s' m) (op (ts_log s' ! j)) j))"
    proof (cases "j = ?c")
      case True
      have "ended (bs ! m) = None \<or> ended (bs ! m) = Some (Suc ?c)"
        using b(2) le True by (cases "ended (bs ! m)") (auto simp: batch_end_def)
      moreover have "ended (bs ! m) \<noteq> Some (Suc ?c)"
      proof
        assume e: "ended (bs ! m) = Some (Suc ?c)"
        then have "m < length (ts_batches s)" "bs ! m = ts_batches s ! m"
          using bs b(1) by (auto simp: nth_append split: if_splits)
        then have "batch_end ?c (bs ! m) \<le> ?c" using chain_bounds [OF task_chain [OF inv'(2)], of "bs ! m"] by simp
        then show False using e by (simp add: batch_end_def)
      qed
      ultimately have "?pc = RBegin ?v" using stg by (auto simp: stage_ok_def pc_in_def split: stage.splits)
      moreover have "race_of k s' ?c (RBegin ?v) = race_start ?v"
        using p other enq unfolding race_of_def race_start_def Let_def
        by (simp add: s' x cell task_cell_def flags_0 receiver_memory_def receiver_pc_def receiver_new_def enqueued_def ow split: owner_step.splits)
      ultimately show ?thesis using race_reachable.start [of drops ?v] True by (simp add: s')
    next
      case False
      then have "j < ?c" using b(2) le by simp
      have bm: "m < length (ts_batches s)" "bs ! m = ts_batches s ! m"
        using bs b \<open>j < ?c\<close> by (auto simp: nth_append split: if_splits)
      have "in_batch ?c (ts_batches s ! m) j"
        using b(2) bm(2) \<open>j < ?c\<close> by (auto simp: batch_end_def split: option.splits)
      then have "race_reachable drops (op (ts_log s ! j))
          (race_of k s j (pc_in (ts_batches s ! m) (ts_resolver s m) (op (ts_log s ! j)) j))"
        using inv'(8) bm(1) by (simp add: races_ok_def)
      moreover have "race_of k s' j pc = race_of k s j pc" for pc :: "'c resolver_pc"
        using \<open>j < ?c\<close> enq unfolding race_of_def Let_def by (simp add: s' cell nth_append)
      ultimately show ?thesis using bm \<open>j < ?c\<close> by (simp add: s' nth_append)
    qed
  qed
  moreover have "cells_point s'" using inv'(3) by (simp add: cells_point_def s' q)
  moreover have "polled_unbatched s'" using ow(3) by (simp add: polled_unbatched_def s')
  moreover have "futures_ok k s'"
  proof -
    have "ts_log s' ! j = (if j < ?c then ts_log s ! j else x)" if "j < Suc ?c" for j
      using that by (auto simp: s' nth_append)
    then show ?thesis using inv'(5) p x enq unfolding futures_ok_def
      by (auto simp: s' cell task_cell_def receiver_new_def less_Suc_eq enqueued_def)
  qed
  moreover have "others_ok s'" using inv'(6) ow x by (fastforce simp: others_ok_def s')
  moreover have "poll_ok k s'" using ow(2) by (simp add: poll_ok_def s')
  ultimately show ?thesis using inv'(1) sys by (simp add: task_inv_def s')
qed

section \<open>Taking a task out\<close>

lemma keeps_takes:
  assumes inv: "task_inv k op drops s" and k: "k < 32" and m: "m < length (ts_batches s)"
    and st: "stage (ts_batches s ! m) = Mapping ta ts" and r: "ts_resolver s m = RDone \<and> r' = RBegin (op (the (tr_rx cell), t)) \<or> ts_resolver s m = RDropped \<and> r' = RDropped"
    and n: "length ts < length (assignment_tasks (2 ^ k) ta)" "i = assignment_tasks (2 ^ k) ta ! length ts"
    and take_: "take_task_unchecked (cell_at i (ts_queue s)) = Inr (t, cell)"
    and s': "s' = s\<lparr>ts_queue := set_cell i cell (ts_queue s),
      ts_batches := set_stage m (Mapping ta (ts @ [(the (tr_rx cell), t)])) (ts_batches s),
      ts_resolver := (ts_resolver s)(m := r')\<rparr>"
    and sys: "sys_inv k (shared s')"
  shows "task_inv k op drops s'"
proof -
  note inv' = task_inv_dest [OF inv]
  let ?b = "ts_batches s ! m" and ?c = "length (ts_log s)"
  let ?j = "first ?b + length ts"
  have mem: "?b \<in> set (batches (shared s))" using m by simp
  obtain e where e: "ended ?b = Some e" "?j \<le> e" "assignment_tasks (2 ^ k) ta = map (\<lambda>i. i mod 2 ^ k) [first ?b..<e]"
      and read: "?j < e \<Longrightarrow> read_cell (assignment_tasks (2 ^ k) ta ! length ts) (buffer (inner (sys_queue (shared s)))) =
        Inr (ts_log s ! ?j, clear_window (2 ^ k) ?j (Suc ?j) (buffer (inner (sys_queue (shared s)))))"
    using mapping_next [OF inv'(2) k mem st] by (metis shared_simps(3))
  have je: "?j < e" using n(1) e(2,3) by simp
  have "[first ?b..<e] ! length ts = ?j" using je by (rule nth_upt)
  then have i: "i = ?j mod 2 ^ k" using je by (simp add: n(2) e(3))
  then have il: "i < length (buffer (inner (ts_queue s)))" using buffer_length [OF inv'(2)] by simp
  have t: "ts_log s ! ?j = (the (tr_rx cell), t)"
    using read [OF je] shared_take [OF inv'(3) il take_] n(2) by simp
  have c: "cell = (cell_at i (ts_queue s))\<lparr>tr_task := None\<rparr>"
    using take_ by (auto simp: take_task_unchecked_def split: option.splits)
  have cell: "cell_at i' (ts_queue s') = (if i' = i then (cell_at i (ts_queue s))\<lparr>tr_task := None\<rparr> else cell_at i' (ts_queue s))" for i'
    using il by (simp add: s' cell_at_set_cell c)
  have run: "running ?b" using st by (simp add: running_def)
  let ?b' = "?b\<lparr>stage := Mapping ta (ts @ [(the (tr_rx cell), t)])\<rparr>"
  have pc: "pc_in ?b' r' (op (ts_log s ! j)) j = pc_in ?b (ts_resolver s m) (op (ts_log s ! j)) j \<or>
      pc_in ?b (ts_resolver s m) (op (ts_log s ! j)) j = RBegin (op (ts_log s ! j)) \<and> pc_in ?b' r' (op (ts_log s ! j)) j = RDropped" for j
    using t r by (cases "j = ?j") (auto simp: pc_in_def st settled_def)
  show ?thesis
  proof (rule keeps_frame [OF inv], goal_cases)
    case (12 x)
    have "Suc ?c \<le> ?j + 2 ^ k" using running_cells(1) [OF inv'(2) m run, of ?j] 12 by (simp add: enqueued_def)
    moreover have "in_batch ?c ?b ?j" using je e(1) by (simp add: batch_end_def)
    then have "?j < ?c" by (rule in_batch_log [OF inv'(2) m])
    ultimately have "?c mod 2 ^ k \<noteq> i" using mod_eq_lap [of ?j "2 ^ k" ?c] i by auto
    then show ?case by (simp add: cell)
  next
    case (15 n j)
    then show ?case using m pc by (cases "n = m") (auto simp: s' set_stage_def)
  next
    case 16
    then show ?case using sys by simp
  qed (use inv'(4) il in \<open>auto simp: s' cell_at_set_cell c polled_unbatched_def split: if_splits\<close>)
qed

section \<open>Resolving\<close>

lemma enqueued_simps [simp]:
  "enqueued (s\<lparr>ts_queue := q\<rparr>) = enqueued s" "enqueued (s\<lparr>ts_futures := fs\<rparr>) = enqueued s"
  "enqueued (s\<lparr>ts_resolver := r\<rparr>) = enqueued s" "enqueued (s\<lparr>ts_dropping := d\<rparr>) = enqueued s"
  "enqueued (s\<lparr>ts_woken := w\<rparr>) = enqueued s" "enqueued (s\<lparr>ts_returned := vs\<rparr>) = enqueued s"
  "enqueued (s\<lparr>ts_discarded := vs\<rparr>) = enqueued s"
  by (simp_all add: enqueued_def split: owner_step.splits)

lemmas race_simps = race_of_def Let_def cell_at_set_cell receiver_memory_def receiver_pc_def

lemma logged_future:
  assumes "futures_ok k s" "j < length (ts_log s)"
  shows "ts_futures s (fst (ts_log s ! j)) \<noteq> Some (Unbatched t)"
    and "ts_futures s (fst (ts_log s ! j)) = Some (Batched rx) \<Longrightarrow> unat (rx_state rx) = j mod 2 ^ k"
  using assms by (simp_all add: futures_ok_def)

text \<open>
  A step of the thread that resolves the \<open>j\<close>-th task, after which it is at \<open>pc\<close>.
\<close>

lemma keeps_resolving:
  assumes inv: "task_inv k op drops s" and k: "k < 32" and i: "resolving (2 ^ k) (ts_batches s) m = Some i"
    and s': "s' = s\<lparr>ts_queue := q, ts_futures := futs, ts_woken := woken, ts_discarded := vs,
      ts_resolver := (ts_resolver s)(m := pc)\<rparr>"
    and q: "q = ts_queue s \<or> q = set_cell i ((cell_at i (ts_queue s))\<lparr>tr_state := w\<rparr>) (ts_queue s)"
    and f: "tr_rx (cell_at i (ts_queue s)) = Some f" and live: "ts_resolver s m \<noteq> RDropped" "pc \<noteq> RDropped"
    and others: "\<And>g. g \<noteq> f \<Longrightarrow> futs g = ts_futures s g \<and> (g \<in> woken \<longleftrightarrow> g \<in> ts_woken s) \<and>
      values_of g vs = values_of g (ts_discarded s)"
    and future: "futs f = ts_futures s f \<or> (\<exists>rx rx'. ts_futures s f = Some (Batched rx) \<and> futs f = Some (Batched rx') \<and>
      rx_state rx' = rx_state rx)"
    and race: "\<And>j. fst (ts_log s ! j) = f \<Longrightarrow> i = j mod 2 ^ k \<Longrightarrow> i < length (buffer (inner (ts_queue s))) \<Longrightarrow>
      enqueued s \<le> j + 2 ^ k \<Longrightarrow> race_reachable drops (op (ts_log s ! j)) (race_of k s j (ts_resolver s m)) \<Longrightarrow>
      race_step drops (race_of k s j (ts_resolver s m)) (race_of k s' j pc)"
  shows "task_inv k op drops s'"
proof -
  note inv' = task_inv_dest [OF inv]
  obtain j where m: "m < length (ts_batches s)" "in_batch (length (ts_log s)) (ts_batches s ! m) j"
    and j: "i = j mod 2 ^ k" "enqueued s \<le> j + 2 ^ k" "j < length (ts_log s)"
      "tr_rx (cell_at i (ts_queue s)) = Some (fst (ts_log s ! j))"
    and pcs: "\<And>(r :: 'c resolver_pc) v. pc_in (ts_batches s ! m) r v j = r"
      "\<And>(r :: 'c resolver_pc) v j'. j' \<noteq> j \<Longrightarrow> r \<noteq> RDropped \<Longrightarrow>
        pc_in (ts_batches s ! m) r v j' = pc_in (ts_batches s ! m) RDone v j'"
    by (rule resolving_at [OF inv k i]) (rule that)
  have fj: "fst (ts_log s ! j) = f" using f j(4) by simp
  have il: "i < length (buffer (inner (ts_queue s)))" using buffer_length [OF inv'(2)] by (simp add: j(1))
  have "race_reachable drops (op (ts_log s ! j))
      (race_of k s j (pc_in (ts_batches s ! m) (ts_resolver s m) (op (ts_log s ! j)) j))"
    using inv'(8) m by (simp add: races_ok_def)
  then have ok: "race_reachable drops (op (ts_log s ! j)) (race_of k s j (ts_resolver s m))" by (simp add: pcs(1))
  have fut: "ts_futures s f \<noteq> Some (Unbatched t)"
    "ts_futures s f = Some (Batched rx) \<Longrightarrow> unat (rx_state rx) = j mod 2 ^ k" for t rx
    using logged_future [OF inv'(5) j(3)] fj by auto
  show ?thesis
  proof (rule keeps_local [OF inv k m, where w = w], goal_cases)
    case 5
    then show ?case using q j by (auto simp: s')
  next
    case (6 g)
    then show ?case using others fj by (auto simp: s')
  next
    case (7 t)
    then show ?case using future fut by (auto simp: s' fj)
  next
    case (8 rx)
    then show ?case using future fut by (auto simp: s' fj)
  next
    case (10 v j')
    then show ?case using pcs(2) [OF _ live(1), of j' v] pcs(2) [OF _ live(2), of j' v] by (simp add: s')
  next
    case (11 v)
    then show ?case using race [OF fj j(1) il j(2) ok] by (simp add: pcs(1) s')
  qed (simp_all add: s')
qed

lemma keeps_resolve_begins:
  assumes "task_inv k op drops s" "k < 32" "resolving (2 ^ k) (ts_batches s) m = Some i" "ts_resolver s m = RBegin v"
    and "cell = cell_at i (ts_queue s)"
  shows "task_inv k op drops (s\<lparr>ts_queue := set_cell i (cell\<lparr>tr_state := tr_state cell OR SETTING_VALUE\<rparr>) (ts_queue s),
    ts_resolver := (ts_resolver s)(m := RLoaded (tr_state cell) v)\<rparr>)"
proof -
  obtain f where f: "tr_rx (cell_at i (ts_queue s)) = Some f"
    using resolving_at [OF assms(1-3)] by metis
  show ?thesis
  proof (rule keeps_resolving [OF assms(1-3) _ _ f, where pc = "RLoaded (tr_state cell) v" and w = "tr_state cell OR SETTING_VALUE"])
    fix j
    assume "fst (ts_log s ! j) = f" "i = j mod 2 ^ k" "i < length (buffer (inner (ts_queue s)))"
    then show "race_step drops (race_of k s j (ts_resolver s m))
        (race_of k (s\<lparr>ts_queue := set_cell i (cell\<lparr>tr_state := tr_state cell OR SETTING_VALUE\<rparr>) (ts_queue s),
          ts_resolver := (ts_resolver s)(m := RLoaded (tr_state cell) v)\<rparr>) j (RLoaded (tr_state cell) v))"
      using race_step.begin_setting [of "race_of k s j (RBegin v)" v drops] assms(4,5)
      by (simp add: race_simps)
  qed (use assms(4,5) in auto)
qed

lemma keeps_resolve_writes:
  assumes "task_inv k op drops s" "k < 32" "resolving (2 ^ k) (ts_batches s) m = Some i" "ts_resolver s m = RLoaded state v"
    and "state AND RX_DROPPED = 0" "tr_rx (cell_at i (ts_queue s)) = Some f" "ts_futures s f = Some (Batched rx)"
  shows "task_inv k op drops (s\<lparr>ts_futures := deliver (ts_futures s) f rx v, ts_resolver := (ts_resolver s)(m := RWrote)\<rparr>)"
proof (rule keeps_resolving [OF assms(1-3) _ _ assms(6), where pc = RWrote and q = "ts_queue s" and
    futs = "deliver (ts_futures s) f rx v" and woken = "ts_woken s" and vs = "ts_discarded s"])
  fix j
  assume "fst (ts_log s ! j) = f"
  then show "race_step drops (race_of k s j (ts_resolver s m))
      (race_of k (s\<lparr>ts_futures := deliver (ts_futures s) f rx v, ts_resolver := (ts_resolver s)(m := RWrote)\<rparr>) j RWrote)"
    using race_step.write_value [of "race_of k s j (RLoaded state v)" state v drops] assms(4,5,7)
    by (simp add: race_simps deliver_def)
qed (auto simp: deliver_def assms(4,7))

lemma keeps_resolve_discards:
  assumes "task_inv k op drops s" "k < 32" "resolving (2 ^ k) (ts_batches s) m = Some i" "ts_resolver s m = RLoaded state v"
    and "state AND RX_DROPPED \<noteq> 0"
  shows "task_inv k op drops (s\<lparr>ts_discarded := (the (tr_rx (cell_at i (ts_queue s))), v) # ts_discarded s,
    ts_resolver := (ts_resolver s)(m := RDone)\<rparr>)"
proof -
  obtain f where f: "tr_rx (cell_at i (ts_queue s)) = Some f"
    using resolving_at [OF assms(1-3)] by metis
  show ?thesis
  proof (rule keeps_resolving [OF assms(1-3) _ _ f, where pc = RDone and q = "ts_queue s" and
      futs = "ts_futures s" and woken = "ts_woken s" and vs = "(f, v) # ts_discarded s"])
    fix j
    assume "fst (ts_log s ! j) = f"
    then show "race_step drops (race_of k s j (ts_resolver s m))
        (race_of k (s\<lparr>ts_discarded := (the (tr_rx (cell_at i (ts_queue s))), v) # ts_discarded s,
          ts_resolver := (ts_resolver s)(m := RDone)\<rparr>) j RDone)"
      using race_step.discard_value [of "race_of k s j (RLoaded state v)" state v drops] assms(4,5)
      by (simp add: race_simps f)
  qed (auto simp: f assms(4))
qed

lemma keeps_resolve_wakes:
  assumes "task_inv k op drops s" "k < 32" "resolving (2 ^ k) (ts_batches s) m = Some i" "ts_resolver s m = RWrote"
    and "tr_rx (cell_at i (ts_queue s)) = Some f" "ts_futures s f = Some (Batched rx)"
  shows "task_inv k op drops (s\<lparr>ts_woken := insert f (ts_woken s), ts_resolver := (ts_resolver s)(m := RWoke)\<rparr>)"
proof (rule keeps_resolving [OF assms(1-3) _ _ assms(5), where pc = RWoke and q = "ts_queue s" and
    futs = "ts_futures s" and woken = "insert f (ts_woken s)" and vs = "ts_discarded s"])
  fix j
  assume "fst (ts_log s ! j) = f"
  then show "race_step drops (race_of k s j (ts_resolver s m))
      (race_of k (s\<lparr>ts_woken := insert f (ts_woken s), ts_resolver := (ts_resolver s)(m := RWoke)\<rparr>) j RWoke)"
    using race_step.wake [of "race_of k s j RWrote" drops] assms(4,6)
    by (simp add: race_simps)
qed (auto simp: assms(4))

lemma keeps_resolve_finishes:
  assumes "task_inv k op drops s" "k < 32" "resolving (2 ^ k) (ts_batches s) m = Some i" "ts_resolver s m = RWoke"
    and "cell = cell_at i (ts_queue s)"
  shows "task_inv k op drops (s\<lparr>ts_queue := set_cell i (cell\<lparr>tr_state := tr_state cell XOR (SETTING_VALUE OR VALUE_SET)\<rparr>) (ts_queue s),
    ts_resolver := (ts_resolver s)(m := RDone)\<rparr>)"
proof -
  obtain f where f: "tr_rx (cell_at i (ts_queue s)) = Some f"
    using resolving_at [OF assms(1-3)] by metis
  show ?thesis
  proof (rule keeps_resolving [OF assms(1-3) _ _ f, where pc = RDone and w = "tr_state cell XOR (SETTING_VALUE OR VALUE_SET)"])
    fix j
    assume "fst (ts_log s ! j) = f" "i = j mod 2 ^ k" "i < length (buffer (inner (ts_queue s)))"
    then show "race_step drops (race_of k s j (ts_resolver s m))
        (race_of k (s\<lparr>ts_queue := set_cell i (cell\<lparr>tr_state := tr_state cell XOR (SETTING_VALUE OR VALUE_SET)\<rparr>) (ts_queue s),
          ts_resolver := (ts_resolver s)(m := RDone)\<rparr>) j RDone)"
      using race_step.finish_setting [of "race_of k s j RWoke" drops] assms(4,5)
      by (simp add: race_simps)
  qed (use assms(4,5) in auto)
qed

text \<open>The receiver is there whenever the resolver accesses it.\<close>

lemma resolving_race:
  assumes inv: "task_inv k op drops s" and k: "k < 32" and i: "resolving (2 ^ k) (ts_batches s) m = Some i"
  obtains j where "m < length (ts_batches s)" "in_batch (length (ts_log s)) (ts_batches s ! m) j" "i = j mod 2 ^ k"
    "tr_rx (cell_at i (ts_queue s)) = Some (fst (ts_log s ! j))"
    "race_reachable drops (op (ts_log s ! j)) (race_of k s j (ts_resolver s m))"
proof -
  obtain j where m: "m < length (ts_batches s)" "in_batch (length (ts_log s)) (ts_batches s ! m) j"
    and j: "i = j mod 2 ^ k" "tr_rx (cell_at i (ts_queue s)) = Some (fst (ts_log s ! j))"
    and pc: "\<And>(r :: 'c resolver_pc) v. pc_in (ts_batches s ! m) r v j = r"
    by (rule resolving_at [OF inv k i]) (rule that)
  have "race_reachable drops (op (ts_log s ! j))
      (race_of k s j (pc_in (ts_batches s ! m) (ts_resolver s m) (op (ts_log s ! j)) j))"
    using task_inv_dest(8) [OF inv] m by (simp add: races_ok_def)
  then have "race_reachable drops (op (ts_log s ! j)) (race_of k s j (ts_resolver s m))" by (simp only: pc)
  from that [OF m j this] show ?thesis .
qed

lemma resolve_finds_receiver:
  assumes "task_inv k op drops s" "k < 32" "resolving (2 ^ k) (ts_batches s) m = Some i"
    and "(\<exists>state v. ts_resolver s m = RLoaded state v \<and> state AND RX_DROPPED = 0) \<or> ts_resolver s m = RWrote"
  shows "\<exists>f rx. tr_rx (cell_at i (ts_queue s)) = Some f \<and> ts_futures s f = Some (Batched rx)"
proof -
  obtain j where j: "tr_rx (cell_at i (ts_queue s)) = Some (fst (ts_log s ! j))"
      "race_reachable drops (op (ts_log s ! j)) (race_of k s j (ts_resolver s m))"
    using resolving_race [OF assms(1-3)] by metis
  have "receiver_memory (ts_futures s (fst (ts_log s ! j))) \<noteq> None"
    using race_inv_reachable [OF j(2)] assms(4) by (auto simp: race_inv_def race_of_def Let_def)
  with j(1) show ?thesis by (auto simp: receiver_memory_def split: option.splits batched_task.splits)
qed

section \<open>The owner of a future\<close>

text \<open>A cell that points back at a future is its own: it was not reused.\<close>

lemma latest_lap:
  assumes "(j::nat) < e" "0 < n"
  obtains j' where "j \<le> j'" "j' < e" "e \<le> j' + n" "j' mod n = j mod n"
proof -
  define x where "x = (e - 1 - j) div n * n"
  have "x \<le> e - 1 - j" unfolding x_def by (rule div_times_less_eq_dividend)
  moreover have "e - 1 - j < n + x" unfolding x_def by (rule dividend_less_div_times [OF assms(2)])
  ultimately have "j \<le> j + x" "j + x < e" "e \<le> (j + x) + n" using assms(1) by linarith+
  moreover have "(j + x) mod n = j mod n" by (simp add: x_def)
  ultimately show ?thesis by (rule that)
qed

lemma own_cell:
  assumes inv: "task_inv k op drops s" and j: "j < length (ts_log s)"
    and rx: "tr_rx (cell_at (j mod 2 ^ k) (ts_queue s)) = Some (fst (ts_log s ! j))"
  shows "enqueued s \<le> j + 2 ^ k"
proof (rule ccontr)
  note inv' = task_inv_dest [OF inv]
  assume "\<not> ?thesis"
  then have late: "j + 2 ^ k < enqueued s" by simp
  obtain j' where j': "j \<le> j'" "j' < enqueued s" "enqueued s \<le> j' + 2 ^ k" "j' mod 2 ^ k = j mod 2 ^ k"
    by (rule latest_lap [of j "enqueued s" "2 ^ k"]) (use late in simp_all)
  have "j \<noteq> j'" using late j'(3) by auto
  have mem: "fst (ts_log s ! j) \<in> fst ` set (ts_log s)" using j by simp
  show False
  proof (cases "j' < length (ts_log s)")
    case True
    then have "tr_rx (cell_at (j' mod 2 ^ k) (ts_queue s)) = Some (fst (ts_log s ! j'))"
      using inv'(5) j'(3) by (simp add: futures_ok_def)
    then have "fst (ts_log s ! j) = fst (ts_log s ! j')" using rx j'(4) by simp
    then show False
      using inv'(5) j True \<open>j \<noteq> j'\<close> nth_eq_iff_index_eq [of "map fst (ts_log s)" j j'] by (simp add: futures_ok_def)
  next
    case False
    then obtain f t where "ts_owner s = Written (f, t)" "j' = length (ts_log s)"
      using j'(2) by (auto simp: enqueued_def split: owner_step.splits)
    then have "f \<notin> fst ` set (ts_log s)" "tr_rx (cell_at (j' mod 2 ^ k) (ts_queue s)) = Some f"
      using inv'(7) by (simp_all add: poll_ok_def task_cell_def)
    then show False using rx j'(4) mem by simp
  qed
qed

lemma batch_of:
  assumes "task_inv k op drops s" "f \<in> fst ` set (ts_log s)"
  obtains m j where "m < length (ts_batches s)" "in_batch (length (ts_log s)) (ts_batches s ! m) j"
    "j < length (ts_log s)" "fst (ts_log s ! j) = f"
    "race_reachable drops (op (ts_log s ! j))
      (race_of k s j (pc_in (ts_batches s ! m) (ts_resolver s m) (op (ts_log s ! j)) j))"
proof -
  note inv = task_inv_dest [OF assms(1)]
  obtain j where j: "j < length (ts_log s)" "fst (ts_log s ! j) = f"
    using assms(2) by (metis imageE in_set_conv_nth)
  obtain m where m: "m < length (ts_batches s)" "in_batch (length (ts_log s)) (ts_batches s ! m) j"
    using chain_covers [OF task_chain [OF inv(2)] _ j(1)] by auto
  then have "race_reachable drops (op (ts_log s ! j))
      (race_of k s j (pc_in (ts_batches s ! m) (ts_resolver s m) (op (ts_log s ! j)) j))"
    using inv(8) by (simp add: races_ok_def)
  from that [OF m j this] show ?thesis .
qed

lemma keeps_future:
  assumes inv: "task_inv k op drops s" and k: "k < 32" and f: "f \<in> fst ` set (ts_log s)"
    and s': "s' = s\<lparr>ts_queue := q, ts_futures := (ts_futures s)(f := fut), ts_dropping := (ts_dropping s)(f := d),
      ts_returned := rs, ts_discarded := vs\<rparr>"
    and q: "q = ts_queue s \<or> (\<exists>rx. ts_futures s f = Some (Batched rx) \<and> tr_rx (cell_at (unat (rx_state rx)) (ts_queue s)) = Some f \<and>
      q = set_cell (unat (rx_state rx)) ((cell_at (unat (rx_state rx)) (ts_queue s))\<lparr>tr_state := w\<rparr>) (ts_queue s))"
    and others: "\<And>g. g \<noteq> f \<Longrightarrow> values_of g rs = values_of g (ts_returned s) \<and> values_of g vs = values_of g (ts_discarded s)"
    and fut: "fut = ts_futures s f \<or> fut = Some Received \<or> fut = None"
    and race: "\<And>j pc. fst (ts_log s ! j) = f \<Longrightarrow> j mod 2 ^ k < length (buffer (inner (ts_queue s))) \<Longrightarrow>
      (\<And>rx. ts_futures s f = Some (Batched rx) \<Longrightarrow> unat (rx_state rx) = j mod 2 ^ k) \<Longrightarrow>
      (tr_rx (cell_at (j mod 2 ^ k) (ts_queue s)) = Some f \<Longrightarrow> enqueued s \<le> j + 2 ^ k) \<Longrightarrow>
      race_step drops (race_of k s j pc) (race_of k s' j pc)"
  shows "task_inv k op drops s'"
proof -
  note inv' = task_inv_dest [OF inv]
  obtain m j where m: "m < length (ts_batches s)" "in_batch (length (ts_log s)) (ts_batches s ! m) j"
    and j: "j < length (ts_log s)" "fst (ts_log s ! j) = f"
    using batch_of [OF inv f] by metis
  have state: "unat (rx_state rx) = j mod 2 ^ k" if "ts_futures s f = Some (Batched rx)" for rx
    using logged_future(2) [OF inv'(5) j(1)] that j(2) by simp
  have own: "enqueued s \<le> j + 2 ^ k" if "tr_rx (cell_at (j mod 2 ^ k) (ts_queue s)) = Some f"
    using own_cell [OF inv j(1)] that j(2) by simp
  have len: "j mod 2 ^ k < length (buffer (inner (ts_queue s)))" using buffer_length [OF inv'(2)] by simp
  show ?thesis
  proof (rule keeps_local [OF inv k m, where w = w], goal_cases)
    case 5
    then show ?case using q state own by (auto simp: s')
  next
    case (6 g)
    then show ?case using others j(2) by (auto simp: s')
  next
    case (7 t)
    then show ?case using fut logged_future(1) [OF inv'(5) j(1), of t] by (auto simp: s' j(2))
  next
    case (8 rx)
    then show ?case using fut state by (auto simp: s' j(2))
  next
    case (11 v)
    have "race_step drops (race_of k s j pc) (race_of k s' j pc)" for pc
      by (rule race [OF j(2) len state own])
    then show ?case by (simp add: s')
  qed (simp_all add: s')
qed

lemma dropping_logged:
  assumes "task_inv k op drops s" "ts_dropping s f = Some state"
  shows "f \<in> fst ` set (ts_log s)"
  using task_inv_dest(6) [OF assms(1)] assms(2) by (auto simp: others_ok_def)

lemma woken_logged:
  assumes "task_inv k op drops s" "f \<in> ts_woken s"
  shows "f \<in> fst ` set (ts_log s)"
  using task_inv_dest(6) [OF assms(1)] assms(2) by (auto simp: others_ok_def)

lemma batched_logged:
  assumes "task_inv k op drops s" "ts_futures s f = Some (Batched rx)" "\<not> in_poll (ts_owner s) f"
  shows "f \<in> fst ` set (ts_log s)"
  using task_inv_dest(6) [OF assms(1)] assms(2,3) by (auto simp: others_ok_def in_poll_def)

lemma keeps_poll_ready:
  assumes "task_inv k op drops s" "k < 32" "f \<in> ts_woken s" "ts_futures s f = Some (Batched rx)" "ts_dropping s f = None"
    and "rx_value rx = Some v"
  shows "task_inv k op drops (s\<lparr>ts_futures := (ts_futures s)(f \<mapsto> Received), ts_returned := (f, v) # ts_returned s\<rparr>)"
proof (rule keeps_future [OF assms(1,2) woken_logged [OF assms(1,3)], where q = "ts_queue s" and fut = "Some Received" and
    d = "ts_dropping s f" and rs = "(f, v) # ts_returned s" and vs = "ts_discarded s"])
  fix j and pc :: "'c resolver_pc"
  assume "fst (ts_log s ! j) = f"
  then show "race_step drops (race_of k s j pc)
      (race_of k (s\<lparr>ts_futures := (ts_futures s)(f \<mapsto> Received), ts_returned := (f, v) # ts_returned s\<rparr>) j pc)"
    using race_step.poll_value [of "race_of k s j pc" v drops] assms(3-6) by (simp add: race_simps)
qed auto

lemma keeps_drop_begins:
  assumes "task_inv k op drops s" "k < 32" "ts_futures s f = Some (Batched rx)" "ts_dropping s f = None"
    and "\<not> in_poll (ts_owner s) f" "i = unat (rx_state rx)" "cell = cell_at i (ts_queue s)" "tr_rx cell = Some f"
  shows "task_inv k op drops (s\<lparr>ts_queue := set_cell i (cell\<lparr>tr_state := tr_state cell OR RX_DROPPED\<rparr>) (ts_queue s),
    ts_dropping := (ts_dropping s)(f \<mapsto> tr_state cell)\<rparr>)"
proof (rule keeps_future [OF assms(1,2) batched_logged [OF assms(1,3,5)], where fut = "ts_futures s f" and
    q = "set_cell i (cell\<lparr>tr_state := tr_state cell OR RX_DROPPED\<rparr>) (ts_queue s)" and
    w = "tr_state cell OR RX_DROPPED" and
    d = "Some (tr_state cell)" and rs = "ts_returned s" and vs = "ts_discarded s"])
  fix j and pc :: "'c resolver_pc"
  assume j: "fst (ts_log s ! j) = f" "j mod 2 ^ k < length (buffer (inner (ts_queue s)))"
    and st: "\<And>rx. ts_futures s f = Some (Batched rx) \<Longrightarrow> unat (rx_state rx) = j mod 2 ^ k"
    and own: "tr_rx (cell_at (j mod 2 ^ k) (ts_queue s)) = Some f \<Longrightarrow> enqueued s \<le> j + 2 ^ k"
  have i: "i = j mod 2 ^ k" using st [OF assms(3)] assms(6) by simp
  then have "\<not> reused (race_of k s j pc)" using own assms(7,8) by (simp add: race_of_def Let_def)
  then show "race_step drops (race_of k s j pc)
      (race_of k (s\<lparr>ts_queue := set_cell i (cell\<lparr>tr_state := tr_state cell OR RX_DROPPED\<rparr>) (ts_queue s),
        ts_dropping := (ts_dropping s)(f \<mapsto> tr_state cell)\<rparr>) j pc)"
    using race_step.begin_drop [of "race_of k s j pc" drops] assms(3,4,7) j i by (simp add: race_simps)
qed (use assms(3,6-8) in \<open>auto simp: fun_upd_idem\<close>)

lemma keeps_drop_spins:
  assumes "task_inv k op drops s" "k < 32" "ts_dropping s f = Some state" "ts_futures s f = Some (Batched rx)"
    and "state AND SETTING_VALUE = SETTING_VALUE"
  shows "task_inv k op drops (s\<lparr>ts_dropping := (ts_dropping s)(f \<mapsto> tr_state (cell_at (unat (rx_state rx)) (ts_queue s)))\<rparr>)"
proof (rule keeps_future [OF assms(1,2) dropping_logged [OF assms(1,3)], where fut = "ts_futures s f" and q = "ts_queue s" and
    d = "Some (tr_state (cell_at (unat (rx_state rx)) (ts_queue s)))" and rs = "ts_returned s" and vs = "ts_discarded s"])
  fix j and pc :: "'c resolver_pc"
  assume "fst (ts_log s ! j) = f" and st: "\<And>rx. ts_futures s f = Some (Batched rx) \<Longrightarrow> unat (rx_state rx) = j mod 2 ^ k"
  then show "race_step drops (race_of k s j pc)
      (race_of k (s\<lparr>ts_dropping := (ts_dropping s)(f \<mapsto> tr_state (cell_at (unat (rx_state rx)) (ts_queue s)))\<rparr>) j pc)"
    using race_step.spin [of "race_of k s j pc" state drops] assms(3-5) st [OF assms(4)] by (simp add: race_simps)
qed auto

lemma keeps_drop_values:
  assumes "task_inv k op drops s" "k < 32" "ts_dropping s f = Some state" "ts_futures s f = Some (Batched rx)"
    and "state AND SETTING_VALUE \<noteq> SETTING_VALUE" "drops" "state AND VALUE_SET = VALUE_SET" "rx_value rx = Some v"
  shows "task_inv k op drops (s\<lparr>ts_futures := (ts_futures s)(f := None), ts_dropping := (ts_dropping s)(f := None),
    ts_discarded := (f, v) # ts_discarded s\<rparr>)"
proof (rule keeps_future [OF assms(1,2) dropping_logged [OF assms(1,3)], where fut = None and q = "ts_queue s" and
    d = None and rs = "ts_returned s" and vs = "(f, v) # ts_discarded s"])
  fix j and pc :: "'c resolver_pc"
  assume "fst (ts_log s ! j) = f"
  then show "race_step drops (race_of k s j pc)
      (race_of k (s\<lparr>ts_futures := (ts_futures s)(f := None), ts_dropping := (ts_dropping s)(f := None),
        ts_discarded := (f, v) # ts_discarded s\<rparr>) j pc)"
    using race_step.drop_value [of "race_of k s j pc" state drops] assms(3-8) by (simp add: race_simps)
qed auto

lemma keeps_drop_only:
  assumes "task_inv k op drops s" "k < 32" "ts_dropping s f = Some state" "ts_futures s f = Some (Batched rx)"
    and "state AND SETTING_VALUE \<noteq> SETTING_VALUE" "\<not> (drops \<and> state AND VALUE_SET = VALUE_SET)"
  shows "task_inv k op drops (s\<lparr>ts_futures := (ts_futures s)(f := None), ts_dropping := (ts_dropping s)(f := None)\<rparr>)"
proof (rule keeps_future [OF assms(1,2) dropping_logged [OF assms(1,3)], where fut = None and q = "ts_queue s" and
    d = None and rs = "ts_returned s" and vs = "ts_discarded s"])
  fix j and pc :: "'c resolver_pc"
  assume "fst (ts_log s ! j) = f"
  then show "race_step drops (race_of k s j pc)
      (race_of k (s\<lparr>ts_futures := (ts_futures s)(f := None), ts_dropping := (ts_dropping s)(f := None)\<rparr>) j pc)"
    using race_step.drop_only [of "race_of k s j pc" state drops] assms(3-6) by (simp add: race_simps)
qed auto

text \<open>A future that was not enqueued is just dropped.\<close>

lemma keeps_drop_unbatched:
  assumes inv: "task_inv k op drops s" and f: "ts_futures s f = Some (Unbatched t)" "\<not> in_poll (ts_owner s) f"
  shows "task_inv k op drops (s\<lparr>ts_futures := (ts_futures s)(f := None)\<rparr>)"
proof -
  note inv' = task_inv_dest [OF inv]
  let ?s = "s\<lparr>ts_futures := (ts_futures s)(f := None)\<rparr>"
  have log: "fst (ts_log s ! j) \<noteq> f" if "j < length (ts_log s)" for j
    using logged_future(1) [OF inv'(5) that, of t] f(1) by auto
  have race: "race_of k ?s j pc = race_of k s j pc" if "j < length (ts_log s)" for j and pc :: "'c resolver_pc"
    using log [OF that] by (simp add: race_of_def Let_def)
  have "races_ok k op drops ?s"
    using inv'(8) in_batch_log [OF inv'(2)] by (simp add: races_ok_def race)
  moreover have "cells_point ?s" using inv'(3) by (simp add: cells_point_def)
  moreover have "polled_unbatched ?s" using inv'(4) f(2) by (auto simp: polled_unbatched_def in_poll_def)
  moreover have "futures_ok k ?s" using inv'(5) log by (simp add: futures_ok_def)
  moreover have "others_ok ?s" using inv'(6) by (simp add: others_ok_def)
  moreover have "poll_ok k ?s" using inv'(7) f(2) by (auto simp: poll_ok_def in_poll_def)
  moreover have "sys_inv k (shared ?s)" using inv'(2) by (simp add: shared_def)
  ultimately show ?thesis using inv'(1) by (simp add: task_inv_def)
qed

section \<open>No access fails\<close>

lemma race_never_breaks:
  assumes "race_step drops r r'" "race_reachable drops v r"
  shows "\<not> broken r'"
  using race_inv_reachable [OF race_reachable.step [OF assms(2,1)]] by (simp add: race_inv_def)

lemma woken_has_value:
  assumes "task_inv k op drops s" "f \<in> ts_woken s" "ts_futures s f = Some (Batched rx)" "ts_dropping s f = None"
  shows "rx_value rx \<noteq> None"
proof
  assume none: "rx_value rx = None"
  obtain m j where j: "fst (ts_log s ! j) = f" and ok: "race_reachable drops (op (ts_log s ! j))
      (race_of k s j (pc_in (ts_batches s ! m) (ts_resolver s m) (op (ts_log s ! j)) j))"
    using batch_of [OF assms(1) woken_logged [OF assms(1,2)]] by metis
  let ?r = "race_of k s j (pc_in (ts_batches s ! m) (ts_resolver s m) (op (ts_log s ! j)) j)"
  have "race_step drops ?r (?r\<lparr>opc := OReceived, rx_mem := None, broken := True\<rparr>)"
    by (rule race_step.poll_uninit) (simp_all add: race_simps j assms(2-4) none)
  from race_never_breaks [OF this ok] show False by simp
qed

lemma dropped_has_value:
  assumes "task_inv k op drops s" "ts_dropping s f = Some state" "ts_futures s f = Some (Batched rx)"
    and "state AND SETTING_VALUE \<noteq> SETTING_VALUE" "drops" "state AND VALUE_SET = VALUE_SET"
  shows "rx_value rx \<noteq> None"
proof
  assume none: "rx_value rx = None"
  obtain m j where j: "fst (ts_log s ! j) = f" and ok: "race_reachable drops (op (ts_log s ! j))
      (race_of k s j (pc_in (ts_batches s ! m) (ts_resolver s m) (op (ts_log s ! j)) j))"
    using batch_of [OF assms(1) dropping_logged [OF assms(1,2)]] by metis
  let ?r = "race_of k s j (pc_in (ts_batches s ! m) (ts_resolver s m) (op (ts_log s ! j)) j)"
  have "race_step drops ?r (?r\<lparr>opc := ODropped, rx_mem := None, broken := broken ?r \<or> rx_mem ?r \<in> {None, Some None},
      discarded := (case rx_mem ?r of Some (Some v) \<Rightarrow> v # discarded ?r | _ \<Rightarrow> discarded ?r)\<rparr>)"
    by (rule race_step.drop_value [of _ state]) (simp_all add: race_simps j assms)
  from race_never_breaks [OF this ok] show False by (simp add: race_simps j assms(3) none)
qed

lemma mapping_has_task:
  assumes "task_inv k op drops s" "k < 32" "m < length (ts_batches s)" "stage (ts_batches s ! m) = Mapping ta ts"
    and "length ts < length (assignment_tasks (2 ^ k) ta)" "i = assignment_tasks (2 ^ k) ta ! length ts"
  shows "take_task_unchecked (cell_at i (ts_queue s)) \<noteq> Inl e"
proof -
  note inv = task_inv_dest [OF assms(1)]
  let ?b = "ts_batches s ! m"
  have mem: "?b \<in> set (batches (shared s))" using assms(3) by simp
  obtain e' where e: "first ?b + length ts \<le> e'" "assignment_tasks (2 ^ k) ta = map (\<lambda>i. i mod 2 ^ k) [first ?b..<e']"
      "first ?b + length ts < e' \<Longrightarrow> \<exists>r.
        read_cell (assignment_tasks (2 ^ k) ta ! length ts) (buffer (inner (sys_queue (shared s)))) = Inr r"
    using mapping_next [OF inv(2) assms(2) mem assms(4)] by metis
  have "first ?b + length ts < e'" using assms(5) e(1,2) by simp
  from e(3) [OF this] obtain r where "read_cell i (map task_in (buffer (inner (ts_queue s)))) = Inr r"
    by (auto simp: assms(6))
  then show ?thesis
    by (auto simp: read_cell_def take_task_unchecked_def task_in_def cell_at_def split: if_splits option.splits)
qed

section \<open>Reachable states\<close>

lemma task_inv_step:
  assumes "task_step op drops dpush steal (2 ^ k) s s'" "task_inv k op drops s" "6 \<le> k" "k < 32"
    and "within_limits k (shared s')"
  shows "task_inv k op drops s'"
proof -
  note inv = assms(2) and k = assms(4)
  have sys: "sys_inv k (shared s')" by (rule task_sys_inv [OF assms])
  from assms(1) show ?thesis
  proof (cases rule: task_step.cases)
    case (poll_free f t q)
    show ?thesis unfolding poll_free(1)
      by (rule keeps_poll_starts [OF inv poll_free(2,3,4) _ sys [unfolded poll_free(1)]]) simp
  next
    case (poll_full f t q waker)
    show ?thesis unfolding poll_full(1)
      by (rule keeps_poll_starts [OF inv poll_full(2,3,4) _ sys [unfolded poll_full(1)]]) simp
  next
    case (poll_parks waker)
    show ?thesis unfolding poll_parks(1)
      by (rule keeps_poll_parks [OF inv poll_parks(2) sys [unfolded poll_parks(1)]])
  next
    case (poll_writes f t i waker cell futs)
    then show ?thesis using keeps_poll_writes [OF inv k poll_writes(2-4)] sys by blast
  next
    case (poll_joins x base prev q)
    have "buffer (inner q) = buffer (inner (ts_queue s))"
      using poll_joins(3) by (auto simp: claim_slot_def replace_slot_def Let_def)
    from keeps_claim [OF inv poll_joins(2) _ _ this _ _ sys, of Idle "ts_batches s"] show ?thesis
      by (simp add: poll_joins(1))
  next
    case (poll_opens x base prev q)
    have "buffer (inner q) = buffer (inner (ts_queue s))"
      using poll_opens(3) by (auto simp: claim_slot_def replace_slot_def Let_def)
    from keeps_claim [OF inv poll_opens(2) _ _ this _ poll_opens(1) sys] show ?thesis by simp
  next
    case (poll_occupies i j ur)
    show ?thesis unfolding poll_occupies(1)
      by (rule keeps_poll_occupies [OF inv poll_occupies(2-4) sys [unfolded poll_occupies(1)]])
  next
    case (task_bound j ur ta i)
    show ?thesis unfolding task_bound(1)
      by (rule keeps_task_bound [OF inv task_bound(2-4) sys [unfolded task_bound(1)]])
  next
    case (map_starts j ta)
    show ?thesis unfolding map_starts(1)
      by (rule keeps_map_starts [OF inv map_starts(2,3) sys [unfolded map_starts(1)]])
  next
    case (map_takes j ta ts i t cell)
    then show ?thesis using keeps_takes [OF inv k map_takes(2,3) _ map_takes(5-7) _ sys] by blast
  next
    case (drop_starts j ta)
    show ?thesis unfolding drop_starts(1)
      by (rule keeps_map_starts [OF inv drop_starts(2,3) sys [unfolded drop_starts(1)]])
  next
    case (drop_takes j ta ts i t cell)
    then have "s' = s\<lparr>ts_queue := set_cell i cell (ts_queue s),
        ts_batches := set_stage j (Mapping ta (ts @ [(the (tr_rx cell), t)])) (ts_batches s),
        ts_resolver := (ts_resolver s)(j := RDropped)\<rparr>"
      by (simp add: fun_upd_idem)
    then show ?thesis using keeps_takes [OF inv k drop_takes(2,3) _ drop_takes(5-7) _ sys] drop_takes(4) by blast
  next
    case (take_fails j ta ts i e)
    then show ?thesis using mapping_has_task [OF inv k] by blast
  next
    case (resolve_begins j i v cell)
    show ?thesis unfolding resolve_begins(1) by (rule keeps_resolve_begins [OF inv k resolve_begins(2-)])
  next
    case (resolve_writes j i state v f rx)
    show ?thesis unfolding resolve_writes(1) by (rule keeps_resolve_writes [OF inv k resolve_writes(2-)])
  next
    case (resolve_dangles j i)
    then show ?thesis using resolve_finds_receiver [OF inv k] by blast
  next
    case (resolve_discards j i state v)
    show ?thesis unfolding resolve_discards(1) by (rule keeps_resolve_discards [OF inv k resolve_discards(2-)])
  next
    case (resolve_wakes j i f rx)
    show ?thesis unfolding resolve_wakes(1) by (rule keeps_resolve_wakes [OF inv k resolve_wakes(2-)])
  next
    case (resolve_finishes j i cell)
    show ?thesis unfolding resolve_finishes(1) by (rule keeps_resolve_finishes [OF inv k resolve_finishes(2-)])
  next
    case (map_releases j ta ts woken i)
    show ?thesis unfolding map_releases(1)
      by (rule keeps_map_releases [OF inv k map_releases(2-6) sys [unfolded map_releases(1)]])
  next
    case (poll_ready f rx waker v a q futs)
    then have "rx_value rx = Some v" "q = ts_queue s" "futs = (ts_futures s)(f \<mapsto> Received)"
      by (auto simp: batched_task_poll_def split: option.splits)
    then show ?thesis using keeps_poll_ready [OF inv k poll_ready(2-4)] by (simp add: poll_ready(1))
  next
    case (poll_fails f rx waker e)
    then have "rx_value rx = None" by (auto simp: batched_task_poll_def split: option.splits)
    then show ?thesis using woken_has_value [OF inv poll_fails(2-4)] by simp
  next
    case (drop_unbatched f t)
    show ?thesis unfolding drop_unbatched(1) by (rule keeps_drop_unbatched [OF inv drop_unbatched(2-)])
  next
    case (drop_begins f rx i cell)
    show ?thesis unfolding drop_begins(1) by (rule keeps_drop_begins [OF inv k drop_begins(2-)])
  next
    case (drop_spins f state rx)
    show ?thesis unfolding drop_spins(1) by (rule keeps_drop_spins [OF inv k drop_spins(2-)])
  next
    case (drop_values f state rx v)
    show ?thesis unfolding drop_values(1) by (rule keeps_drop_values [OF inv k drop_values(2-)])
  next
    case (drop_fails f state rx)
    then show ?thesis using dropped_has_value [OF inv] by blast
  next
    case (drop_only f state rx)
    show ?thesis unfolding drop_only(1) by (rule keeps_drop_only [OF inv k drop_only(2-)])
  qed
qed

text \<open>
  The states reached from a new queue and futures that were not polled yet, as long as at most 255
  running batches start in the same region.
\<close>

definition all_unbatched :: "('u, 't, 'v, 'wk, 'f) futures \<Rightarrow> bool" where
  "all_unbatched futs \<longleftrightarrow> (\<forall>fut\<in>ran futs. \<exists>t. fut = Unbatched t)"

inductive task_reachable ::
    "('f \<times> 't \<Rightarrow> 'v) \<Rightarrow> bool \<Rightarrow> ('d \<Rightarrow> 'wk \<Rightarrow> 'd) \<Rightarrow> ('d \<Rightarrow> 'wk steal \<times> 'd) \<Rightarrow> nat \<Rightarrow> 'd
      \<Rightarrow> (64 word, 't, 'v, 'wk, 'f) futures \<Rightarrow> ('f, 't, 'v, 'wk, 'd) task_system \<Rightarrow> bool"
  for op :: "'f \<times> 't \<Rightarrow> 'v" and drops :: bool and dpush :: "'d \<Rightarrow> 'wk \<Rightarrow> 'd" and steal :: "'d \<Rightarrow> 'wk steal \<times> 'd"
    and k :: nat and d :: 'd and futs :: "(64 word, 't, 'v, 'wk, 'f) futures" where
  task_init: "stack_queue_default task_ref_new_uninit (2 ^ k) d = Some q \<Longrightarrow> all_unbatched futs \<Longrightarrow>
    task_reachable op drops dpush steal k d futs (task_start q futs)"
| task_next: "task_reachable op drops dpush steal k d futs s \<Longrightarrow> task_step op drops dpush steal (2 ^ k) s s' \<Longrightarrow>
    within_limits k (shared s') \<Longrightarrow> task_reachable op drops dpush steal k d futs s'"

lemma shared_start: "shared (task_start q futs) = sys_start (map_queue task_in q)"
  by (simp add: shared_def task_start_def sys_start_def)

lemma map_default:
  "stack_queue_default task_ref_new_uninit N d = Some q \<Longrightarrow> stack_queue_default None N d = Some (map_queue task_in q)"
  by (auto simp: stack_queue_default_def inner_from_def map_queue_def map_inner_def task_in_def task_ref_new_uninit_def
      split: if_splits)

lemma task_inv_start:
  assumes "6 \<le> k" "k < 32" "stack_queue_default task_ref_new_uninit (2 ^ k) d = Some q" "all_unbatched futs"
  shows "task_inv k op drops (task_start q futs)"
proof -
  have "sys_inv k (sys_start (map_queue task_in q))"
    by (rule sys_inv_start [OF assms(1,2) map_default [OF assms(3)]])
  moreover have "buffer (inner q) = replicate (unat (2 ^ k :: 64 word)) task_ref_new_uninit"
    using assms(3) by (auto simp: stack_queue_default_def inner_from_def split: if_splits)
  moreover have "futs f \<noteq> Some (Batched rx)" for f rx
    using assms(4) by (auto simp: all_unbatched_def ran_def)
  ultimately show ?thesis
    unfolding task_inv_def shared_start
    by (simp add: task_start_def cells_point_def polled_unbatched_def futures_ok_def others_ok_def poll_ok_def races_ok_def
        task_ref_new_uninit_def)
qed

lemma task_inv_reachable:
  assumes "task_reachable op drops dpush steal k d futs s" "6 \<le> k" "k < 32"
  shows "task_inv k op drops s"
  using assms(1)
proof induction
  case (task_init q)
  show ?case by (rule task_inv_start [OF assms(2,3) task_init])
next
  case (task_next s s')
  then show ?case using task_inv_step assms(2,3) by blast
qed

end
