(* ===== verification/Delivery.thy ===== *)
theory Delivery
  imports Runs TaskSteps "HOL-Library.Sublist"
begin

unbundle bit_operations_syntax

text \<open>
  What every run of a \<open>TaskQueue\<close> guarantees to the futures: the invariant of \<open>TaskSteps\<close> as statements
  on reachable states, and that whoever resolves a batch gets through on its own.
\<close>

section \<open>Views of a run\<close>

text \<open>A step that stays within the limits of the occupancy word.\<close>

definition limited_task_step ::
    "('f \<times> 't \<Rightarrow> 'v) \<Rightarrow> bool \<Rightarrow> ('d \<Rightarrow> 'wk \<Rightarrow> 'd) \<Rightarrow> ('d \<Rightarrow> 'wk steal \<times> 'd) \<Rightarrow> nat
      \<Rightarrow> ('f, 't, 'v, 'wk, 'd) task_system \<Rightarrow> ('f, 't, 'v, 'wk, 'd) task_system \<Rightarrow> bool" where
  "limited_task_step op drops dpush steal k s s' \<longleftrightarrow> 6 \<le> k \<and> k < 32 \<and>
     task_step op drops dpush steal (2 ^ k) s s' \<and> within_limits k (shared s')"

definition limited_sys_step ::
    "('d \<Rightarrow> 'wk \<Rightarrow> 'd) \<Rightarrow> ('d \<Rightarrow> 'wk steal \<times> 'd) \<Rightarrow> nat \<Rightarrow> ('t, 'd, 'wk) system \<Rightarrow> ('t, 'd, 'wk) system \<Rightarrow> bool" where
  "limited_sys_step dpush steal k s s' \<longleftrightarrow> sys_step dpush steal (2 ^ k) s s' \<and> within_limits k s'"

interpretation queue_view: simulation "limited_task_step op drops dpush steal k" "limited_sys_step dpush steal k"
  shared "task_inv k op drops"
proof (unfold_locales, goal_cases)
  case (1 s s')
  then show ?case using task_inv_step unfolding limited_task_step_def by blast
next
  case (2 s s')
  then have st: "task_step op drops dpush steal (2 ^ k) s s'" "k < 32" "within_limits k (shared s')"
    by (simp_all add: limited_task_step_def)
  show ?case using task_view [OF st(1) 2(2) st(2)] st(3) by (auto simp: limited_sys_step_def)
qed

lemma task_reachable_run:
  assumes "task_reachable op drops dpush steal k d futs s" "6 \<le> k" "k < 32"
  obtains q where "stack_queue_default task_ref_new_uninit (2 ^ k) d = Some q" "all_unbatched futs"
    "(limited_task_step op drops dpush steal k)\<^sup>*\<^sup>* (task_start q futs) s"
  using assms
proof (induction arbitrary: thesis)
  case (task_init q)
  then show ?case by blast
next
  case (task_next s s')
  from task_next.IH [OF _ task_next.prems(2,3)] obtain q where
    q: "stack_queue_default task_ref_new_uninit (2 ^ k) d = Some q" "all_unbatched futs"
      "(limited_task_step op drops dpush steal k)\<^sup>*\<^sup>* (task_start q futs) s" by blast
  have "limited_task_step op drops dpush steal k s s'"
    using task_next.hyps task_next.prems by (simp add: limited_task_step_def)
  with q(3) have "(limited_task_step op drops dpush steal k)\<^sup>*\<^sup>* (task_start q futs) s'" by simp
  with task_next.prems(1) q(1,2) show ?case by blast
qed

lemma task_reachable_steps:
  "(limited_task_step op drops dpush steal k ^^ n) s s' \<Longrightarrow> task_reachable op drops dpush steal k d futs s \<Longrightarrow>
    task_reachable op drops dpush steal k d futs s'"
proof (induction n arbitrary: s')
  case (Suc n)
  then obtain t where t: "task_reachable op drops dpush steal k d futs t" "limited_task_step op drops dpush steal k t s'"
    by auto
  then have "task_step op drops dpush steal (2 ^ k) t s'" "within_limits k (shared s')"
    by (simp_all add: limited_task_step_def)
  from task_next [OF t(1) this] show ?case .
qed simp

lemma limited_run:
  assumes "(limited_sys_step dpush steal k)\<^sup>*\<^sup>* s s'" "limited_reachable dpush steal k d s"
  shows "limited_reachable dpush steal k d s'"
  using assms by induction (auto simp: limited_sys_step_def intro: limited_next)

text \<open>
  C13. A \<open>TaskQueue\<close> is a queue: what the queue sees of a run, with polls, resolvers and destructors in
  any order, is a run of \<open>Interleaving\<close>, so that all that is shown of those holds: no cell is
  overwritten, no task lost, the occupancy exact, refusals justified.
\<close>

theorem task_runs_refine:
  assumes "task_reachable op drops dpush steal k d futs s" "6 \<le> k" "k < 32"
  shows "limited_reachable dpush steal k d (shared s)"
proof -
  obtain q where q: "stack_queue_default task_ref_new_uninit (2 ^ k) d = Some q" "all_unbatched futs"
      "(limited_task_step op drops dpush steal k)\<^sup>*\<^sup>* (task_start q futs) s"
    using task_reachable_run [OF assms] by metis
  have "limited_reachable dpush steal k d (shared (task_start q futs))"
    unfolding shared_start by (rule limited_init [OF map_default [OF q(1)]])
  then show ?thesis
    using limited_run [OF queue_view.run_view [OF q(3) task_inv_start [OF assms(2,3) q(1,2)]]] by blast
qed

text \<open>
  C14. And seen from a single task, it is a race: for every task that was enqueued, the state word of its
  cell, the memory of its receiver, its resolver and whoever has its future are in a state that
  the race of \<open>Negotiation\<close> reaches for the value of this task.
\<close>

theorem task_races_refine:
  assumes "task_reachable op drops dpush steal k d futs s" "6 \<le> k" "k < 32" "j < length (ts_log s)"
  shows "\<exists>m<length (ts_batches s). in_batch (length (ts_log s)) (ts_batches s ! m) j \<and>
    race_reachable drops (op (ts_log s ! j))
      (race_of k s j (pc_in (ts_batches s ! m) (ts_resolver s m) (op (ts_log s ! j)) j))"
proof -
  have inv: "task_inv k op drops s" by (rule task_inv_reachable [OF assms(1-3)])
  obtain m where m: "m < length (ts_batches s)" "in_batch (length (ts_log s)) (ts_batches s ! m) j"
    using chain_covers [OF task_chain [OF task_inv_dest(2) [OF inv]] _ assms(4)] by auto
  with task_inv_dest(8) [OF inv] show ?thesis by (auto simp: races_ok_def)
qed

section \<open>Values\<close>

text \<open>A task in the log is the one its future was created with.\<close>

lemma tasks_of_futures:
  assumes "task_reachable op drops dpush steal k d futs s"
  shows "(\<forall>f t. ts_futures s f = Some (Unbatched t) \<longrightarrow> futs f = Some (Unbatched t)) \<and>
    (\<forall>f t. ts_owner s = Checked (f, t) \<or> ts_owner s = Written (f, t) \<longrightarrow> futs f = Some (Unbatched t)) \<and>
    (\<forall>(f, t)\<in>set (ts_log s). futs f = Some (Unbatched t))"
  using assms
proof induction
  case (task_init q)
  then show ?case by (simp add: task_start_def)
next
  case (task_next s s')
  from task_next.hyps(2) task_next.IH show ?case
    by (cases rule: task_step.cases)
      (auto simp: write_task_def deliver_def batched_task_poll_def split: option.splits batched_task.splits if_splits)
qed

lemma own_task:
  assumes "task_reachable op drops dpush steal k d futs s" "j < length (ts_log s)" "fst (ts_log s ! j) = f"
  obtains t where "ts_log s ! j = (f, t)" "futs f = Some (Unbatched t)"
proof -
  have "ts_log s ! j = (f, snd (ts_log s ! j))" "ts_log s ! j \<in> set (ts_log s)"
    using assms(2,3) by (auto simp: prod_eq_iff)
  then show ?thesis using that tasks_of_futures [OF assms(1)] by fastforce
qed

lemma race_used_once: "race_reachable drops v r \<Longrightarrow> returned r @ discarded r = [] \<or> returned r @ discarded r = [v]"
  by (drule race_inv_reachable) (auto simp: race_inv_def split: resolver_pc.splits owner_pc.splits if_splits)

lemma race_of_simps [simp]:
  "returned (race_of k s j pc) = values_of (fst (ts_log s ! j)) (ts_returned s)"
  "discarded (race_of k s j pc) = values_of (fst (ts_log s ! j)) (ts_discarded s)"
  "rpc (race_of k s j pc) = pc"
  "was_woken (race_of k s j pc) \<longleftrightarrow> fst (ts_log s ! j) \<in> ts_woken s"
  "rx_mem (race_of k s j pc) = receiver_memory (ts_futures s (fst (ts_log s ! j)))"
  "opc (race_of k s j pc) = receiver_pc (ts_futures s (fst (ts_log s ! j))) (ts_dropping s (fst (ts_log s ! j)))"
  "reused (race_of k s j pc) \<longleftrightarrow> j + 2 ^ k < enqueued s"
  by (simp_all add: race_of_def Let_def)

text \<open>
  C3. However polls, resolvers and destructors interleave, as long as futures are polled again only after
  they were woken and dropped only while their cells are their own, an address is used for one future, and
  at most 255 running batches start in one region: no access finds a receiver or a value gone:
  no read of the buffer without a task, no write to a receiver that was deallocated, no read of a
  value that was not set. And whatever a future returns, or is dropped on its behalf, is the value
  that \<open>op\<close> computes of its own task, once at most.
\<close>

theorem task_system_safe:
  assumes "task_reachable op drops dpush steal k d futs s" "6 \<le> k" "k < 32"
  shows "\<not> ts_failed s \<and>
    (\<forall>f. values_of f (ts_returned s) @ values_of f (ts_discarded s) = [] \<or>
      (\<exists>t. futs f = Some (Unbatched t) \<and> values_of f (ts_returned s) @ values_of f (ts_discarded s) = [op (f, t)]))"
proof (intro conjI allI)
  have inv: "task_inv k op drops s" by (rule task_inv_reachable [OF assms])
  show "\<not> ts_failed s" by (rule task_inv_dest(1) [OF inv])
  fix f
  show "values_of f (ts_returned s) @ values_of f (ts_discarded s) = [] \<or>
      (\<exists>t. futs f = Some (Unbatched t) \<and> values_of f (ts_returned s) @ values_of f (ts_discarded s) = [op (f, t)])"
  proof (cases "f \<in> fst ` set (ts_log s)")
    case True
    then obtain m j where j: "j < length (ts_log s)" "fst (ts_log s ! j) = f" and
        r: "race_reachable drops (op (ts_log s ! j))
          (race_of k s j (pc_in (ts_batches s ! m) (ts_resolver s m) (op (ts_log s ! j)) j))"
      using batch_of [OF inv] by metis
    obtain t where "ts_log s ! j = (f, t)" "futs f = Some (Unbatched t)" by (rule own_task [OF assms(1) j])
    with race_used_once [OF r] show ?thesis by auto
  next
    case False
    then show ?thesis using task_inv_dest(6) [OF inv] by (simp add: others_ok_def)
  qed
qed

text \<open>
  A future that is polled after it was woken is ready, with the value of its own task.
\<close>

theorem poll_returns_own_value:
  assumes "task_reachable op drops dpush steal k d futs s" "6 \<le> k" "k < 32"
    and "f \<in> ts_woken s" "ts_futures s f = Some (Batched rx)" "ts_dropping s f = None"
  shows "\<exists>t. futs f = Some (Unbatched t) \<and>
    batched_task_poll dpush (2 ^ k) f waker (ts_queue s) (ts_futures s) =
      Inr (Ready (op (f, t)), None, ts_queue s, (ts_futures s)(f \<mapsto> Received))"
proof -
  have inv: "task_inv k op drops s" by (rule task_inv_reachable [OF assms(1-3)])
  obtain m j where j: "j < length (ts_log s)" "fst (ts_log s ! j) = f" and
      r: "race_reachable drops (op (ts_log s ! j))
        (race_of k s j (pc_in (ts_batches s ! m) (ts_resolver s m) (op (ts_log s ! j)) j))"
    using batch_of [OF inv woken_logged [OF inv assms(4)]] by metis
  obtain t where own: "ts_log s ! j = (f, t)" "futs f = Some (Unbatched t)" by (rule own_task [OF assms(1) j])
  have "rx_value rx = Some (op (f, t))"
    using race_inv_reachable [OF r] assms(4-6)
    by (auto simp: race_inv_def receiver_pc_def receiver_memory_def own(1) split: resolver_pc.splits)
  with own(2) assms(5) show ?thesis by (simp add: batched_task_poll_def)
qed

text \<open>The race for a task of a batch that was released: its resolver is through.\<close>

lemma released_race:
  assumes inv: "task_inv k op drops s" and m: "m < length (ts_batches s)" "stage (ts_batches s ! m) = Released ts"
    and j: "in_batch (length (ts_log s)) (ts_batches s ! m) j"
  shows "race_inv (op (ts_log s ! j)) drops (race_of k s j (settled (ts_resolver s m)))"
    "ts_futures s (fst (ts_log s ! j)) \<noteq> Some (Unbatched u)"
proof -
  have "j < length (ts_log s)" by (rule in_batch_log [OF task_inv_dest(2) [OF inv] m(1) j(1)])
  from logged_future(1) [OF task_inv_dest(5) [OF inv] this, of u]
  show "ts_futures s (fst (ts_log s ! j)) \<noteq> Some (Unbatched u)" .
  have "race_reachable drops (op (ts_log s ! j)) (race_of k s j (pc_in (ts_batches s ! m) (ts_resolver s m) (op (ts_log s ! j)) j))"
    using task_inv_dest(8) [OF inv] m(1) j by (fastforce simp: races_ok_def)
  then show "race_inv (op (ts_log s ! j)) drops (race_of k s j (settled (ts_resolver s m)))"
    by (simp add: pc_in_def m(2) race_inv_reachable)
qed

text \<open>
  C5. In the runs in which futures are polled again only after they were woken and dropped only while their
  cells are their own, with at most 255 running batches per region: when a batch was resolved and released, none of its futures is left waiting. It was woken and
  has its value; or it returned the value; or it is being dropped, or was, and the value was used
  or dropped too, unless it was set and forgotten: because the type of tasks needs no drop, or
  because the cell was reused while the destructor was spinning.
\<close>

theorem task_delivered:
  assumes "task_reachable op drops dpush steal k d futs s" "6 \<le> k" "k < 32"
    and "m < length (ts_batches s)" "stage (ts_batches s ! m) = Released ts" "ts_resolver s m \<noteq> RDropped"
    and "in_batch (length (ts_log s)) (ts_batches s ! m) j" "ts_log s ! j = (f, t)"
  shows "case ts_futures s f of
      Some (Batched rx) \<Rightarrow>
        f \<in> ts_woken s \<and> rx_value rx = Some (op (f, t)) \<or>
        f \<notin> ts_woken s \<and> ts_dropping s f \<noteq> None \<and> values_of f (ts_discarded s) = [op (f, t)]
    | Some Received \<Rightarrow> values_of f (ts_returned s) = [op (f, t)]
    | None \<Rightarrow> values_of f (ts_discarded s) = [op (f, t)] \<or>
        values_of f (ts_discarded s) = [] \<and> f \<in> ts_woken s \<and> (\<not> drops \<or> j + 2 ^ k < enqueued s)
    | Some (Unbatched _) \<Rightarrow> False"
  using released_race [OF task_inv_reachable [OF assms(1-3)] assms(4,5,7)] assms(6)
  by (auto simp: race_inv_def assms(8) settled_def receiver_pc_def receiver_memory_def
      split: option.splits batched_task.splits if_splits)

text \<open>A batch that was released stays as it is.\<close>

lemma released_step:
  assumes "task_step op drops dpush steal N s s'" "m < length (ts_batches s)" "stage (ts_batches s ! m) = Released ts"
  shows "m < length (ts_batches s') \<and> ts_batches s' ! m = ts_batches s ! m \<and> ts_resolver s' m = ts_resolver s m \<and>
    prefix (ts_log s) (ts_log s')"
  using assms
proof (cases rule: task_step.cases)
  case (poll_opens x base prev q)
  with assms(2) show ?thesis by (simp add: nth_append)
qed (auto simp: set_stage_def resolving_def nth_list_update split: if_splits stage.splits)

lemma released_run:
  assumes "(limited_task_step op drops dpush steal k)\<^sup>*\<^sup>* s s'" "m < length (ts_batches s)" "stage (ts_batches s ! m) = Released ts"
  shows "m < length (ts_batches s') \<and> ts_batches s' ! m = ts_batches s ! m \<and> ts_resolver s' m = ts_resolver s m \<and>
    prefix (ts_log s) (ts_log s')"
  using assms(1)
proof induction
  case (step t t')
  then have t: "m < length (ts_batches t)" "stage (ts_batches t ! m) = Released ts" using assms(3) by simp_all
  from step(2) have "task_step op drops dpush steal (2 ^ k) t t'" by (simp add: limited_task_step_def)
  from released_step [OF this t] step.IH show ?case using prefix_order.trans by auto
qed (simp add: assms(2))

text \<open>
  The futures of a batch whose assignment was dropped are told nothing: from its release on,
  whatever happens, they are not woken and have no value to return, and wait for ever.
\<close>

theorem dropped_batch_waits:
  assumes "task_reachable op drops dpush steal k d futs s" "6 \<le> k" "k < 32"
    and "m < length (ts_batches s)" "stage (ts_batches s ! m) = Released ts" "ts_resolver s m = RDropped"
    and "in_batch (length (ts_log s)) (ts_batches s ! m) j"
    and "(limited_task_step op drops dpush steal k)\<^sup>*\<^sup>* s s'" "ts_log s ! j = (f, t)"
  shows "f \<notin> ts_woken s' \<and> values_of f (ts_returned s') = [] \<and>
    (\<forall>rx. ts_futures s' f = Some (Batched rx) \<longrightarrow> rx_value rx = None)"
proof -
  have inv: "task_inv k op drops s" by (rule task_inv_reachable [OF assms(1-3)])
  have inv': "task_inv k op drops s'" by (rule queue_view.run_good [OF assms(8) inv])
  have j: "j < length (ts_log s)" by (rule in_batch_log [OF task_inv_dest(2) [OF inv] assms(4,7)])
  have "stage_ok (ts_log s) (ts_batches s ! m)" using task_inv_dest(2) [OF inv] assms(4) by (simp add: sys_inv_def)
  then obtain e where e: "ended (ts_batches s ! m) = Some e" using assms(5) by (auto simp: stage_ok_def)
  have m: "m < length (ts_batches s')" "ts_batches s' ! m = ts_batches s ! m" "ts_resolver s' m = RDropped"
      and log: "prefix (ts_log s) (ts_log s')"
    using released_run [OF assms(8,4,5)] assms(6) by simp_all
  have "ts_log s' ! j = (f, t)" using log j assms(9) by (auto simp: prefix_def nth_append)
  moreover have "in_batch (length (ts_log s')) (ts_batches s' ! m) j" using assms(7) e by (simp add: m(2) batch_end_def)
  ultimately show ?thesis
    using released_race(1) [OF inv' m(1), of ts j] assms(5)
    by (auto simp: m race_inv_def settled_def receiver_pc_def receiver_memory_def
        split: option.splits batched_task.splits if_splits)
qed

section \<open>Resolving needs nobody\<close>

text \<open>
  In a \<open>TaskQueue\<close> batches are not iterated over, and a batch of which no task was taken yet has no
  resolver at work.
\<close>

definition resolver_fits :: "'x stage \<Rightarrow> 'v resolver_pc \<Rightarrow> bool" where
  "resolver_fits st r \<longleftrightarrow> (case st of
     Iterating _ _ \<Rightarrow> False
   | Consumed _ _ \<Rightarrow> False
   | Mapping _ ts \<Rightarrow> ts = [] \<longrightarrow> through r
   | _ \<Rightarrow> True)"

lemma resolver_fits_simps [simp]:
  "resolver_fits (Claimed ur) r" "resolver_fits (Unbounded ur) r" "resolver_fits (Bounded br) r"
  "\<not> resolver_fits (Iterating it ts) r" "resolver_fits (Mapping br ts) r \<longleftrightarrow> ts = [] \<longrightarrow> through r"
  "\<not> resolver_fits (Consumed br ts) r" "resolver_fits (Released ts) r"
  by (simp_all add: resolver_fits_def)

definition task_stages :: "('f, 't, 'v, 'wk, 'd) task_system \<Rightarrow> bool" where
  "task_stages s \<longleftrightarrow> (\<forall>m<length (ts_batches s). resolver_fits (stage (ts_batches s ! m)) (ts_resolver s m))"

lemma stages_same:
  "task_stages s \<Longrightarrow> ts_batches s' = ts_batches s \<Longrightarrow> ts_resolver s' = ts_resolver s \<Longrightarrow> task_stages s'"
  by (simp add: task_stages_def)

lemma stages_set:
  assumes "task_stages s" "m < length (ts_batches s)" "ts_batches s' = (ts_batches s)[m := b]"
    and "\<And>n. n \<noteq> m \<Longrightarrow> ts_resolver s' n = ts_resolver s n" "resolver_fits (stage b) (ts_resolver s' m)"
  shows "task_stages s'"
  using assms by (auto simp: task_stages_def nth_list_update)

lemma stages_resolving:
  assumes "task_stages s" "resolving N (ts_batches s) m = Some i" "ts_batches s' = ts_batches s"
    and "ts_resolver s' = (ts_resolver s)(m := pc)"
  shows "task_stages s'"
proof -
  obtain ta ts where st: "m < length (ts_batches s)" "stage (ts_batches s ! m) = Mapping ta ts" "ts \<noteq> []"
    using assms(2) by (auto simp: resolving_def split: if_splits stage.splits)
  show ?thesis
    by (rule stages_set [OF assms(1) st(1), where b = "ts_batches s ! m"]) (simp_all add: assms(3,4) st(2,3))
qed

lemma task_stages_step:
  assumes "task_step op drops dpush steal N s s'" "task_stages s"
  shows "task_stages s'"
  using assms(1)
proof (cases rule: task_step.cases)
  case (poll_opens x base prev q)
  then show ?thesis using assms(2) by (auto simp: task_stages_def nth_append less_Suc_eq)
next
  case (poll_occupies i j ur)
  then show ?thesis using stages_set [OF assms(2), of j s'] by (simp add: set_stage_def)
next
  case (task_bound j ur ta i)
  then show ?thesis using stages_set [OF assms(2), of j s'] by simp
next
  case (map_starts j ta)
  then show ?thesis using stages_set [OF assms(2), of j s'] by (simp add: set_stage_def)
next
  case (map_takes j ta ts i t cell)
  then show ?thesis using stages_set [OF assms(2), of j s'] by (simp add: set_stage_def)
next
  case (drop_starts j ta)
  then show ?thesis using stages_set [OF assms(2), of j s'] by (simp add: set_stage_def)
next
  case (drop_takes j ta ts i t cell)
  then show ?thesis using stages_set [OF assms(2), of j s'] by (simp add: set_stage_def)
next
  case (map_releases j ta ts woken i)
  then show ?thesis using stages_set [OF assms(2), of j s'] by (simp add: set_stage_def)
next
  case (resolve_begins j i v cell)
  then show ?thesis by (intro stages_resolving [OF assms(2) resolve_begins(2)]) simp_all
next
  case (resolve_writes j i state v f rx)
  then show ?thesis by (intro stages_resolving [OF assms(2) resolve_writes(2)]) simp_all
next
  case (resolve_discards j i state v)
  then show ?thesis by (intro stages_resolving [OF assms(2) resolve_discards(2)]) simp_all
next
  case (resolve_wakes j i f rx)
  then show ?thesis by (intro stages_resolving [OF assms(2) resolve_wakes(2)]) simp_all
next
  case (resolve_finishes j i cell)
  then show ?thesis by (intro stages_resolving [OF assms(2) resolve_finishes(2)]) simp_all
qed (simp_all add: stages_same [OF assms(2)])

lemma task_stages_reachable:
  assumes "task_reachable op drops dpush steal k d futs s"
  shows "task_stages s"
  using assms
proof induction
  case (task_init q)
  then show ?case by (simp add: task_stages_def task_start_def)
next
  case (task_next s s')
  then show ?case using task_stages_step by blast
qed

text \<open>The assignment of the \<open>m\<close>-th batch is being dropped, or was, without being resolved.\<close>

definition dropped_batch :: "('f, 't, 'v, 'wk, 'd) task_system \<Rightarrow> nat \<Rightarrow> bool" where
  "dropped_batch s m \<longleftrightarrow> ts_resolver s m = RDropped \<and>
     (case stage (ts_batches s ! m) of Mapping _ _ \<Rightarrow> True | Released _ \<Rightarrow> True | _ \<Rightarrow> False)"

text \<open>How many steps whoever has the \<open>m\<close>-th batch still has to do, at most: five for each task.\<close>

definition work_left :: "64 word \<Rightarrow> ('f, 't, 'v, 'wk, 'd) task_system \<Rightarrow> nat \<Rightarrow> nat" where
  "work_left N s m = (case stage (ts_batches s ! m) of
     Unbounded _ \<Rightarrow> 5 * (length (ts_log s) - first (ts_batches s ! m)) + 3
   | Bounded ta \<Rightarrow> 5 * length (assignment_tasks N ta) + 2
   | Mapping ta ts \<Rightarrow> 5 * (length (assignment_tasks N ta) - length ts) + resolver_left (ts_resolver s m) + 1
   | _ \<Rightarrow> 0)"

lemma deoccupy_map_inner:
  "deoccupy_region steal N i (map_inner g s) = Inr (w, s'') \<Longrightarrow> \<exists>s'. deoccupy_region steal N i s = Inr (w, s')"
  by (auto simp: deoccupy_region_def Let_def split: if_splits option.splits)

lemma limits_set:
  assumes "within_limits k (shared s)" "ts_batches s' = (ts_batches s)[m := b]" "m < length (ts_batches s)"
    and "first b = first (ts_batches s ! m)" "occupying (ts_batches s ! m)"
  shows "within_limits k (shared s')"
proof -
  have "region k (first b) \<in># regions_of k (ts_batches s)"
    using in_regions [OF nth_mem [OF assms(3)] assms(5), of k] by (simp add: assms(4))
  then have "count (regions_of k (ts_batches s')) r \<le> count (regions_of k (ts_batches s)) r" for r
    using assms(2-5) by (simp add: regions_of_update)
  then show ?thesis using assms(1) by (fastforce simp: within_limits_def intro: le_less_trans)
qed

lemma task_limits:
  assumes "task_reachable op drops dpush steal k d futs s"
  shows "within_limits k (shared s)"
  using assms by cases (simp_all add: within_limits_def task_start_def regions_of_def)

text \<open>
  Nobody did anything but the holders of batches: the owner stayed where it was, and no future was
  polled or dropped; at most its receiver was given a value.
\<close>

definition at_most_delivered ::
    "('u, 't, 'v, 'wk) batched_task option \<Rightarrow> ('u, 't, 'v, 'wk) batched_task option \<Rightarrow> bool" where
  "at_most_delivered fut fut' \<longleftrightarrow> fut' = fut \<or>
     (\<exists>rx v. fut = Some (Batched rx) \<and> fut' = Some (Batched (rx\<lparr>rx_value := Some v\<rparr>)))"

lemma at_most_delivered_refl [simp]: "at_most_delivered fut fut"
  by (simp add: at_most_delivered_def)

lemma at_most_delivered_value [simp]: "at_most_delivered (Some (Batched rx)) (Some (Batched (rx\<lparr>rx_value := Some v\<rparr>)))"
  by (auto simp: at_most_delivered_def)

lemma at_most_delivered_trans:
  "at_most_delivered a b \<Longrightarrow> at_most_delivered b c \<Longrightarrow> at_most_delivered a c"
  unfolding at_most_delivered_def by (elim disjE exE conjE) fastforce+

definition only_holders :: "('f, 't, 'v, 'wk, 'd) task_system \<Rightarrow> ('f, 't, 'v, 'wk, 'd) task_system \<Rightarrow> bool" where
  "only_holders s s' \<longleftrightarrow> ts_owner s' = ts_owner s \<and> ts_log s' = ts_log s \<and> ts_dropping s' = ts_dropping s \<and>
     ts_returned s' = ts_returned s \<and> (\<forall>f. at_most_delivered (ts_futures s f) (ts_futures s' f))"

lemma only_holders_trans: "only_holders s t \<Longrightarrow> only_holders t u \<Longrightarrow> only_holders s u"
  unfolding only_holders_def by (metis at_most_delivered_trans)

text \<open>While it resolves a task, the resolver can always do its next step.\<close>

lemma resolver_enabled:
  assumes inv: "task_inv k op drops s" and k: "k < 32" and i: "resolving (2 ^ k) (ts_batches s) m = Some i"
    and r: "\<not> through (ts_resolver s m)"
  obtains s' where "task_step op drops dpush steal (2 ^ k) s s'" "ts_batches s' = ts_batches s"
    "only_holders s s'" "resolver_left (ts_resolver s' m) < resolver_left (ts_resolver s m)" "ts_resolver s' m \<noteq> RDropped"
proof (cases "ts_resolver s m")
  case (RBegin v)
  from task_step.resolve_begins [OF i this refl] show ?thesis
    by (rule that) (simp_all add: RBegin resolver_left_def only_holders_def)
next
  case (RLoaded state v)
  show ?thesis
  proof (cases "state AND RX_DROPPED = 0")
    case True
    then obtain f rx where f: "tr_rx (cell_at i (ts_queue s)) = Some f" "ts_futures s f = Some (Batched rx)"
      using resolve_finds_receiver [OF inv k i] RLoaded by blast
    from task_step.resolve_writes [OF i RLoaded True f] show ?thesis
      by (rule that) (simp_all add: RLoaded resolver_left_def only_holders_def deliver_def f)
  next
    case False
    from task_step.resolve_discards [OF i RLoaded False] show ?thesis
      by (rule that) (simp_all add: RLoaded resolver_left_def only_holders_def)
  qed
next
  case RWrote
  then obtain f rx where "tr_rx (cell_at i (ts_queue s)) = Some f" "ts_futures s f = Some (Batched rx)"
    using resolve_finds_receiver [OF inv k i] by blast
  from task_step.resolve_wakes [OF i RWrote this] show ?thesis
    by (rule that) (simp_all add: RWrote resolver_left_def only_holders_def)
next
  case RWoke
  from task_step.resolve_finishes [OF i this refl] show ?thesis
    by (rule that) (simp_all add: RWoke resolver_left_def only_holders_def)
next
  case RDone
  with r show ?thesis by simp
next
  case RDropped
  with r show ?thesis by simp
qed

lemma bounded_length:
  assumes "sys_inv k s" "k < 32" "b \<in> set (batches s)" "stage b = Bounded ta" "ended b = Some e"
  shows "length (assignment_tasks (2 ^ k) ta) = e - first b"
proof -
  have b: "ta = bounds64 (first b) e" "untaken b"
    using bounded_end [OF assms(1,3,4)] assms(5) by fastforce+
  note w = bounded_window [OF assms(1,3) b(2) assms(5)]
  show ?thesis using slice_indices_64 [of k "first b" e] w(1,3) assms(2) by (simp add: assignment_tasks_def b(1))
qed

text \<open>Whoever has a batch can do the next step, whatever the others do, and has less to do then.\<close>

lemma holder_enabled:
  assumes inv: "task_inv k op drops s" "task_stages s" "within_limits k (shared s)" and k: "6 \<le> k" "k < 32"
    and deque: "fifo_deque dpush steal contents" "steal_progress steal retries"
    and m: "m < length (ts_batches s)" "occupying (ts_batches s ! m)"
  obtains s' where "limited_task_step op drops dpush steal k s s'" "work_left (2 ^ k) s' m < work_left (2 ^ k) s m"
    "only_holders s s'" "m < length (ts_batches s')"
    "occupying (ts_batches s' ! m) \<or> (\<exists>ts. stage (ts_batches s' ! m) = Released ts)"
    "dropped_batch s' m \<longleftrightarrow> dropped_batch s m"
proof -
  let ?b = "ts_batches s ! m"
  note inv' = task_inv_dest [OF inv(1)]
  have mem: "?b \<in> set (batches (shared s))" using m(1) by simp
  have st: "resolver_fits (stage ?b) (ts_resolver s m)" using inv(2) m(1) by (simp add: task_stages_def)
  show ?thesis
  proof (cases "stage ?b")
    case (Unbounded ur)
    obtain ta i where bound: "into_assignment \<lparr>pa_base_slot = ur_base_slot ur\<rparr> (inner (ts_queue s)) = (ta, i)"
      by (metis surj_pair)
    let ?b' = "?b\<lparr>stage := Bounded ta, ended := Some (length (ts_log s))\<rparr>"
    let ?s = "s\<lparr>ts_queue := set_inner (ts_queue s) i, ts_batches := (ts_batches s)[m := ?b']\<rparr>"
    have step: "task_step op drops dpush steal (2 ^ k) s ?s" by (rule task_step.task_bound [OF m(1) Unbounded bound])
    have lim: "within_limits k (shared ?s)" by (rule limits_set [OF inv(3) _ m(1) _ m(2), where b = ?b']) simp_all
    have "sys_inv k (shared ?s)" by (rule task_sys_inv [OF step inv(1) k lim])
    moreover have "?b' \<in> set (batches (shared ?s))" using m(1) by (simp add: set_update_memI)
    ultimately have "length (assignment_tasks (2 ^ k) ta) = length (ts_log s) - first ?b"
      using bounded_length [of k "shared ?s" ?b' ta "length (ts_log s)"] k(2) by simp
    then have "work_left (2 ^ k) ?s m < work_left (2 ^ k) s m"
      using m(1) by (simp add: work_left_def Unbounded)
    from that [OF _ this] step lim k m(1) show ?thesis by (simp add: limited_task_step_def occupying_def only_holders_def dropped_batch_def Unbounded)
  next
    case (Bounded ta)
    let ?s = "s\<lparr>ts_batches := set_stage m (Mapping ta []) (ts_batches s), ts_resolver := (ts_resolver s)(m := RDone)\<rparr>"
    have step: "task_step op drops dpush steal (2 ^ k) s ?s" by (rule task_step.map_starts [OF m(1) Bounded])
    have lim: "within_limits k (shared ?s)"
      by (rule limits_set [OF inv(3) _ m(1) _ m(2), where b = "?b\<lparr>stage := Mapping ta []\<rparr>"]) (simp_all add: set_stage_def)
    have "work_left (2 ^ k) ?s m < work_left (2 ^ k) s m"
      using m(1) by (simp add: work_left_def Bounded set_stage_def resolver_left_def)
    from that [OF _ this] step lim k m(1) show ?thesis by (simp add: limited_task_step_def occupying_def set_stage_def only_holders_def dropped_batch_def Bounded)
  next
    case (Mapping ta ts)
    obtain e where e: "ended ?b = Some e" "first ?b + length ts \<le> e"
        "assignment_tasks (2 ^ k) ta = map (\<lambda>i. i mod 2 ^ k) [first ?b..<e]"
      using mapping_next [OF inv'(2) k(2) mem Mapping] by metis
    show ?thesis
    proof (cases "through (ts_resolver s m)")
      case False
      then have "ts \<noteq> []" using st by (simp add: Mapping)
      then have "resolving (2 ^ k) (ts_batches s) m = Some (assignment_tasks (2 ^ k) ta ! (length ts - 1))"
        using m(1) by (simp add: resolving_def Mapping)
      then obtain s' where s': "task_step op drops dpush steal (2 ^ k) s s'" "ts_batches s' = ts_batches s"
          "only_holders s s'" "resolver_left (ts_resolver s' m) < resolver_left (ts_resolver s m)" "ts_resolver s' m \<noteq> RDropped"
        by (rule resolver_enabled [OF inv(1) k(2) _ False])
      have "within_limits k (shared s')" using inv(3) by (simp add: within_limits_def s'(2))
      moreover have "work_left (2 ^ k) s' m < work_left (2 ^ k) s m" using s'(4) by (simp add: work_left_def s'(2) Mapping)
      moreover have "\<not> dropped_batch s' m" "\<not> dropped_batch s m" using s'(5) False by (auto simp: dropped_batch_def)
      ultimately show ?thesis using that [of s'] s' k m by (simp add: limited_task_step_def)
    next
      case idle: True
      show ?thesis
      proof (cases "length ts < length (assignment_tasks (2 ^ k) ta)")
        case True
        let ?i = "assignment_tasks (2 ^ k) ta ! length ts"
        obtain t cell where take_: "take_task_unchecked (cell_at ?i (ts_queue s)) = Inr (t, cell)"
          using mapping_has_task [OF inv(1) k(2) m(1) Mapping True refl] by (metis surj_pair sum.exhaust)
        let ?st = "Mapping ta (ts @ [(the (tr_rx cell), t)])"
        let ?r = "if ts_resolver s m = RDone then RBegin (op (the (tr_rx cell), t)) else RDropped"
        let ?s = "s\<lparr>ts_queue := set_cell ?i cell (ts_queue s), ts_batches := set_stage m ?st (ts_batches s),
          ts_resolver := (ts_resolver s)(m := ?r)\<rparr>"
        have step: "task_step op drops dpush steal (2 ^ k) s ?s"
        proof (cases "ts_resolver s m = RDone")
          case resolved: True
          from task_step.map_takes [OF m(1) Mapping resolved True refl take_] resolved show ?thesis by simp
        next
          case False
          then have dropped: "ts_resolver s m = RDropped" using idle by (simp add: through_def)
          from task_step.drop_takes [OF m(1) Mapping dropped True refl take_] dropped show ?thesis
            by (simp add: fun_upd_idem)
        qed
        have lim: "within_limits k (shared ?s)"
          by (rule limits_set [OF inv(3) _ m(1) _ m(2), where b = "?b\<lparr>stage := ?st\<rparr>"]) (simp_all add: set_stage_def)
        have "work_left (2 ^ k) ?s m < work_left (2 ^ k) s m"
        proof -
          have "5 * (length (assignment_tasks (2 ^ k) ta) - Suc (length ts)) + 4 <
              5 * (length (assignment_tasks (2 ^ k) ta) - length ts)" using True by simp
          then show ?thesis using m(1) by (simp add: work_left_def Mapping set_stage_def resolver_left_def)
        qed
        from that [OF _ this] step lim k m(1) show ?thesis 
          using idle by (auto simp: limited_task_step_def occupying_def set_stage_def only_holders_def dropped_batch_def Mapping through_def)
      next
        case False
        then have len: "length ts = length (assignment_tasks (2 ^ k) ta)" using e(2,3) by simp
        obtain e' where e': "ta = bounds64 (first ?b) e'"
          using mapping_done [OF inv'(2) k(2) mem Mapping len] by metis
        have "inner (sys_queue (shared s)) = map_inner task_in (inner (ts_queue s))" by simp
        then obtain woken i where "deoccupy_region steal (2 ^ k) (range_start ta AND (2 ^ k - 1)) (inner (ts_queue s)) = Inr (woken, i)"
          using release_enabled [OF inv'(2) k mem m(2) deque, of e'] unfolding e' by (metis deoccupy_map_inner)
        then have rel: "assignment_deoccupy_buffer steal (2 ^ k) ta (inner (ts_queue s)) = Inr (woken, i)"
          by (simp add: assignment_deoccupy_buffer_def)
        let ?s = "s\<lparr>ts_queue := set_inner (ts_queue s) i, ts_batches := set_stage m (Released ts) (ts_batches s)\<rparr>"
        have step: "task_step op drops dpush steal (2 ^ k) s ?s"
          by (rule task_step.map_releases [OF m(1) Mapping idle len rel])
        have lim: "within_limits k (shared ?s)"
          by (rule limits_set [OF inv(3) _ m(1) _ m(2), where b = "?b\<lparr>stage := Released ts\<rparr>"]) (simp_all add: set_stage_def)
        have "work_left (2 ^ k) ?s m < work_left (2 ^ k) s m"
          using m(1) by (simp add: work_left_def Mapping set_stage_def)
        from that [OF _ this] step lim k m(1) show ?thesis by (simp add: limited_task_step_def occupying_def set_stage_def only_holders_def dropped_batch_def Mapping)
      qed
    qed
  qed (use m(2) st in \<open>simp_all add: occupying_def\<close>)
qed

lemma holder_finishes:
  assumes "task_inv k op drops s" "task_stages s" "within_limits k (shared s)" "6 \<le> k" "k < 32"
    and "fifo_deque dpush steal contents" "steal_progress steal retries"
    and "m < length (ts_batches s)" "occupying (ts_batches s ! m)"
  shows "\<exists>n\<le>work_left (2 ^ k) s m. \<exists>s'. (limited_task_step op drops dpush steal k ^^ n) s s' \<and>
    m < length (ts_batches s') \<and> (\<exists>ts. stage (ts_batches s' ! m) = Released ts) \<and> only_holders s s' \<and>
    (dropped_batch s' m \<longleftrightarrow> dropped_batch s m)"
  using assms
proof (induction "work_left (2 ^ k) s m" arbitrary: s rule: less_induct)
  case less
  obtain t where t: "limited_task_step op drops dpush steal k s t" "work_left (2 ^ k) t m < work_left (2 ^ k) s m"
      "only_holders s t" "m < length (ts_batches t)"
      "occupying (ts_batches t ! m) \<or> (\<exists>ts. stage (ts_batches t ! m) = Released ts)"
      "dropped_batch t m \<longleftrightarrow> dropped_batch s m"
    by (rule holder_enabled [OF less.prems])
  from t(5) show ?case
  proof
    assume "\<exists>ts. stage (ts_batches t ! m) = Released ts"
    moreover have "(limited_task_step op drops dpush steal k ^^ 1) s t" using t(1) by auto
    moreover have "1 \<le> work_left (2 ^ k) s m" using t(2) by simp
    ultimately show ?thesis using t(3,4,6) by blast
  next
    assume occ: "occupying (ts_batches t ! m)"
    have st: "task_step op drops dpush steal (2 ^ k) s t" "within_limits k (shared t)"
      using t(1) by (simp_all add: limited_task_step_def)
    have "task_inv k op drops t" by (rule task_inv_step [OF st(1) less.prems(1,4,5) st(2)])
    moreover have "task_stages t" by (rule task_stages_step [OF st(1) less.prems(2)])
    ultimately obtain n s' where s': "n \<le> work_left (2 ^ k) t m" "(limited_task_step op drops dpush steal k ^^ n) t s'"
        "m < length (ts_batches s')" "\<exists>ts. stage (ts_batches s' ! m) = Released ts" "only_holders t s'" "dropped_batch s' m \<longleftrightarrow> dropped_batch t m"
      using less.hyps [OF t(2) _ _ st(2) less.prems(4-7) t(4) occ] by blast
    have "(limited_task_step op drops dpush steal k ^^ Suc n) s s'" by (rule relpowp_Suc_I2 [OF t(1) s'(2)])
    moreover have "Suc n \<le> work_left (2 ^ k) s m" using s'(1) t(2) by simp
    ultimately show ?thesis using s'(3,4,6) t(6) only_holders_trans [OF t(3) s'(5)] by blast
  qed
qed

text \<open>
  C15. Resolving is wait-free: in every reachable state, whoever has a batch can bound it, take and
  resolve all its tasks, or drop them if its assignment is being dropped, and release it, in a
  bounded number of steps of its own and without a step of anybody else, whatever polls, destructors
  and other resolvers were doing.
\<close>

theorem resolving_wait_free:
  assumes "task_reachable op drops dpush steal k d futs s" "6 \<le> k" "k < 32"
    and "fifo_deque dpush steal contents" "steal_progress steal retries"
    and "m < length (ts_batches s)" "occupying (ts_batches s ! m)"
  shows "\<exists>n\<le>work_left (2 ^ k) s m. \<exists>s'. (limited_task_step op drops dpush steal k ^^ n) s s' \<and>
    (\<exists>ts. stage (ts_batches s' ! m) = Released ts) \<and> only_holders s s' \<and> (dropped_batch s' m \<longleftrightarrow> dropped_batch s m)"
  using holder_finishes [OF task_inv_reachable [OF assms(1-3)] task_stages_reachable [OF assms(1)]
    task_limits [OF assms(1)] assms(2-7)] by blast

section \<open>Witnesses\<close>

text \<open>
  One future, polled for the first time: it opens a batch, which is handed out, and resolved by
  whoever gets it.
\<close>

definition one_future :: "(64 word, nat, nat, string, nat) futures" where
  "one_future = [1 \<mapsto> Unbatched 5]"

definition polled_once :: "(64 word, (64 word, nat, nat) task_ref, string list) stack_queue
    \<Rightarrow> 64 word \<Rightarrow> 64 word unbounded_range \<Rightarrow> (nat, nat, nat, string, string list) task_system" where
  "polled_once q i ur = \<lparr>ts_queue = q, ts_owner = Idle, ts_log = [(1, 5)],
     ts_batches = [\<lparr>first = 0, ended = None, stage = Unbounded ur\<rparr>], ts_failed = False, ts_resolver = (\<lambda>_. RDone),
     ts_futures = [1 \<mapsto> Batched (receiver_new i ''w'')], ts_dropping = Map.empty, ts_woken = {},
     ts_returned = [], ts_discarded = []\<rparr>"

lemma polled_once_reachable:
  obtains q i ur where "task_reachable (Suc \<circ> snd) True list_push list_steal 6 [] one_future (polled_once q i ur)"
proof -
  let ?q = "fresh_queue task_ref_new_uninit :: (64 word, (64 word, nat, nat) task_ref, string list) stack_queue"
  let ?step = "task_step (Suc \<circ> snd) True list_push list_steal (2 ^ 6)"
  let ?s0 = "task_start ?q one_future :: (nat, nat, nat, string, string list) task_system"
  let ?s1 = "?s0\<lparr>ts_queue := ?q, ts_owner := Checked (1, 5)\<rparr>"
  have s1: "?step ?s0 ?s1"
    by (rule task_step.poll_free) (simp_all add: task_start_def one_future_def current_write_index_eq fresh_queue_at(2) [simplified])
  let ?i = "current_write_index (2 ^ 6) (ts_queue ?s1)"
  obtain cell futs where w: "write_task 1 ''w'' ?i (cell_at (unat ?i) (ts_queue ?s1)) (ts_futures ?s1) = (cell, futs)"
    by (metis surj_pair)
  have futs: "futs = [1 \<mapsto> Batched (receiver_new ?i ''w'')]"
    using w by (simp add: write_task_def one_future_def task_start_def)
  let ?q2 = "set_cell (unat ?i) cell (ts_queue ?s1)"
  let ?s2 = "?s1\<lparr>ts_queue := ?q2, ts_futures := futs, ts_owner := Written (1, 5),
    ts_failed := ts_failed ?s1 \<or> length (buffer (inner (ts_queue ?s1))) \<le> unat ?i\<rparr>"
  have s2: "?step ?s1 ?s2"
    by (rule task_step.poll_writes [OF _ refl w]) simp
  obtain base prev q3 where c: "claim_slot ?q2 = (base, prev, q3)" by (metis surj_pair)
  have opens: "(base XOR prev) AND PHASE \<noteq> 0"
    using c by (auto simp: claim_slot_def replace_slot_def fresh_queue_def mk_slot_0 mk_slot_PHASE PHASE_def Let_def)
  let ?ur = "\<lparr>ur_base_slot = base\<rparr>"
  let ?s3 = "?s2\<lparr>ts_queue := q3, ts_owner := Occupying (current_write_index (2 ^ 6) (ts_queue ?s2)), ts_log := ts_log ?s2 @ [(1, 5)],
    ts_batches := ts_batches ?s2 @ [\<lparr>first = length (ts_log ?s2), ended = None, stage = Claimed ?ur\<rparr>]\<rparr>"
  have s3: "?step ?s2 ?s3" by (rule task_step.poll_opens) (use c opens in simp_all)
  let ?s4 = "?s3\<lparr>ts_queue := occupy_region (2 ^ 6) (current_write_index (2 ^ 6) (ts_queue ?s2)) (ts_queue ?s3), ts_owner := Idle,
    ts_batches := set_stage 0 (Unbounded ?ur) (ts_batches ?s3)\<rparr>"
  have s4: "?step ?s3 ?s4" by (rule task_step.poll_occupies) (simp_all add: task_start_def)
  have lim: "within_limits 6 x" for x :: "(nat \<times> nat, string list, string) system" by (simp add: within_limits_def)
  have start: "task_reachable (Suc \<circ> snd) True list_push list_steal 6 [] one_future ?s0"
    by (rule task_init [OF fresh_queue_at(3)]) (simp add: all_unbatched_def one_future_def)
  have "task_reachable (Suc \<circ> snd) True list_push list_steal 6 [] one_future ?s4"
    by (rule task_next [OF task_next [OF task_next [OF task_next [OF start s1 lim] s2 lim] s3 lim] s4 lim])
  moreover have "unat ?i = 0" "length (buffer (inner (ts_queue ?s1))) = 64"
    by (simp_all add: current_write_index_eq fresh_queue_def slot_index_def mk_slot_PHASE PHASE_def INDEX_SHIFT_def)
  then have "?s4 = polled_once (ts_queue ?s4) ?i ?ur"
    by (simp add: polled_once_def task_start_def set_stage_def futs)
  ultimately show ?thesis by (metis that)
qed

lemma polled_once_held: "occupying (ts_batches (polled_once q i ur) ! 0)" "0 < length (ts_batches (polled_once q i ur))"
  by (simp_all add: polled_once_def occupying_def)

text \<open>The batch is resolved, and the future was not polled again.\<close>

lemma resolved_once_reachable:
  obtains s ts i v where "task_reachable (Suc \<circ> snd) True list_push list_steal 6 [] one_future (s :: (nat, nat, nat, string, string list) task_system)"
    "ts_log s = [(1, 5)]" "0 < length (ts_batches s)" "stage (ts_batches s ! 0) = Released ts" "ts_resolver s 0 \<noteq> RDropped"
    "in_batch (length (ts_log s)) (ts_batches s ! 0) 0"
    "ts_futures s 1 = Some (Batched ((receiver_new i ''w'')\<lparr>rx_value := v\<rparr>))" "ts_dropping s 1 = None"
proof -
  obtain q i ur where r: "task_reachable (Suc \<circ> snd) True list_push list_steal 6 [] one_future (polled_once q i ur)"
    by (rule polled_once_reachable)
  let ?s = "polled_once q i ur"
  have inv: "task_inv 6 (Suc \<circ> snd) True ?s" by (rule task_inv_reachable [OF r]) simp_all
  obtain n s ts where s: "(limited_task_step (Suc \<circ> snd) True list_push list_steal 6 ^^ n) ?s s" "0 < length (ts_batches s)"
      "stage (ts_batches s ! 0) = Released ts" "only_holders ?s s" "\<not> dropped_batch s 0"
    using holder_finishes [OF inv task_stages_reachable [OF r] task_limits [OF r] _ _ list_deque polled_once_held(2,1)]
    by (auto simp: dropped_batch_def polled_once_def)
  have reach: "task_reachable (Suc \<circ> snd) True list_push list_steal 6 [] one_future s"
    by (rule task_reachable_steps [OF s(1) r])
  have log: "ts_log s = [(1, 5)]" "ts_dropping s 1 = None" using s(4) by (simp_all add: only_holders_def polled_once_def)
  have "at_most_delivered (Some (Batched (receiver_new i ''w''))) (ts_futures s 1)"
    using s(4) by (auto simp: only_holders_def polled_once_def dest: spec [of _ 1])
  then have fut: "\<exists>v. ts_futures s 1 = Some (Batched ((receiver_new i ''w'')\<lparr>rx_value := v\<rparr>))"
    by (auto simp: at_most_delivered_def receiver_new_def)
  have "chain 0 (length (ts_log s)) (ts_batches s)"
    using task_chain [OF task_inv_dest(2) [OF task_inv_reachable [OF reach]]] by simp
  then have "in_batch (length (ts_log s)) (ts_batches s ! 0) 0" using s(2) by (cases "ts_batches s") auto
  moreover have "ts_resolver s 0 \<noteq> RDropped" using s(3,5) by (simp add: dropped_batch_def)
  ultimately show ?thesis using that reach log s(2,3) fut by blast
qed

theorem task_runs_refine_witness:
  "\<exists>s :: (nat, nat, nat, string, string list) task_system.
    limited_reachable list_push list_steal 6 [] (shared s) \<and> log (shared s) = [(1, 5)]"
proof -
  obtain q i ur where r: "task_reachable (Suc \<circ> snd) True list_push list_steal 6 [] one_future (polled_once q i ur)"
    by (rule polled_once_reachable)
  show ?thesis using task_runs_refine [OF r] by (intro exI [of _ "polled_once q i ur"]) (simp add: polled_once_def)
qed

theorem task_races_refine_witness:
  "\<exists>(s :: (nat, nat, nat, string, string list) task_system) pc. race_reachable True 6 (race_of 6 s 0 pc) \<and> ts_log s = [(1, 5)]"
proof -
  obtain q i ur where r: "task_reachable (Suc \<circ> snd) True list_push list_steal 6 [] one_future (polled_once q i ur)"
    by (rule polled_once_reachable)
  have "ts_log (polled_once q i ur) = [(1, 5)]" by (simp add: polled_once_def)
  with task_races_refine [OF r, of 0] show ?thesis by auto
qed

theorem task_system_safe_witness:
  "\<exists>s :: (nat, nat, nat, string, string list) task_system. ts_log s = [(1, 5)] \<and> \<not> ts_failed s"
proof -
  obtain q i ur where r: "task_reachable (Suc \<circ> snd) True list_push list_steal 6 [] one_future (polled_once q i ur)"
    by (rule polled_once_reachable)
  have "ts_log (polled_once q i ur) = [(1, 5)]" by (simp add: polled_once_def)
  with task_system_safe [OF r] show ?thesis by auto
qed

theorem task_delivered_witness:
  "\<exists>s i. ts_log s = [(1, 5)] \<and> 1 \<in> ts_woken (s :: (nat, nat, nat, string, string list) task_system) \<and>
    ts_futures s 1 = Some (Batched ((receiver_new i ''w'')\<lparr>rx_value := Some 6\<rparr>))"
proof -
  obtain s ts i v where s: "task_reachable (Suc \<circ> snd) True list_push list_steal 6 [] one_future (s :: (nat, nat, nat, string, string list) task_system)"
    "ts_log s = [(1, 5)]" "0 < length (ts_batches s)" "stage (ts_batches s ! 0) = Released ts" "ts_resolver s 0 \<noteq> RDropped"
    "in_batch (length (ts_log s)) (ts_batches s ! 0) 0"
    "ts_futures s 1 = Some (Batched ((receiver_new i ''w'')\<lparr>rx_value := v\<rparr>))" "ts_dropping s 1 = None"
    by (rule resolved_once_reachable)
  have "1 \<in> ts_woken s \<and> v = Some 6"
    using task_delivered [OF s(1) _ _ s(3-6), of 1 5] s(2,7,8) by simp
  with s(2,7) show ?thesis by blast
qed

theorem poll_returns_own_value_witness:
  "\<exists>(s :: (nat, nat, nat, string, string list) task_system) futs.
    batched_task_poll list_push (2 ^ 6) 1 ''w'' (ts_queue s) (ts_futures s) = Inr (Ready 6, None, ts_queue s, futs)"
proof -
  obtain s ts i v where s: "task_reachable (Suc \<circ> snd) True list_push list_steal 6 [] one_future (s :: (nat, nat, nat, string, string list) task_system)"
    "ts_log s = [(1, 5)]" "0 < length (ts_batches s)" "stage (ts_batches s ! 0) = Released ts" "ts_resolver s 0 \<noteq> RDropped"
    "in_batch (length (ts_log s)) (ts_batches s ! 0) 0"
    "ts_futures s 1 = Some (Batched ((receiver_new i ''w'')\<lparr>rx_value := v\<rparr>))" "ts_dropping s 1 = None"
    by (rule resolved_once_reachable)
  have "race_inv 6 True (race_of 6 s 0 RDone)"
    using released_race(1) [OF task_inv_reachable [OF s(1)] s(3,4,6)] s(2,5) by (simp add: settled_def)
  then have "1 \<in> ts_woken s"
    using s(2,7,8) by (auto simp: race_inv_def receiver_pc_def receiver_memory_def)
  from poll_returns_own_value [OF s(1) _ _ this s(7,8), of "''w''"] show ?thesis
    by (auto simp: one_future_def)
qed

theorem resolving_wait_free_witness:
  "\<exists>s n s' ts. n \<le> 8 \<and> (limited_task_step (Suc \<circ> snd) True list_push list_steal 6 ^^ n)
      (s :: (nat, nat, nat, string, string list) task_system) s' \<and>
    stage (ts_batches s ! 0) \<noteq> Released ts \<and> stage (ts_batches s' ! 0) = Released ts"
proof -
  obtain q i ur where r: "task_reachable (Suc \<circ> snd) True list_push list_steal 6 [] one_future (polled_once q i ur)"
    by (rule polled_once_reachable)
  have "work_left (2 ^ 6) (polled_once q i ur) 0 = 8" "stage (ts_batches (polled_once q i ur) ! 0) = Unbounded ur"
    by (simp_all add: work_left_def polled_once_def)
  with resolving_wait_free [OF r _ _ list_deque polled_once_held(2,1)] show ?thesis by fastforce
qed

text \<open>The batch is handed out, and its handle dropped.\<close>

lemma dropped_once_reachable:
  obtains s ts where "task_reachable (Suc \<circ> snd) True list_push list_steal 6 [] one_future (s :: (nat, nat, nat, string, string list) task_system)"
    "ts_log s = [(1, 5)]" "0 < length (ts_batches s)" "stage (ts_batches s ! 0) = Released ts" "ts_resolver s 0 = RDropped"
    "in_batch (length (ts_log s)) (ts_batches s ! 0) 0"
proof -
  obtain q i ur where r: "task_reachable (Suc \<circ> snd) True list_push list_steal 6 [] one_future (polled_once q i ur)"
    by (rule polled_once_reachable)
  let ?s = "polled_once q i ur"
  let ?step = "task_step (Suc \<circ> snd) True list_push list_steal (2 ^ 6)"
  obtain ta i' where bound: "into_assignment \<lparr>pa_base_slot = ur_base_slot ur\<rparr> (inner (ts_queue ?s)) = (ta, i')"
    by (metis surj_pair)
  let ?s1 = "?s\<lparr>ts_queue := set_inner (ts_queue ?s) i', ts_batches := (ts_batches ?s)
    [0 := (ts_batches ?s ! 0)\<lparr>stage := Bounded ta, ended := Some (length (ts_log ?s))\<rparr>]\<rparr>"
  have s1: "?step ?s ?s1" by (rule task_step.task_bound [OF _ _ bound]) (simp_all add: polled_once_def)
  let ?s2 = "?s1\<lparr>ts_batches := set_stage 0 (Mapping ta []) (ts_batches ?s1), ts_resolver := (ts_resolver ?s1)(0 := RDropped)\<rparr>"
  have s2: "?step ?s1 ?s2" by (rule task_step.drop_starts) (simp_all add: polled_once_def)
  have lim: "within_limits 6 x" for x :: "(nat \<times> nat, string list, string) system" by (simp add: within_limits_def)
  have r2: "task_reachable (Suc \<circ> snd) True list_push list_steal 6 [] one_future ?s2"
    by (rule task_next [OF task_next [OF r s1 lim] s2 lim])
  have "0 < length (ts_batches ?s2)" "occupying (ts_batches ?s2 ! 0)" "dropped_batch ?s2 0" "ts_log ?s2 = [(1, 5)]"
    by (simp_all add: polled_once_def occupying_def set_stage_def dropped_batch_def)
  moreover obtain n s ts where s: "(limited_task_step (Suc \<circ> snd) True list_push list_steal 6 ^^ n) ?s2 s" "0 < length (ts_batches s)"
      "stage (ts_batches s ! 0) = Released ts" "only_holders ?s2 s" "dropped_batch s 0 \<longleftrightarrow> dropped_batch ?s2 0"
    using holder_finishes [OF task_inv_reachable [OF r2] task_stages_reachable [OF r2] task_limits [OF r2] _ _ list_deque
      calculation(1,2)] by auto
  ultimately have log: "ts_log s = [(1, 5)]" "ts_resolver s 0 = RDropped"
    by (simp_all add: only_holders_def dropped_batch_def)
  have reach: "task_reachable (Suc \<circ> snd) True list_push list_steal 6 [] one_future s"
    by (rule task_reachable_steps [OF s(1) r2])
  have "chain 0 (length (ts_log s)) (ts_batches s)"
    using task_chain [OF task_inv_dest(2) [OF task_inv_reachable [OF reach]]] by simp
  then have "in_batch (length (ts_log s)) (ts_batches s ! 0) 0" using s(2) by (cases "ts_batches s") auto
  with that reach log s(2,3) show ?thesis by blast
qed

theorem dropped_batch_waits_witness:
  "\<exists>s :: (nat, nat, nat, string, string list) task_system. ts_log s = [(1, 5)] \<and>
    (\<exists>ts. stage (ts_batches s ! 0) = Released ts) \<and> 1 \<notin> ts_woken s"
proof -
  obtain s ts where s: "task_reachable (Suc \<circ> snd) True list_push list_steal 6 [] one_future (s :: (nat, nat, nat, string, string list) task_system)"
    "ts_log s = [(1, 5)]" "0 < length (ts_batches s)" "stage (ts_batches s ! 0) = Released ts" "ts_resolver s 0 = RDropped"
    "in_batch (length (ts_log s)) (ts_batches s ! 0) 0"
    by (rule dropped_once_reachable)
  have "1 \<notin> ts_woken s" using dropped_batch_waits [OF s(1) _ _ s(3-6), of s 1 5] s(2) by simp
  with s(2,4) show ?thesis by blast
qed

end
