(* ===== verification/Views.thy ===== *)
theory Views
  imports Runs
begin

unbundle bit_operations_syntax

text \<open>
  The cells of the buffer are not atomic: two accesses to a cell, one of which writes it, must be ordered by
  happens-before, or they are a data race, which is undefined behaviour in Rust. What orders accesses of
  different threads are the memory orderings of the atomic operations on slot and occupancy. To the
  runs of \<open>Interleaving\<close> this theory adds the view of each thread, which is the set of accesses that happen
  before whatever the thread does next, and finds the accesses that race.

  The values that atomic operations read are those of the interleaving. All changes of the two words are
  read-modify-write operations, which always read the latest value. The only load, in
  \<open>check_regional_occupancy\<close>, may read an older one, but none from before the owner's own last change, so a
  region could at most look busy that is already free.
\<close>

section \<open>Memory orderings\<close>

datatype ordering = Relaxed | Acquire | Release | AcqRel

definition acquires :: "ordering \<Rightarrow> bool" where
  "acquires ord \<longleftrightarrow> ord = Acquire \<or> ord = AcqRel"

definition releases :: "ordering \<Rightarrow> bool" where
  "releases ord \<longleftrightarrow> ord = Release \<or> ord = AcqRel"

text \<open>
  The orderings that the code gives to \<open>fetch_add\<close> on the slot in \<open>push\<close> and \<open>enqueue\<close>, \<open>fetch_xor\<close> on the slot
  in \<open>set_bounds\<close> and \<open>set_assignment_bounds\<close>, and \<open>load\<close>, \<open>fetch_add\<close> and \<open>fetch_sub\<close> on the occupancy.
\<close>

definition push_ordering :: ordering where "push_ordering = Relaxed"

definition bound_ordering :: ordering where "bound_ordering = Relaxed"

definition check_ordering :: ordering where "check_ordering = Acquire"

definition occupy_ordering :: ordering where "occupy_ordering = AcqRel"

definition deoccupy_ordering :: ordering where "deoccupy_ordering = AcqRel"

record orderings =
  o_push :: ordering
  o_bound :: ordering
  o_check :: ordering
  o_occupy :: ordering
  o_deoccupy :: ordering

definition code_orderings :: orderings where
  "code_orderings = \<lparr>o_push = push_ordering, o_bound = bound_ordering, o_check = check_ordering,
     o_occupy = occupy_ordering, o_deoccupy = deoccupy_ordering\<rparr>"

text \<open>
  An operation that acquires adds to the view of its thread what was released to the location, and one
  that releases adds the view of its thread to that. What was released once is handed on by all later
  read-modify-write operations, relaxed ones included: they continue the release sequence.
\<close>

definition thread_view :: "ordering \<Rightarrow> nat set \<Rightarrow> nat set \<Rightarrow> nat set" where
  "thread_view ord view loc = (if acquires ord then view \<union> loc else view)"

definition location_view :: "ordering \<Rightarrow> nat set \<Rightarrow> nat set \<Rightarrow> nat set" where
  "location_view ord view loc = (if releases ord then view \<union> loc else loc)"

lemma view_mono [simp, intro]:
  "x \<in> view \<Longrightarrow> x \<in> thread_view ord view loc" "x \<in> loc \<Longrightarrow> x \<in> location_view ord view loc"
  by (simp_all add: thread_view_def location_view_def)

lemma thread_view_acquires: "acquires ord \<Longrightarrow> thread_view ord view loc = view \<union> loc"
  by (simp add: thread_view_def)

lemma location_view_releases: "releases ord \<Longrightarrow> location_view ord view loc = view \<union> loc"
  by (simp add: location_view_def)

section \<open>Accesses and races\<close>

text \<open>
  The accesses to cells, in the order they are made, each with the thread that makes it and the cell. The
  number of an access is its position. A race is a pair of accesses to the same cell of which the
  first is not in the view of the thread that makes the second.
\<close>

datatype actor = Owner | Holder nat

record ('t, 'd, 'wk) traced =
  run :: "('t, 'd, 'wk) system"
  history :: "(actor \<times> nat) list"
  races :: "(nat \<times> nat) set"
  own_view :: "nat set"
  held_view :: "nat \<Rightarrow> nat set"
  slot_view :: "nat set"
  occ_view :: "nat set"

definition new_accesses :: "(actor \<times> nat) list \<Rightarrow> nat list \<Rightarrow> nat set" where
  "new_accesses hist cells = {length hist..<length hist + length cells}"

definition new_races :: "(actor \<times> nat) list \<Rightarrow> nat set \<Rightarrow> nat list \<Rightarrow> (nat \<times> nat) set" where
  "new_races hist view cells =
     {(p, length hist + i) | p i. i < length cells \<and> p < length hist \<and> snd (hist ! p) = cells ! i \<and> p \<notin> view}"

text \<open>The cells whose tasks a step of a holder moved out or dropped.\<close>

definition taken_cells :: "'t buffer_cell list \<Rightarrow> 't buffer_cell list \<Rightarrow> nat list" where
  "taken_cells buf buf' = filter (\<lambda>i. buf ! i \<noteq> None \<and> buf' ! i = None) [0..<length buf]"

text \<open>Whether \<open>check_regional_occupancy\<close> is called and loads the shared word.\<close>

definition check_loads :: "64 word \<Rightarrow> (64 word, 'c, 'd) stack_queue \<Rightarrow> bool" where
  "check_loads N q \<longleftrightarrow> (let i = current_write_index N q in
     i AND (region_size N - 1) = 0 \<and> own_occupancy q AND region_mask N i \<noteq> 0)"

definition is_consuming :: "'t stage \<Rightarrow> bool" where
  "is_consuming st \<longleftrightarrow> (case st of Bounded _ \<Rightarrow> True | Iterating _ _ \<Rightarrow> True | Mapping _ _ \<Rightarrow> True | _ \<Rightarrow> False)"

definition is_released :: "'t stage \<Rightarrow> bool" where
  "is_released st \<longleftrightarrow> (case st of Released _ \<Rightarrow> True | _ \<Rightarrow> False)"

text \<open>
  A step of the queue with what it does to the views. The handle of a new batch is given to another
  thread, which starts with the view that the owner then has: spawning a task synchronises. All that
  holders of different batches know of each other comes from the two words.
\<close>

inductive traced_step ::
    "('d \<Rightarrow> 'wk \<Rightarrow> 'd) \<Rightarrow> ('d \<Rightarrow> 'wk steal \<times> 'd) \<Rightarrow> orderings \<Rightarrow> 64 word
      \<Rightarrow> ('t, 'd, 'wk) traced \<Rightarrow> ('t, 'd, 'wk) traced \<Rightarrow> bool"
  for dpush :: "'d \<Rightarrow> 'wk \<Rightarrow> 'd" and steal :: "'d \<Rightarrow> 'wk steal \<times> 'd" and ords :: orderings and N :: "64 word" where
  traced_check:
    "sys_step dpush steal N (run h) s' \<Longrightarrow> owner (run h) = Idle \<Longrightarrow> owner s' \<noteq> Idle \<Longrightarrow>
     traced_step dpush steal ords N h (h\<lparr>run := s',
       own_view := if check_loads N (sys_queue (run h)) then thread_view (o_check ords) (own_view h) (occ_view h) else own_view h\<rparr>)"
| traced_park:
    "sys_step dpush steal N (run h) s' \<Longrightarrow> owner (run h) = Parking waker \<Longrightarrow> owner s' \<noteq> Parking waker \<Longrightarrow>
     traced_step dpush steal ords N h (h\<lparr>run := s'\<rparr>)"
| traced_write:
    "sys_step dpush steal N (run h) s' \<Longrightarrow> owner (run h) = Checked t \<Longrightarrow> owner s' \<noteq> Checked t \<Longrightarrow>
     cells = [unat (current_write_index N (sys_queue (run h)))] \<Longrightarrow>
     traced_step dpush steal ords N h (h\<lparr>run := s', history := history h @ map (Pair Owner) cells,
       races := races h \<union> new_races (history h) (own_view h) cells,
       own_view := own_view h \<union> new_accesses (history h) cells\<rparr>)"
| traced_claim:
    "sys_step dpush steal N (run h) s' \<Longrightarrow> owner (run h) = Written t \<Longrightarrow> owner s' \<noteq> Written t \<Longrightarrow>
     traced_step dpush steal ords N h (h\<lparr>run := s', own_view := thread_view (o_push ords) (own_view h) (slot_view h),
       slot_view := location_view (o_push ords) (own_view h) (slot_view h)\<rparr>)"
| traced_occupy:
    "sys_step dpush steal N (run h) s' \<Longrightarrow> owner (run h) = Occupying i \<Longrightarrow>
     j < length (batches (run h)) \<Longrightarrow> stage (batches (run h) ! j) = Claimed ur \<Longrightarrow> stage (batches s' ! j) = Unbounded ur \<Longrightarrow>
     view = thread_view (o_occupy ords) (own_view h) (occ_view h) \<Longrightarrow>
     traced_step dpush steal ords N h (h\<lparr>run := s', own_view := view, held_view := (held_view h)(j := view),
       occ_view := location_view (o_occupy ords) (own_view h) (occ_view h)\<rparr>)"
| traced_bound:
    "sys_step dpush steal N (run h) s' \<Longrightarrow>
     j < length (batches (run h)) \<Longrightarrow> stage (batches (run h) ! j) = Unbounded ur \<Longrightarrow> stage (batches s' ! j) = Bounded br \<Longrightarrow>
     traced_step dpush steal ords N h (h\<lparr>run := s',
       held_view := (held_view h)(j := thread_view (o_bound ords) (held_view h j) (slot_view h)),
       slot_view := location_view (o_bound ords) (held_view h j) (slot_view h)\<rparr>)"
| traced_take:
    "sys_step dpush steal N (run h) s' \<Longrightarrow>
     j < length (batches (run h)) \<Longrightarrow> is_consuming (stage (batches (run h) ! j)) \<Longrightarrow>
     stage (batches s' ! j) \<noteq> stage (batches (run h) ! j) \<Longrightarrow> \<not> is_released (stage (batches s' ! j)) \<Longrightarrow>
     cells = taken_cells (buffer (inner (sys_queue (run h)))) (buffer (inner (sys_queue s'))) \<Longrightarrow>
     traced_step dpush steal ords N h (h\<lparr>run := s', history := history h @ map (Pair (Holder j)) cells,
       races := races h \<union> new_races (history h) (held_view h j) cells,
       held_view := (held_view h)(j := held_view h j \<union> new_accesses (history h) cells)\<rparr>)"
| traced_release:
    "sys_step dpush steal N (run h) s' \<Longrightarrow>
     j < length (batches (run h)) \<Longrightarrow> \<not> is_released (stage (batches (run h) ! j)) \<Longrightarrow> is_released (stage (batches s' ! j)) \<Longrightarrow>
     traced_step dpush steal ords N h (h\<lparr>run := s',
       held_view := (held_view h)(j := thread_view (o_deoccupy ords) (held_view h j) (occ_view h)),
       occ_view := location_view (o_deoccupy ords) (held_view h j) (occ_view h)\<rparr>)"
| traced_fail:
    "sys_step dpush steal N (run h) ((run h)\<lparr>failed := True\<rparr>) \<Longrightarrow>
     traced_step dpush steal ords N h (h\<lparr>run := (run h)\<lparr>failed := True\<rparr>\<rparr>)"

definition traced_start :: "(64 word, 't buffer_cell, 'd) stack_queue \<Rightarrow> ('t, 'd, 'wk) traced" where
  "traced_start q = \<lparr>run = sys_start q, history = [], races = {}, own_view = {}, held_view = (\<lambda>_. {}),
     slot_view = {}, occ_view = {}\<rparr>"

inductive traced_reachable ::
    "('d \<Rightarrow> 'wk \<Rightarrow> 'd) \<Rightarrow> ('d \<Rightarrow> 'wk steal \<times> 'd) \<Rightarrow> orderings \<Rightarrow> nat \<Rightarrow> 'd \<Rightarrow> ('t, 'd, 'wk) traced \<Rightarrow> bool"
  for dpush :: "'d \<Rightarrow> 'wk \<Rightarrow> 'd" and steal :: "'d \<Rightarrow> 'wk steal \<times> 'd" and ords :: orderings and k :: nat and d :: 'd where
  traced_init: "stack_queue_default None (2 ^ k) d = Some q \<Longrightarrow> traced_reachable dpush steal ords k d (traced_start q)"
| traced_next: "traced_reachable dpush steal ords k d h \<Longrightarrow> traced_step dpush steal ords (2 ^ k) h h' \<Longrightarrow>
    within_limits k (run h') \<Longrightarrow> traced_reachable dpush steal ords k d h'"

text \<open>Tracing neither adds runs nor takes any away.\<close>

lemma traced_run: "traced_step dpush steal ords N h h' \<Longrightarrow> sys_step dpush steal N (run h) (run h')"
  by (induction rule: traced_step.induct) simp_all

lemma stage_set [simp]: "j < length bs \<Longrightarrow> stage (set_stage j st bs ! j) = st"
  by (simp add: set_stage_def)

lemma run_traced:
  fixes h :: "('t, 'd, 'wk) traced"
  assumes "sys_step dpush steal N (run h) s'"
  shows "\<exists>h'. traced_step dpush steal ords N h h' \<and> run h' = s'"
proof -
  have step: "\<exists>h'. traced_step dpush steal ords N h h' \<and> run h' = s'"
    if "traced_step dpush steal ords N h h'" "run h' = s'" for h' :: "('t, 'd, 'wk) traced" using that by blast
  from assms show ?thesis
  proof (cases rule: sys_step.cases)
    case (check_free q t)
    then show ?thesis using step [OF traced_check [OF assms]] by simp
  next
    case (check_full q waker)
    then show ?thesis using step [OF traced_check [OF assms]] by simp
  next
    case (park waker)
    then show ?thesis using step [OF traced_park [OF assms]] by simp
  next
    case (write_cell t i)
    then show ?thesis using step [OF traced_write [OF assms _ _ refl]] by simp
  next
    case (claim_joins t base prev q)
    then show ?thesis using step [OF traced_claim [OF assms]] by simp
  next
    case (claim_opens t base prev q)
    then show ?thesis using step [OF traced_claim [OF assms]] by simp
  next
    case (occupy i j ur)
    then show ?thesis using step [OF traced_occupy [OF assms _ _ _ _ refl, of i j ur]] by simp
  next
    case (bound j ur br s')
    then show ?thesis using step [OF traced_bound [OF assms, of j ur br]] by simp
  next
    case (take_tasks j br ts buf)
    then show ?thesis using step [OF traced_take [OF assms _ _ _ _ refl, of j]] by (simp add: is_consuming_def is_released_def)
  next
    case (start_iter j br)
    then show ?thesis using step [OF traced_take [OF assms _ _ _ _ refl, of j]] by (simp add: is_consuming_def is_released_def)
  next
    case (iterate j it ts t it' buf)
    then show ?thesis using step [OF traced_take [OF assms _ _ _ _ refl, of j]] by (simp add: is_consuming_def is_released_def)
  next
    case (release_iter j it ts it' buf woken s')
    then show ?thesis using step [OF traced_release [OF assms, of j]] by (simp add: is_released_def)
  next
    case (start_map j br)
    then show ?thesis using step [OF traced_take [OF assms _ _ _ _ refl, of j]] by (simp add: is_consuming_def is_released_def)
  next
    case (map_next j ta ts t buf)
    then show ?thesis using step [OF traced_take [OF assms _ _ _ _ refl, of j]] by (simp add: is_consuming_def is_released_def)
  next
    case (release_map j ta ts woken s')
    then show ?thesis using step [OF traced_release [OF assms, of j]] by (simp add: is_released_def)
  next
    case (drop_range j br ts buf)
    then show ?thesis using step [OF traced_take [OF assms _ _ _ _ refl, of j]] by (simp add: is_consuming_def is_released_def)
  next
    case (release j br ts woken s')
    then show ?thesis using step [OF traced_release [OF assms, of j]] by (simp add: is_released_def)
  qed (use step [OF traced_fail] assms in auto)
qed


section \<open>What the steps do to the queue\<close>

lemma step_checks:
  assumes "sys_step dpush steal N s s'" "owner s = Idle" "owner s' \<noteq> Idle"
  obtains r q where "region_check N (current_write_index N (sys_queue s)) (sys_queue s) = (r, q)" "sys_queue s' = q"
    "log s' = log s" "batches s' = batches s" "r = Inr () \<and> (\<exists>t. owner s' = Checked t) \<or> (\<exists>w. owner s' = Parking w)"
  using assms by (cases rule: sys_step.cases) auto

lemma step_parks:
  assumes "sys_step dpush steal N s s'" "owner s = Parking w" "owner s' \<noteq> Parking w"
  shows "owner s' = Idle" "log s' = log s" "batches s' = batches s" "own_occupancy (sys_queue s') = own_occupancy (sys_queue s)"
  using assms by (cases rule: sys_step.cases; simp add: pending_push_def)+

lemma step_writes:
  assumes "sys_step dpush steal N s s'" "owner s = Checked t" "owner s' \<noteq> Checked t"
  shows "owner s' = Written t" "log s' = log s" "batches s' = batches s" "own_occupancy (sys_queue s') = own_occupancy (sys_queue s)"
  using assms by (cases rule: sys_step.cases; simp add: set_inner_def)+

lemma claim_slot_frame: "claim_slot q = (base, prev, q') \<Longrightarrow> own_occupancy q' = own_occupancy q"
  by (auto simp: claim_slot_def replace_slot_def Let_def)

lemma step_claims:
  assumes "sys_step dpush steal N s s'" "owner s = Written t" "owner s' \<noteq> Written t"
  shows "log s' = log s @ [t]" "own_occupancy (sys_queue s') = own_occupancy (sys_queue s)"
    "owner s' = Idle \<and> batches s' = batches s \<or>
     (\<exists>i ur. owner s' = Occupying i \<and> batches s' = batches s @ [\<lparr>first = length (log s), ended = None, stage = Claimed ur\<rparr>])"
  using assms by (cases rule: sys_step.cases; auto dest: claim_slot_frame)+

lemma step_occupies:
  assumes "sys_step dpush steal N s s'" "owner s = Occupying i" "j < length (batches s)" "stage (batches s ! j) = Claimed ur"
    and "stage (batches s' ! j) = Unbounded ur"
  shows "owner s' = Idle" "log s' = log s" "batches s' = set_stage j (Unbounded ur) (batches s)"
    "own_occupancy (sys_queue s') = occupancy (inner (sys_queue s'))"
  using assms
  by (cases rule: sys_step.cases; auto simp: set_stage_def occupy_region_def Let_def nth_list_update split: if_splits)+

lemma step_bounds:
  assumes "sys_step dpush steal N s s'" "j < length (batches s)" "stage (batches s ! j) = Unbounded ur"
    and "stage (batches s' ! j) = Bounded br"
  shows "owner s' = owner s" "log s' = log s" "own_occupancy (sys_queue s') = own_occupancy (sys_queue s)"
    "batches s' = (batches s)[j := (batches s ! j)\<lparr>stage := Bounded br, ended := Some (length (log s))\<rparr>]"
  using assms
  by (cases rule: sys_step.cases; auto simp: set_stage_def set_inner_def nth_list_update nth_append split: if_splits)+

lemma step_releases:
  assumes "sys_step dpush steal N s s'" "j < length (batches s)" "\<not> is_released (stage (batches s ! j))"
    and "is_released (stage (batches s' ! j))"
  obtains ts where "owner s' = owner s" "log s' = log s" "own_occupancy (sys_queue s') = own_occupancy (sys_queue s)"
    "batches s' = set_stage j (Released ts) (batches s)" "is_consuming (stage (batches s ! j)) \<or> (\<exists>br ts. stage (batches s ! j) = Consumed br ts)"
  using assms
  by (cases rule: sys_step.cases; auto simp: is_released_def is_consuming_def set_stage_def set_inner_def nth_list_update nth_append split: if_splits)


text \<open>
  Taking tasks out of the batch \<open>j\<close>: the cells of its tasks from the next one up to \<open>m\<close> are cleared, and its
  stage becomes \<open>st\<close>.
\<close>

definition takes_tasks :: "nat \<Rightarrow> ('t, 'd, 'wk) system \<Rightarrow> ('t, 'd, 'wk) system \<Rightarrow> nat \<Rightarrow> nat \<Rightarrow> 't stage \<Rightarrow> bool" where
  "takes_tasks k s s' j m st \<longleftrightarrow> owner s' = owner s \<and> log s' = log s \<and>
     own_occupancy (sys_queue s') = own_occupancy (sys_queue s) \<and> batches s' = set_stage j st (batches s) \<and>
     untaken (batches s ! j) \<and> next_task (batches s ! j) \<le> m \<and> m \<le> batch_end (length (log s)) (batches s ! j) \<and>
     buffer (inner (sys_queue s')) = clear_window (2 ^ k) (next_task (batches s ! j)) m (buffer (inner (sys_queue s))) \<and>
     (is_consuming st \<and> next_task ((batches s ! j)\<lparr>stage := st\<rparr>) = m \<or> (\<exists>br ts. st = Consumed br ts))"

lemma takes_bounded:
  assumes "sys_inv k s" "k < 32" "j < length (batches s)" "stage (batches s ! j) = Bounded br"
  shows "takes_tasks k s (s\<lparr>batches := set_stage j (Iterating it []) (batches s)\<rparr>) j (next_task (batches s ! j)) (Iterating it [])"
    "takes_tasks k s (s\<lparr>batches := set_stage j (Mapping ta []) (batches s)\<rparr>) j (next_task (batches s ! j)) (Mapping ta [])"
    "copy_out (2 ^ k) br (buffer (inner (sys_queue s))) = Inr (ts, buf) \<Longrightarrow> \<exists>m.
      takes_tasks k s (s\<lparr>sys_queue := set_inner (sys_queue s) ((inner (sys_queue s))\<lparr>buffer := buf\<rparr>),
        batches := set_stage j (Consumed br ts) (batches s)\<rparr>) j m (Consumed br ts)"
    "drop_cells (2 ^ k) (range_indices (range_start br) (range_end br)) (buffer (inner (sys_queue s))) = Inr (ts, buf) \<Longrightarrow> \<exists>m.
      takes_tasks k s (s\<lparr>sys_queue := set_inner (sys_queue s) ((inner (sys_queue s))\<lparr>buffer := buf\<rparr>),
        batches := set_stage j (Consumed br ts) (batches s)\<rparr>) j m (Consumed br ts)"
proof -
  let ?b = "batches s ! j"
  have mem: "?b \<in> set (batches s)" using assms(3) by simp
  obtain e where e: "ended ?b = Some e" "untaken ?b" "next_task ?b = first ?b"
    using bounded_end [OF assms(1) mem assms(4)] by metis
  have le: "first ?b \<le> e" using bounded_window(1) [OF assms(1) mem e(2,1)] by simp
  show "takes_tasks k s (s\<lparr>batches := set_stage j (Iterating it []) (batches s)\<rparr>) j (next_task ?b) (Iterating it [])"
    "takes_tasks k s (s\<lparr>batches := set_stage j (Mapping ta []) (batches s)\<rparr>) j (next_task ?b) (Mapping ta [])"
    using e le by (simp_all add: takes_tasks_def batch_end_def is_consuming_def next_task_def)
  assume "copy_out (2 ^ k) br (buffer (inner (sys_queue s))) = Inr (ts, buf)"
  with e le bounded_takes [OF assms(1,2) mem assms(4) e(1)]
  show "\<exists>m. takes_tasks k s (s\<lparr>sys_queue := set_inner (sys_queue s) ((inner (sys_queue s))\<lparr>buffer := buf\<rparr>),
        batches := set_stage j (Consumed br ts) (batches s)\<rparr>) j m (Consumed br ts)"
    by (intro exI [of _ e]) (simp add: takes_tasks_def batch_end_def set_inner_def)
next
  let ?b = "batches s ! j"
  have mem: "?b \<in> set (batches s)" using assms(3) by simp
  obtain e where e: "ended ?b = Some e" "untaken ?b" "next_task ?b = first ?b"
    using bounded_end [OF assms(1) mem assms(4)] by metis
  have le: "first ?b \<le> e" using bounded_window(1) [OF assms(1) mem e(2,1)] by simp
  assume "drop_cells (2 ^ k) (range_indices (range_start br) (range_end br)) (buffer (inner (sys_queue s))) = Inr (ts, buf)"
  with e le bounded_drops [OF assms(1,2) mem assms(4) e(1)]
  show "\<exists>m. takes_tasks k s (s\<lparr>sys_queue := set_inner (sys_queue s) ((inner (sys_queue s))\<lparr>buffer := buf\<rparr>),
        batches := set_stage j (Consumed br ts) (batches s)\<rparr>) j m (Consumed br ts)"
    by (intro exI [of _ "if same_cycle (first ?b) e then e else first ?b"])
      (auto simp: takes_tasks_def batch_end_def set_inner_def split: if_splits)
qed

lemma takes_iterated:
  assumes "sys_inv k s" "k < 32" "j < length (batches s)" "stage (batches s ! j) = Iterating it ts"
    and "iter_next (2 ^ k) it (buffer (inner (sys_queue s))) = Inr (Some t, it', buf)"
  shows "takes_tasks k s (s\<lparr>sys_queue := set_inner (sys_queue s) ((inner (sys_queue s))\<lparr>buffer := buf\<rparr>),
    batches := set_stage j (Iterating it' (ts @ [t])) (batches s)\<rparr>) j (Suc (next_task (batches s ! j))) (Iterating it' (ts @ [t]))"
proof -
  let ?b = "batches s ! j"
  let ?n = "first ?b + length ts"
  obtain e where e: "ended ?b = Some e"
    and next_: "iter_next (2 ^ k) it (buffer (inner (sys_queue s))) =
      (if same_cycle (first ?b) e \<and> ?n < e
       then Inr (Some (log s ! ?n), iter64 (first ?b) e (Suc ?n),
         clear_window (2 ^ k) ?n (Suc ?n) (buffer (inner (sys_queue s))))
       else Inr (None, it, buffer (inner (sys_queue s))))"
    using iterating_next [OF assms(1,2) nth_mem [OF assms(3)] assms(4)] by metis
  then have "?n < e" "buf = clear_window (2 ^ k) ?n (Suc ?n) (buffer (inner (sys_queue s)))"
    using assms(5) by (auto split: if_splits)
  then show ?thesis
    using e assms(4) by (simp add: takes_tasks_def batch_end_def set_inner_def untaken_def next_task_def is_consuming_def)
qed

lemma takes_mapped:
  assumes "sys_inv k s" "k < 32" "j < length (batches s)" "stage (batches s ! j) = Mapping ta ts"
    and "length ts < length (assignment_tasks (2 ^ k) ta)"
    and "read_cell (assignment_tasks (2 ^ k) ta ! length ts) (buffer (inner (sys_queue s))) = Inr (t, buf)"
  shows "takes_tasks k s (s\<lparr>sys_queue := set_inner (sys_queue s) ((inner (sys_queue s))\<lparr>buffer := buf\<rparr>),
    batches := set_stage j (Mapping ta (ts @ [t])) (batches s)\<rparr>) j (Suc (next_task (batches s ! j))) (Mapping ta (ts @ [t]))"
proof -
  let ?b = "batches s ! j"
  let ?n = "first ?b + length ts"
  obtain e where e: "ended ?b = Some e" "assignment_tasks (2 ^ k) ta = map (\<lambda>i. i mod 2 ^ k) [first ?b..<e]"
    and next_: "?n < e \<Longrightarrow>
      read_cell (assignment_tasks (2 ^ k) ta ! length ts) (buffer (inner (sys_queue s))) =
        Inr (log s ! ?n, clear_window (2 ^ k) ?n (Suc ?n) (buffer (inner (sys_queue s))))"
    using mapping_next [OF assms(1,2) nth_mem [OF assms(3)] assms(4)] by metis
  have "?n < e" using assms(5) e(2) by simp
  moreover from next_ [OF this] assms(6) have "buf = clear_window (2 ^ k) ?n (Suc ?n) (buffer (inner (sys_queue s)))"
    by simp
  ultimately show ?thesis
    using e assms(4) by (simp add: takes_tasks_def batch_end_def set_inner_def untaken_def next_task_def is_consuming_def)
qed

lemma step_takes:
  assumes "sys_step dpush steal (2 ^ k) s s'" "sys_inv k s" "k < 32" "j < length (batches s)"
    and "is_consuming (stage (batches s ! j))" "stage (batches s' ! j) \<noteq> stage (batches s ! j)"
    and "\<not> is_released (stage (batches s' ! j))"
  shows "\<exists>m st. takes_tasks k s s' j m st"
proof -
  have same: "i = j" if "i < length (batches s)" "stage (set_stage i st (batches s) ! j) \<noteq> stage (batches s ! j)" for i st
    using that by (cases "i = j") (simp_all add: set_stage_def)
  from assms(1) show ?thesis
  proof (cases rule: sys_step.cases)
    case (take_tasks i br ts buf)
    with same [of i] assms(6) have "i = j" by simp
    then show ?thesis using takes_bounded(3) [OF assms(2,3)] take_tasks by blast
  next
    case (drop_range i br ts buf)
    with same [of i] assms(6) have "i = j" by simp
    then show ?thesis using takes_bounded(4) [OF assms(2,3)] drop_range by blast
  next
    case (start_iter i br)
    with same [of i] assms(6) have "i = j" by simp
    then show ?thesis using takes_bounded(1) [OF assms(2,3)] start_iter by blast
  next
    case (start_map i br)
    with same [of i] assms(6) have "i = j" by simp
    then show ?thesis using takes_bounded(2) [OF assms(2,3)] start_map by blast
  next
    case (iterate i it ts t it' buf)
    with same [of i] assms(6) have "i = j" by simp
    then show ?thesis using takes_iterated [OF assms(2,3)] iterate by blast
  next
    case (map_next i ta ts t buf)
    with same [of i] assms(6) have "i = j" by simp
    then show ?thesis using takes_mapped [OF assms(2,3)] map_next by blast
  qed (use assms(4-7) in \<open>auto simp: is_consuming_def is_released_def set_stage_def nth_list_update nth_append split: if_splits\<close>)
qed

end
