(* ===== verification/DataRaces.thy ===== *)
theory DataRaces
  imports Views
begin

unbundle bit_operations_syntax

text \<open>
  Which accesses to cells race: with the orderings of the code, neither the owner's writes to cells that
  are reused nor the takes of the first task of a batch, but the takes of tasks that joined it; with a
  slot that synchronises, none.
\<close>

section \<open>Cells that are reused\<close>

text \<open>The owner's cache shows the region \<open>r\<close> as busy.\<close>

definition marks :: "nat \<Rightarrow> (64 word, 'c, 'd) stack_queue \<Rightarrow> nat \<Rightarrow> bool" where
  "marks k q r \<longleftrightarrow> (\<forall>i. unat i < 2 ^ k \<longrightarrow> region k (unat i) = r \<longrightarrow> own_occupancy q AND region_mask (2 ^ k) i \<noteq> 0)"

text \<open>The counter, with the task that passed the check of its region.\<close>

definition horizon :: "('t, 'd, 'wk) system \<Rightarrow> nat" where
  "horizon s = length (log s) + (case owner s of Checked _ \<Rightarrow> 1 | Written _ \<Rightarrow> 1 | _ \<Rightarrow> 0)"

lemma occupying_marked:
  assumes "sys_inv k s" "6 \<le> k" "k < 32" "b \<in> set (batches s)" "occupying b"
  shows "marks k (sys_queue s) (region k (first b))"
  unfolding marks_def
proof (intro allI impI)
  fix i :: "64 word"
  assume i: "unat i < 2 ^ k" "region k (unat i) = region k (first b)"
  obtain B where B: "own_occupancy (sys_queue s) = enc64 (count B)" "regions_of k (batches s) \<subseteq># B" "\<forall>r. count B r < 256"
    using sys_inv_words [OF assms(1)] by metis
  have "region k (first b) \<in># B" using mset_subset_eqD [OF B(2) in_regions [OF assms(4,5)]] .
  then show "own_occupancy (sys_queue s) AND region_mask (2 ^ k) i \<noteq> 0"
    using occ64.is_free_mset [of k i B] assms(2,3) i B(1,3) by simp
qed

lemma running_horizon:
  assumes "sys_inv k s" "b \<in> set (batches s)" "running b"
  shows "horizon s \<le> region_start k (first b) + 2 ^ k"
  using assms by (cases "owner s") (simp_all add: horizon_def sys_inv_def owner_ok_def in_window_def)

lemma sys_inv_chain: "sys_inv k s \<Longrightarrow> chain 0 (length (log s)) (batches s)"
  by (simp add: sys_inv_def)

lemma sys_inv_stage: "sys_inv k s \<Longrightarrow> b \<in> set (batches s) \<Longrightarrow> stage_ok (log s) b"
  by (simp add: sys_inv_def)

lemma ended_occupying:
  assumes "sys_inv k s" "b \<in> set (batches s)" "ended b \<noteq> None" "\<not> is_released (stage b)"
  shows "occupying b" "running b"
  using sys_inv_stage [OF assms(1,2)] assms(3,4)
  by (cases "stage b"; simp add: stage_ok_def occupying_def running_def is_released_def)+

lemma consuming_ended:
  assumes "sys_inv k s" "b \<in> set (batches s)" "is_consuming (stage b)"
  shows "ended b \<noteq> None" "untaken b" "running b"
  using sys_inv_stage [OF assms(1,2)] assms(3)
  by (cases "stage b"; force simp: stage_ok_def is_consuming_def untaken_def running_def)+

text \<open>
  The owner's own accesses are in its view. An access of a holder is to a cell of its batch; if it is
  not in the owner's view, then the owner's cache still shows the region of the batch busy, and the
  counter has not passed that region again.
\<close>

definition holder_access :: "nat \<Rightarrow> ('t, 'd, 'wk) traced \<Rightarrow> nat \<Rightarrow> nat \<Rightarrow> nat \<Rightarrow> bool" where
  "holder_access k h p j c \<longleftrightarrow> j < length (batches (run h)) \<and> (let b = batches (run h) ! j in
     ended b \<noteq> None \<and> (\<exists>n\<in>{first b..<batch_end (length (log (run h))) b}. c = n mod 2 ^ k) \<and> p \<in> held_view h j \<and>
     (is_released (stage b) \<longrightarrow> p \<in> occ_view h) \<and>
     (p \<notin> own_view h \<longrightarrow> marks k (sys_queue (run h)) (region k (first b)) \<and>
        horizon (run h) \<le> region_start k (first b) + 2 ^ k))"

definition access_ok :: "nat \<Rightarrow> ('t, 'd, 'wk) traced \<Rightarrow> nat \<Rightarrow> bool" where
  "access_ok k h p \<longleftrightarrow> (case history h ! p of (Owner, c) \<Rightarrow> p \<in> own_view h | (Holder j, c) \<Rightarrow> holder_access k h p j c)"

definition reuse_inv :: "nat \<Rightarrow> ('t, 'd, 'wk) traced \<Rightarrow> bool" where
  "reuse_inv k h \<longleftrightarrow> (\<forall>p<length (history h). access_ok k h p)"

lemma access_frame:
  assumes "access_ok k h p" "history h' ! p = history h ! p" "own_view h \<subseteq> own_view h'" "occ_view h \<subseteq> occ_view h'"
    and "\<And>j. ended (batches (run h) ! j) \<noteq> None \<Longrightarrow> held_view h j \<subseteq> held_view h' j"
    and "\<And>j. j < length (batches (run h)) \<Longrightarrow> ended (batches (run h) ! j) \<noteq> None \<Longrightarrow> j < length (batches (run h')) \<and>
      first (batches (run h') ! j) = first (batches (run h) ! j) \<and> ended (batches (run h') ! j) = ended (batches (run h) ! j) \<and>
      (is_released (stage (batches (run h') ! j)) \<longrightarrow> is_released (stage (batches (run h) ! j)) \<or> held_view h j \<subseteq> occ_view h')"
    and "\<And>j c. history h ! p = (Holder j, c) \<Longrightarrow> holder_access k h p j c \<Longrightarrow> p \<notin> own_view h' \<Longrightarrow>
      marks k (sys_queue (run h')) (region k (first (batches (run h) ! j))) \<and>
      horizon (run h') \<le> region_start k (first (batches (run h) ! j)) + 2 ^ k"
  shows "access_ok k h' p"
proof (cases "history h ! p")
  case (Pair a c)
  show ?thesis
  proof (cases a)
    case Owner
    then show ?thesis using assms(1-3) Pair by (auto simp: access_ok_def)
  next
    case (Holder j)
    let ?b = "batches (run h) ! j" and ?b' = "batches (run h') ! j"
    have acc: "holder_access k h p j c" using assms(1) Pair Holder by (simp add: access_ok_def)
    then have b: "j < length (batches (run h))" "ended ?b \<noteq> None" "p \<in> held_view h j" "is_released (stage ?b) \<longrightarrow> p \<in> occ_view h"
      by (simp_all add: holder_access_def Let_def)
    have "\<exists>n\<in>{first ?b..<batch_end (length (log (run h))) ?b}. c = n mod 2 ^ k"
      using acc unfolding holder_access_def Let_def by (elim conjE)
    then obtain n where n: "n \<in> {first ?b..<batch_end (length (log (run h))) ?b}" "c = n mod 2 ^ k" by blast
    note b' = assms(6) [OF b(1,2)]
    obtain e where "ended ?b = Some e" using b(2) by blast
    then have "batch_end (length (log (run h'))) ?b' = batch_end (length (log (run h))) ?b"
      using b' by (simp add: batch_end_def)
    with n b' have cell: "\<exists>n\<in>{first ?b'..<batch_end (length (log (run h'))) ?b'}. c = n mod 2 ^ k" by auto
    have "p \<notin> own_view h' \<longrightarrow> marks k (sys_queue (run h')) (region k (first ?b')) \<and>
        horizon (run h') \<le> region_start k (first ?b') + 2 ^ k"
      using assms(7) [OF _ acc] Pair Holder b' by simp
    moreover have "p \<in> held_view h' j" using b(3) assms(5) [OF b(2)] by blast
    moreover have "is_released (stage ?b') \<longrightarrow> p \<in> occ_view h'" using b' b(3,4) assms(4) by blast
    ultimately have "holder_access k h' p j c"
      using b' b(2) cell by (simp add: holder_access_def Let_def)
    then show ?thesis using assms(2) Pair Holder by (simp add: access_ok_def)
  qed
qed

text \<open>What the owner writes to is not in use, and whoever used it happened before.\<close>

lemma own_write_ordered:
  assumes "sys_inv k s" "reuse_inv k h" "run h = s" "owner s = Checked t" "p < length (history h)"
    and "snd (history h ! p) = length (log s) mod 2 ^ k"
  shows "p \<in> own_view h"
proof (rule ccontr)
  assume not: "p \<notin> own_view h"
  obtain a c where ac: "history h ! p = (a, c)" by fastforce
  have ok: "access_ok k h p" using assms(2,5) by (simp add: reuse_inv_def)
  then obtain j where j: "a = Holder j" using not ac by (cases a) (simp_all add: access_ok_def)
  let ?b = "batches s ! j"
  have "holder_access k h p j c" using ok ac j by (simp add: access_ok_def)
  then obtain n where n: "j < length (batches s)" "n \<in> {first ?b..<batch_end (length (log s)) ?b}" "c = n mod 2 ^ k"
    and R: "horizon s \<le> region_start k (first ?b) + 2 ^ k"
    using not assms(3) by (auto simp: holder_access_def Let_def)
  have "batch_end (length (log s)) ?b \<le> length (log s)"
    using chain_bounds [OF sys_inv_chain [OF assms(1)] nth_mem [OF n(1)]] by simp
  moreover have "Suc (length (log s)) \<le> first ?b + 2 ^ k"
    using R assms(4) block_start_le [of "2 ^ (k - 3)" "first ?b"] by (simp add: horizon_def)
  moreover have "n mod 2 ^ k = length (log s) mod 2 ^ k" using assms(6) ac n(3) by simp
  ultimately show False
    using mod_window_distinct [of "Suc (length (log s))" "first ?b" "2 ^ k" n "length (log s)"] n(2) by auto
qed

text \<open>A check that does not load the shared word leaves the queue as it is.\<close>

lemma check_not_loads:
  assumes "region_check N (current_write_index N q) q = (r, q')" "\<not> check_loads N q"
  shows "r = Inr ()" "q' = q"
  using assms by (auto simp: check_loads_def region_check_def check_regional_occupancy_def Let_def split: if_splits)

lemma marks_same: "own_occupancy q' = own_occupancy q \<Longrightarrow> marks k q' r = marks k q r"
  by (simp add: marks_def)

text \<open>So passing it means that the region to be entered is not marked.\<close>

lemma check_horizon:
  assumes "sys_inv k s" "6 \<le> k" "k < 32" "owner s = Idle" "\<not> check_loads (2 ^ k) (sys_queue s)"
    and "b \<in> set (batches s)" "marks k (sys_queue s) (region k (first b))" "horizon s \<le> region_start k (first b) + 2 ^ k"
  shows "Suc (length (log s)) \<le> region_start k (first b) + 2 ^ k"
proof -
  let ?c = "length (log s)" and ?i = "current_write_index (2 ^ k) (sys_queue s)"
  obtain op ph where q: "queue_at k ?c op ph (regions_of k (batches s)) (sys_queue s)"
    using sys_inv_words [OF assms(1)] by metis
  have i: "unat ?i = ?c mod 2 ^ k" by (rule write_index_at [OF q assms(3)])
  have le: "?c \<le> region_start k (first b) + 2 ^ k" using assms(4,8) by (simp add: horizon_def)
  have "?c \<noteq> region_start k (first b) + 2 ^ k"
  proof
    assume eq: "?c = region_start k (first b) + 2 ^ k"
    have "first b < ?c" using chain_bounds [OF sys_inv_chain [OF assms(1)] assms(6)] by linarith
    then have lap: "2 ^ (k - 3) dvd ?c" "region k ?c = region k (first b)"
      using lap_iff [of k "first b" ?c] le eq assms(2) by simp_all
    have "?i AND (region_size (2 ^ k) - 1) = 0"
      using at_region_start [OF assms(2,3), of ?c op] lap(1) q by (simp add: current_write_index_eq queue_at_def)
    moreover have "own_occupancy (sys_queue s) AND region_mask (2 ^ k) ?i \<noteq> 0"
      using assms(7) i lap(2) by (simp add: marks_def region_def)
    ultimately show False using assms(5) by (simp add: check_loads_def Let_def)
  qed
  then show ?thesis using le by simp
qed


text \<open>The orderings on the occupancy that the reuse of cells needs.\<close>

definition occupancy_synchronises :: "orderings \<Rightarrow> bool" where
  "occupancy_synchronises ords \<longleftrightarrow> acquires (o_check ords) \<and> acquires (o_occupy ords) \<and> releases (o_deoccupy ords)"

lemma holder_accessD:
  assumes "holder_access k h p j c"
  shows "j < length (batches (run h))" "ended (batches (run h) ! j) \<noteq> None"
    "\<exists>n\<in>{first (batches (run h) ! j)..<batch_end (length (log (run h))) (batches (run h) ! j)}. c = n mod 2 ^ k"
    "p \<in> held_view h j" "is_released (stage (batches (run h) ! j)) \<Longrightarrow> p \<in> occ_view h"
    "p \<notin> own_view h \<Longrightarrow> marks k (sys_queue (run h)) (region k (first (batches (run h) ! j)))"
    "p \<notin> own_view h \<Longrightarrow> horizon (run h) \<le> region_start k (first (batches (run h) ! j)) + 2 ^ k"
  using assms unfolding holder_access_def Let_def by blast+

text \<open>After a load of the shared word, what the owner has not seen was done by batches that are still running.\<close>

lemma unseen_running:
  assumes "sys_inv k s" "6 \<le> k" "k < 32" "b \<in> set (batches s)" "ended b \<noteq> None" "\<not> is_released (stage b)"
  shows "marks k (sys_queue s) (region k (first b)) \<and> horizon s \<le> region_start k (first b) + 2 ^ k"
  using ended_occupying [OF assms(1,4-6)] occupying_marked [OF assms(1-4)] running_horizon [OF assms(1,4)] by blast

lemma set_stage_nth:
  "j < length bs \<Longrightarrow> i < length bs \<Longrightarrow> first (set_stage j st bs ! i) = first (bs ! i) \<and>
    ended (set_stage j st bs ! i) = ended (bs ! i) \<and> stage (set_stage j st bs ! i) = (if i = j then st else stage (bs ! i))"
  by (simp add: set_stage_def nth_list_update)

lemma set_stage_length [simp]: "length (set_stage j st bs) = length bs"
  by (simp add: set_stage_def)

lemma taken_cells_clear:
  assumes "i < length (taken_cells buf (clear_window n a b buf))"
  obtains x where "x \<in> {a..<b}" "taken_cells buf (clear_window n a b buf) ! i = x mod n"
proof -
  have "taken_cells buf (clear_window n a b buf) ! i \<in> set (taken_cells buf (clear_window n a b buf))" using assms by simp
  then show thesis using that by (auto simp: taken_cells_def nth_clear_window split: if_splits)
qed

lemma takes_tasksD:
  assumes "takes_tasks k s s' j m st"
  shows "owner s' = owner s" "log s' = log s" "own_occupancy (sys_queue s') = own_occupancy (sys_queue s)"
    "batches s' = set_stage j st (batches s)" "untaken (batches s ! j)" "next_task (batches s ! j) \<le> m"
    "m \<le> batch_end (length (log s)) (batches s ! j)" "\<not> is_released st"
  using assms unfolding takes_tasks_def by (auto simp: is_released_def is_consuming_def split: stage.splits)

lemma takes_tasks_next:
  assumes "takes_tasks k s s' j m st" "j < length (batches s)" "untaken (batches s' ! j)"
  shows "is_consuming st" "next_task (batches s' ! j) = m"
  using assms unfolding takes_tasks_def by (auto simp: set_stage_def untaken_def)

lemma takes_tasks_cells:
  assumes "takes_tasks k s s' j m st" "cells = taken_cells (buffer (inner (sys_queue s))) (buffer (inner (sys_queue s')))"
    and "i < length cells"
  obtains n where "n \<in> {next_task (batches s ! j)..<m}" "cells ! i = n mod 2 ^ k"
proof -
  have buf: "buffer (inner (sys_queue s')) = clear_window (2 ^ k) (next_task (batches s ! j)) m (buffer (inner (sys_queue s)))"
    using assms(1) unfolding takes_tasks_def by blast
  show thesis using taken_cells_clear [OF assms(3) [unfolded assms(2) buf]] that assms(2) buf by metis
qed

lemma access_keep:
  assumes "holder_access k h p j c" "p \<notin> own_view h'" "own_view h \<subseteq> own_view h'"
    and "own_occupancy (sys_queue (run h')) = own_occupancy (sys_queue (run h))" "horizon (run h') = horizon (run h)"
  shows "marks k (sys_queue (run h')) (region k (first (batches (run h) ! j))) \<and>
    horizon (run h') \<le> region_start k (first (batches (run h) ! j)) + 2 ^ k"
  using holder_accessD(6,7) [OF assms(1)] assms(2-5) marks_same [OF assms(4)] by auto

lemma reuse_check:
  assumes "sys_step dpush steal (2 ^ k) (run h) s'" "owner (run h) = Idle" "owner s' \<noteq> Idle"
    and "h' = h\<lparr>run := s', own_view := if check_loads (2 ^ k) (sys_queue (run h))
      then thread_view (o_check ords) (own_view h) (occ_view h) else own_view h\<rparr>"
    and "reuse_inv k h" "sys_inv k (run h)" "sys_inv k (run h')" "6 \<le> k" "k < 32" "acquires (o_check ords)"
  shows "reuse_inv k h'"
proof -
  have old: "access_ok k h p" if "p < length (history h)" for p using assms(5) that by (simp add: reuse_inv_def)
  obtain r q where chk: "region_check (2 ^ k) (current_write_index (2 ^ k) (sys_queue (run h))) (sys_queue (run h)) = (r, q)"
    "sys_queue s' = q" "log s' = log (run h)" "batches s' = batches (run h)"
    "r = Inr () \<and> (\<exists>t. owner s' = Checked t) \<or> (\<exists>w. owner s' = Parking w)"
    using step_checks [OF assms(1-3)] by metis
  have "access_ok k h' p" if p: "p < length (history h)" for p
  proof (rule access_frame [OF old [OF p]])
    fix j c
    let ?b = "batches (run h) ! j"
    assume acc: "holder_access k h p j c" and unseen: "p \<notin> own_view h'"
    note D = holder_accessD [OF acc]
    have unseen0: "p \<notin> own_view h" using unseen by (auto simp: assms(4) split: if_splits)
    show "marks k (sys_queue (run h')) (region k (first ?b)) \<and> horizon (run h') \<le> region_start k (first ?b) + 2 ^ k"
    proof (cases "check_loads (2 ^ k) (sys_queue (run h))")
      case True
      then have "p \<notin> occ_view h" using unseen assms(10) by (simp add: assms(4) thread_view_acquires)
      then have "\<not> is_released (stage ?b)" using D(5) by blast
      with unseen_running [OF assms(7-9), of ?b] D(1,2) chk(4) show ?thesis by (simp add: assms(4))
    next
      case False
      note q = check_not_loads [OF chk(1) False]
      have "Suc (length (log (run h))) \<le> region_start k (first ?b) + 2 ^ k"
        by (rule check_horizon [OF assms(6,8,9,2) False nth_mem [OF D(1)] D(6,7) [OF unseen0]])
      then show ?thesis using D(6) [OF unseen0] q chk(2,3,5) by (auto simp: assms(4) horizon_def)
    qed
  qed (use chk(4) in \<open>auto simp: assms(4)\<close>)
  then show ?thesis by (simp add: reuse_inv_def assms(4))
qed

lemma reuse_take:
  assumes "takes_tasks k (run h) s' j m st" "j < length (batches (run h))" "is_consuming (stage (batches (run h) ! j))"
    and "cells = taken_cells (buffer (inner (sys_queue (run h)))) (buffer (inner (sys_queue s')))"
    and "reuse_inv k h" "sys_inv k (run h)" "sys_inv k (run h')" "6 \<le> k" "k < 32"
    and "h' = h\<lparr>run := s', history := history h @ map (Pair (Holder j)) cells,
       races := races h \<union> new_races (history h) (held_view h j) cells,
       held_view := (held_view h)(j := held_view h j \<union> new_accesses (history h) cells)\<rparr>"
  shows "reuse_inv k h'"
proof -
  have old: "access_ok k h p" if "p < length (history h)" for p using assms(5) that by (simp add: reuse_inv_def)
  note s = takes_tasksD [OF assms(1)] and keep = access_keep [where k = k and h = h and h' = h']
  let ?b = "batches (run h) ! j"
  have mem: "?b \<in> set (batches (run h))" using assms(2) by simp
  have ended: "ended ?b \<noteq> None" by (rule consuming_ended(1) [OF assms(6) mem assms(3)])
  have j: "j < length (batches s')" "first (batches s' ! j) = first ?b" "ended (batches s' ! j) = ended ?b"
    "stage (batches s' ! j) = st" using set_stage_nth [OF assms(2,2)] assms(2) s(4) by simp_all
  have "access_ok k h' p" if p: "p < length (history h)" for p
    by (rule access_frame [OF old [OF p]])
      (use s keep p assms(2) in \<open>auto simp: assms(10) horizon_def set_stage_nth nth_append\<close>)
  moreover have "access_ok k h' (length (history h) + i)" if i: "i < length cells" for i
  proof -
    obtain n where n: "n \<in> {next_task ?b..<m}" "cells ! i = n mod 2 ^ k" by (rule takes_tasks_cells [OF assms(1,4) i])
    have "batch_end (length (log s')) (batches s' ! j) = batch_end (length (log (run h))) ?b"
      using j(3) s(2) by (simp add: batch_end_def)
    then have "n \<in> {first (batches s' ! j)..<batch_end (length (log s')) (batches s' ! j)}"
      using n(1) s(7) next_task_ge [of ?b] j(2) by simp
    moreover have "marks k (sys_queue s') (region k (first (batches s' ! j))) \<and>
        horizon s' \<le> region_start k (first (batches s' ! j)) + 2 ^ k"
      using unseen_running [OF _ assms(8,9) nth_mem [OF j(1)]] assms(7) ended j s(8) by (simp add: assms(10))
    ultimately have "holder_access k h' (length (history h) + i) j (n mod 2 ^ k)"
      using j s(8) ended i unfolding holder_access_def Let_def
      by (auto simp: assms(10) new_accesses_def)
    then show ?thesis using i n(2) by (simp add: access_ok_def assms(10) nth_append)
  qed
  ultimately have "access_ok k h' p" if "p < length (history h')" for p
    using that by (cases "p < length (history h)") (auto simp: assms(10) not_less dest!: le_Suc_ex)
  then show ?thesis by (simp add: reuse_inv_def)
qed

lemma reuse_inv_step:
  assumes "traced_step dpush steal ords (2 ^ k) h h'" "reuse_inv k h" "sys_inv k (run h)" "sys_inv k (run h')"
    and "6 \<le> k" "k < 32" "occupancy_synchronises ords"
  shows "reuse_inv k h'"
proof -
  have sync: "acquires (o_check ords)" "acquires (o_occupy ords)" "releases (o_deoccupy ords)"
    using assms(7) by (simp_all add: occupancy_synchronises_def)
  have old: "access_ok k h p" if "p < length (history h)" for p using assms(2) that by (simp add: reuse_inv_def)
  note keep = access_keep [where k = k and h = h and h' = h']
  from assms(1) show ?thesis
  proof (cases rule: traced_step.cases)
    case (traced_check s')
    show ?thesis by (rule reuse_check [OF traced_check(2-4,1) assms(2-6) sync(1)])
  next
    case (traced_park s' w)
    note s = step_parks [OF traced_park(2-4)]
    have "access_ok k h' p" if p: "p < length (history h)" for p
      by (rule access_frame [OF old [OF p]])
        (use s traced_park(3) keep in \<open>auto simp: traced_park(1) horizon_def\<close>)
    then show ?thesis by (simp add: reuse_inv_def traced_park(1))
  next
    case (traced_write s' t cells)
    note s = step_writes [OF traced_write(2-4)]
    have "access_ok k h' p" if p: "p < length (history h)" for p
      by (rule access_frame [OF old [OF p]])
        (use s traced_write(3) keep p in \<open>auto simp: traced_write(1) horizon_def nth_append\<close>)
    moreover have "access_ok k h' (length (history h))"
      by (simp add: access_ok_def traced_write(1,5) new_accesses_def nth_append)
    ultimately show ?thesis by (auto simp: reuse_inv_def traced_write(1,5) less_Suc_eq)
  next
    case (traced_claim s' t)
    note s = step_claims [OF traced_claim(2-4)]
    have "horizon s' = horizon (run h)" using s traced_claim(3) by (auto simp: horizon_def)
    then have "access_ok k h' p" if p: "p < length (history h)" for p
      by (intro access_frame [OF old [OF p]])
        (use s keep in \<open>auto simp: traced_claim(1) nth_append\<close>)
    then show ?thesis by (simp add: reuse_inv_def traced_claim(1))
  next
    case (traced_occupy s' i j ur view)
    note s = step_occupies [OF traced_occupy(2-6)]
    have ended: "ended (batches (run h) ! j) = None"
      using sys_inv_stage [OF assms(3) nth_mem [OF traced_occupy(4)]] by (simp add: stage_ok_def traced_occupy(5))
    have "access_ok k h' p" if p: "p < length (history h)" for p
    proof (rule access_frame [OF old [OF p]])
      fix x c
      let ?b = "batches (run h) ! x"
      assume acc: "holder_access k h p x c" and unseen: "p \<notin> own_view h'"
      note D = holder_accessD [OF acc]
      have "p \<notin> occ_view h" using unseen sync(2) by (simp add: traced_occupy(1,7) thread_view_acquires)
      then have "\<not> is_released (stage ?b)" using D(5) by blast
      moreover have "batches s' ! x = ?b" using D(2) ended s(3) by (cases "x = j") (simp_all add: set_stage_def)
      ultimately show "marks k (sys_queue (run h')) (region k (first ?b)) \<and> horizon (run h') \<le> region_start k (first ?b) + 2 ^ k"
        using unseen_running [OF assms(4-6), of ?b] D(1,2) nth_mem [of x "batches s'"] s(3) by (simp add: traced_occupy(1))
    qed (use s ended traced_occupy(4) in \<open>auto simp: traced_occupy(1,7) set_stage_nth is_released_def split: if_splits\<close>)
    then show ?thesis by (simp add: reuse_inv_def traced_occupy(1))
  next
    case (traced_bound s' j ur br)
    note s = step_bounds [OF traced_bound(2-5)]
    have ended: "ended (batches (run h) ! j) = None"
      using sys_inv_stage [OF assms(3) nth_mem [OF traced_bound(3)]] by (simp add: stage_ok_def traced_bound(4))
    have "access_ok k h' p" if p: "p < length (history h)" for p
      by (rule access_frame [OF old [OF p]])
        (use s keep ended traced_bound(3) in \<open>auto simp: traced_bound(1) horizon_def nth_list_update is_released_def\<close>)
    then show ?thesis by (simp add: reuse_inv_def traced_bound(1))
  next
    case (traced_release s' j)
    obtain ts where s: "owner s' = owner (run h)" "log s' = log (run h)" "own_occupancy (sys_queue s') = own_occupancy (sys_queue (run h))"
      "batches s' = set_stage j (Released ts) (batches (run h))"
      using step_releases [OF traced_release(2-5)] by metis
    have "access_ok k h' p" if p: "p < length (history h)" for p
      by (rule access_frame [OF old [OF p]])
        (use s keep traced_release(3) sync(3) in \<open>auto simp: traced_release(1) horizon_def set_stage_nth location_view_releases\<close>)
    then show ?thesis by (simp add: reuse_inv_def traced_release(1))
  next
    case traced_fail
    have "access_ok k h' p" if p: "p < length (history h)" for p
      by (rule access_frame [OF old [OF p]]) (use keep in \<open>auto simp: traced_fail(1) horizon_def\<close>)
    then show ?thesis by (simp add: reuse_inv_def traced_fail(1))
  next
    case (traced_take s' j cells)
    obtain m st where takes: "takes_tasks k (run h) s' j m st"
      using step_takes [OF traced_take(2) assms(3,6) traced_take(3-6)] by blast
    show ?thesis by (rule reuse_take [OF takes traced_take(3,4,7) assms(2-6) traced_take(1)])
  qed
qed


section \<open>Tasks that are handed over\<close>

text \<open>
  The accesses to the cell of a task that its batch has still to take are in the view that the
  batch takes with it. With \<open>head\<close> this is asked of the first task of a batch only, which the owner's view
  covers when the handle is handed over; without, of all tasks, which needs the slot to carry
  what the owner knows when it advances the slot to whoever bounds the batch.
\<close>

definition seen :: "bool \<Rightarrow> ('t, 'd, 'wk) traced \<Rightarrow> nat \<Rightarrow> nat set" where
  "seen head h j = (case stage (batches (run h) ! j) of
     Claimed _ \<Rightarrow> if head then own_view h else slot_view h
   | Unbounded _ \<Rightarrow> if head then held_view h j else slot_view h
   | _ \<Rightarrow> held_view h j)"

definition batch_seen :: "nat \<Rightarrow> bool \<Rightarrow> ('t, 'd, 'wk) traced \<Rightarrow> nat \<Rightarrow> nat \<Rightarrow> bool" where
  "batch_seen k head h j p \<longleftrightarrow> (let b = batches (run h) ! j in untaken b \<longrightarrow>
     (\<forall>n\<in>{next_task b..<batch_end (length (log (run h))) b}. (head \<longrightarrow> n = first b) \<longrightarrow>
        snd (history h ! p) = n mod 2 ^ k \<longrightarrow> p \<in> seen head h j))"

definition write_seen :: "nat \<Rightarrow> ('t, 'd, 'wk) traced \<Rightarrow> nat \<Rightarrow> bool" where
  "write_seen k h p \<longleftrightarrow> (\<forall>t. owner (run h) = Written t \<longrightarrow>
     snd (history h ! p) = length (log (run h)) mod 2 ^ k \<longrightarrow> p \<in> own_view h)"

definition order_inv :: "nat \<Rightarrow> bool \<Rightarrow> ('t, 'd, 'wk) traced \<Rightarrow> bool" where
  "order_inv k head h \<longleftrightarrow>
     (\<forall>p<length (history h). (\<forall>j<length (batches (run h)). batch_seen k head h j p) \<and> write_seen k h p)"

definition slot_synchronises :: "bool \<Rightarrow> orderings \<Rightarrow> bool" where
  "slot_synchronises head ords \<longleftrightarrow> head \<or> releases (o_push ords) \<and> acquires (o_bound ords)"

lemma batch_seenD:
  assumes "batch_seen k head h j p" "untaken (batches (run h) ! j)"
    and "n \<in> {next_task (batches (run h) ! j)..<batch_end (length (log (run h))) (batches (run h) ! j)}"
    and "head \<longrightarrow> n = first (batches (run h) ! j)" "snd (history h ! p) = n mod 2 ^ k"
  shows "p \<in> seen head h j"
  using assms unfolding batch_seen_def Let_def by blast

lemma batch_seen_frame:
  assumes "batch_seen k head h j p" "history h' ! p = history h ! p"
    and "untaken (batches (run h') ! j) \<Longrightarrow> untaken (batches (run h) ! j) \<and>
      next_task (batches (run h) ! j) \<le> next_task (batches (run h') ! j) \<and> first (batches (run h') ! j) = first (batches (run h) ! j) \<and>
      batch_end (length (log (run h'))) (batches (run h') ! j) = batch_end (length (log (run h))) (batches (run h) ! j) \<and>
      seen head h j \<subseteq> seen head h' j"
  shows "batch_seen k head h' j p"
  unfolding batch_seen_def Let_def
proof (intro impI ballI)
  fix n
  let ?b = "batches (run h) ! j" and ?b' = "batches (run h') ! j"
  assume un: "untaken ?b'" and n: "n \<in> {next_task ?b'..<batch_end (length (log (run h'))) ?b'}"
    and head: "head \<longrightarrow> n = first ?b'" and cell: "snd (history h' ! p) = n mod 2 ^ k"
  note b = assms(3) [OF un]
  have "n \<in> {next_task ?b..<batch_end (length (log (run h))) ?b}" using n b by simp
  then have "p \<in> seen head h j"
    using assms(1) b head cell assms(2) unfolding batch_seen_def Let_def by metis
  then show "p \<in> seen head h' j" using b by blast
qed

lemma running_cells_distinct:
  assumes "sys_inv k s" "i < length (batches s)" "j < length (batches s)" "running (batches s ! i)" "running (batches s ! j)"
    and "n \<in> {first (batches s ! i)..<batch_end (length (log s)) (batches s ! i)}"
    and "m \<in> {first (batches s ! j)..<batch_end (length (log s)) (batches s ! j)}" "n mod 2 ^ k = m mod 2 ^ k"
  shows "n = m" "i = j"
proof -
  let ?c = "length (log s)"
  have chain: "chain 0 ?c (batches s)" by (rule sys_inv_chain [OF assms(1)])
  have win: "?c \<le> first b + 2 ^ k" if "b \<in> set (batches s)" "running b" for b
    using assms(1) that block_start_le [of "2 ^ (k - 3)" "first b"] by (force simp: sys_inv_def in_window_def)
  define lo where "lo = min (first (batches s ! i)) (first (batches s ! j))"
  have "?c \<le> lo + 2 ^ k" using win [OF nth_mem [OF assms(2)] assms(4)] win [OF nth_mem [OF assms(3)] assms(5)]
    by (simp add: lo_def min_def)
  moreover have "n < ?c" "m < ?c"
    using chain_bounds [OF chain nth_mem [OF assms(2)]] chain_bounds [OF chain nth_mem [OF assms(3)]] assms(6,7) by simp_all
  moreover have "lo \<le> n" "lo \<le> m" using assms(6,7) by (simp_all add: lo_def min_le_iff_disj)
  ultimately show n: "n = m" using mod_window_distinct [of ?c lo "2 ^ k" n m] assms(8) by simp
  show "i = j"
  proof (rule ccontr)
    assume "i \<noteq> j"
    then consider "i < j" | "j < i" by linarith
    then show False
      using chain_disjoint [OF chain _ assms(3), of i] chain_disjoint [OF chain _ assms(2), of j] assms(6,7) n by cases auto
  qed
qed

lemma counter_cell_free:
  assumes "sys_inv k s" "owner s = Checked t \<or> owner s = Written t" "j < length (batches s)" "running (batches s ! j)"
    and "n \<in> {first (batches s ! j)..<batch_end (length (log s)) (batches s ! j)}"
  shows "n mod 2 ^ k \<noteq> length (log s) mod 2 ^ k"
proof -
  let ?b = "batches s ! j"
  have "in_window k (Suc (length (log s))) ?b" using assms(1-3) by (auto simp: sys_inv_def owner_ok_def)
  moreover have "n < length (log s)"
    using chain_bounds [OF sys_inv_chain [OF assms(1)] nth_mem [OF assms(3)]] assms(5) by simp
  ultimately show ?thesis using window_cell_free [of k "length (log s)" ?b n] assms(4,5) by simp
qed


lemma seen_consuming: "is_consuming (stage (batches (run h) ! j)) \<Longrightarrow> seen head h j = held_view h j"
  by (auto simp: seen_def is_consuming_def split: stage.splits)

text \<open>Views that grow, over batches that stay as they are.\<close>

lemma seen_mono:
  assumes "stage (batches (run h') ! j) = stage (batches (run h) ! j)" "own_view h \<subseteq> own_view h'"
    and "slot_view h \<subseteq> slot_view h'" "held_view h j \<subseteq> held_view h' j"
  shows "seen head h j \<subseteq> seen head h' j"
  using assms by (auto simp: seen_def split: stage.splits)

lemma batch_seen_same:
  assumes "batch_seen k head h j p" "history h' ! p = history h ! p" "batches (run h') ! j = batches (run h) ! j"
    and "batch_end (length (log (run h'))) (batches (run h) ! j) = batch_end (length (log (run h))) (batches (run h) ! j)"
    and "own_view h \<subseteq> own_view h'" "slot_view h \<subseteq> slot_view h'" "held_view h j \<subseteq> held_view h' j"
  shows "batch_seen k head h' j p"
proof (rule batch_seen_frame [OF assms(1,2)])
  have "seen head h j \<subseteq> seen head h' j" by (rule seen_mono) (use assms in simp_all)
  then show "untaken (batches (run h) ! j) \<and>
      next_task (batches (run h) ! j) \<le> next_task (batches (run h') ! j) \<and> first (batches (run h') ! j) = first (batches (run h) ! j) \<and>
      batch_end (length (log (run h'))) (batches (run h') ! j) = batch_end (length (log (run h))) (batches (run h) ! j) \<and>
      seen head h j \<subseteq> seen head h' j" if "untaken (batches (run h') ! j)"
    using that assms(3,4) by simp
qed

lemma order_write:
  assumes "sys_inv k (run h)" "reuse_inv k h" "order_inv k head h" "owner (run h) = Checked t" "cell = length (log (run h)) mod 2 ^ k"
    and "owner s' = Written t" "log s' = log (run h)" "batches s' = batches (run h)"
    and "h' = h\<lparr>run := s', history := history h @ [(Owner, cell)], races := R, own_view := own_view h \<union> {length (history h)}\<rparr>"
  shows "order_inv k head h'"
proof -
  have hist: "history h' = history h @ [(Owner, cell)]" "run h' = s'" by (simp_all add: assms(9))
  have old: "batch_seen k head h j p" if "p < length (history h)" "j < length (batches (run h))" for p j
    using assms(3) that by (simp add: order_inv_def)
  have "batch_seen k head h' j p \<and> write_seen k h' p" if p: "p < length (history h')" "j < length (batches (run h))" for p j
  proof (cases "p < length (history h)")
    case True
    have "batch_seen k head h' j p"
      by (rule batch_seen_same [OF old [OF True p(2)]]) (use assms(7,8) True in \<open>auto simp: assms(9) nth_append\<close>)
    moreover have "write_seen k h' p"
      using own_write_ordered [OF assms(1,2) refl assms(4) True] assms(7) True
      by (auto simp: write_seen_def assms(9) nth_append)
    ultimately show ?thesis ..
  next
    case False
    then have new: "p = length (history h)" using p(1) hist(1) by simp
    have "batch_seen k head h' j p"
      unfolding batch_seen_def Let_def
    proof (intro impI ballI)
      fix n
      let ?b = "batches (run h) ! j"
      assume "untaken (batches (run h') ! j)"
        and n: "n \<in> {next_task (batches (run h') ! j)..<batch_end (length (log (run h'))) (batches (run h') ! j)}"
        and cell: "snd (history h' ! p) = n mod 2 ^ k"
      then have "running ?b" "n \<in> {first ?b..<batch_end (length (log (run h))) ?b}"
        using assms(7,8) next_task_ge [of ?b] untaken_running [of ?b] by (simp_all add: hist(2))
      with counter_cell_free [OF assms(1) _ p(2), of t n] assms(4)
      have "n mod 2 ^ k \<noteq> length (log (run h)) mod 2 ^ k" by simp
      then show "p \<in> seen head h' j" using cell by (simp add: hist(1) new assms(5))
    qed
    moreover have "write_seen k h' p" by (simp add: write_seen_def assms(9) new)
    ultimately show ?thesis ..
  qed
  moreover have "write_seen k h' p" if p: "p < length (history h')" for p
  proof (cases "p < length (history h)")
    case True
    then show ?thesis using own_write_ordered [OF assms(1,2) refl assms(4) True] assms(7)
      by (auto simp: write_seen_def assms(9) nth_append)
  next
    case False
    then show ?thesis using p by (simp add: write_seen_def assms(9))
  qed
  ultimately show ?thesis using assms(8) by (simp add: order_inv_def hist(2))
qed

lemma order_claim:
  assumes "sys_inv k (run h)" "order_inv k head h" "owner (run h) = Written t" "log s' = log (run h) @ [t]" "sys_inv k s'"
    and "owner s' = Idle \<and> batches s' = batches (run h) \<or>
      (\<exists>i ur. owner s' = Occupying i \<and> batches s' = batches (run h) @ [\<lparr>first = length (log (run h)), ended = None, stage = Claimed ur\<rparr>])"
    and "run h' = s'" "history h' = history h" "own_view h \<subseteq> own_view h'" "slot_view h \<subseteq> slot_view h'" "held_view h' = held_view h"
    and "\<not> head \<Longrightarrow> own_view h \<subseteq> slot_view h'"
  shows "order_inv k head h'"
proof -
  let ?c = "length (log (run h))"
  have old: "batch_seen k head h j p" "snd (history h ! p) = ?c mod 2 ^ k \<Longrightarrow> p \<in> own_view h"
    if "p < length (history h)" "j < length (batches (run h))" for p j
    using assms(2,3) that by (auto simp: order_inv_def write_seen_def)
  have w: "p \<in> own_view h" if "p < length (history h)" "snd (history h ! p) = ?c mod 2 ^ k" for p
    using assms(2,3) that by (auto simp: order_inv_def write_seen_def)
  have same: "batches s' ! j = batches (run h) ! j" if "j < length (batches (run h))" for j
    using assms(6) that by (auto simp: nth_append)
  have "batch_seen k head h' j p" if p: "p < length (history h)" and j: "j < length (batches s')" for p j
    unfolding batch_seen_def Let_def
  proof (intro impI ballI)
    fix n
    let ?b = "batches s' ! j"
    assume un: "untaken (batches (run h') ! j)"
      and n: "n \<in> {next_task (batches (run h') ! j)..<batch_end (length (log (run h'))) (batches (run h') ! j)}"
      and hd: "head \<longrightarrow> n = first (batches (run h') ! j)" and cell: "snd (history h' ! p) = n mod 2 ^ k"
    have n': "n \<in> {next_task ?b..<batch_end (Suc ?c) ?b}" using n assms(4,7) by simp
    show "p \<in> seen head h' j"
    proof (cases "j < length (batches (run h)) \<and> n < batch_end ?c ?b")
      case True
      then have j': "j < length (batches (run h))" by simp
      have "p \<in> seen head h j"
        by (rule batch_seenD [OF old(1) [OF p j']]) (use un n' hd cell True same [OF j'] assms(7,8) in simp_all)
      moreover have "seen head h j \<subseteq> seen head h' j" by (rule seen_mono) (use same [OF j'] assms(7-11) in simp_all)
      ultimately show ?thesis by blast
    next
      case False
      have open_new: "ended ?b = None \<and> n = ?c \<and> (head \<longrightarrow> j = length (batches (run h)))"
      proof (cases "j < length (batches (run h))")
        case True
        then have ge: "batch_end ?c ?b \<le> n" using False by simp
        have "first ?b < batch_end ?c ?b" "batch_end ?c ?b \<le> ?c"
          using chain_bounds [OF sys_inv_chain [OF assms(1)] nth_mem [OF True]] same [OF True] by simp_all
        then show ?thesis using ge n' hd assms(7) by (cases "ended ?b") (auto simp: batch_end_def)
      next
        case False
        then show ?thesis using assms(6) j n' by (auto simp: batch_end_def next_task_def nth_append)
      qed
      then have own: "p \<in> own_view h" using w [OF p] cell assms(8) by simp
      have ok: "stage_ok (log s') ?b" by (rule sys_inv_stage [OF assms(5) nth_mem [OF j]])
      show ?thesis
      proof (cases head)
        case True
        have "\<exists>ur. stage ?b = Claimed ur" using assms(6) j open_new True by (auto simp: nth_append)
        then show ?thesis using own assms(7,9) True by (auto simp: seen_def)
      next
        case False
        have "(\<exists>ur. stage ?b = Claimed ur) \<or> (\<exists>ur. stage ?b = Unbounded ur)"
          using ok open_new un assms(7) by (cases "stage ?b") (simp_all add: stage_ok_def untaken_def)
        then show ?thesis using own assms(7,12) False by (auto simp: seen_def)
      qed
    qed
  qed
  moreover have "write_seen k h' p" for p using assms(6,7) by (auto simp: write_seen_def)
  ultimately show ?thesis using assms(7,8) by (simp add: order_inv_def)
qed

lemma order_take:
  assumes "sys_inv k (run h)" "order_inv k head h" "takes_tasks k (run h) s' j m st" "j < length (batches (run h))"
    and "is_consuming (stage (batches (run h) ! j))"
    and "cells = taken_cells (buffer (inner (sys_queue (run h)))) (buffer (inner (sys_queue s')))"
    and "h' = h\<lparr>run := s', history := history h @ map (Pair (Holder j)) cells, races := R,
      held_view := (held_view h)(j := held_view h j \<union> V)\<rparr>"
  shows "order_inv k head h'"
proof -
  note s = takes_tasksD [OF assms(3)]
  let ?b = "batches (run h) ! j"
  have run: "running ?b" by (rule consuming_ended(3) [OF assms(1) nth_mem [OF assms(4)] assms(5)])
  have old: "batch_seen k head h x p" "write_seen k h p" if "p < length (history h)" "x < length (batches (run h))" for p x
    using assms(2) that by (simp_all add: order_inv_def)
  have nth: "first (batches s' ! x) = first (batches (run h) ! x)" "ended (batches s' ! x) = ended (batches (run h) ! x)"
    "x \<noteq> j \<Longrightarrow> batches s' ! x = batches (run h) ! x" if "x < length (batches (run h))" for x
    using set_stage_nth [OF assms(4) that] s(4) by (simp_all add: set_stage_def)
  have len: "length (batches s') = length (batches (run h))" by (simp add: s(4))
  have end_same: "batch_end (length (log s')) (batches s' ! x) = batch_end (length (log (run h))) (batches (run h) ! x)"
    if "x < length (batches (run h))" for x using nth(2) [OF that] s(2) by (simp add: batch_end_def)
  have "batch_seen k head h' x p" if p: "p < length (history h')" and x: "x < length (batches (run h))" for p x
  proof (cases "p < length (history h)")
    case True
    show ?thesis
    proof (cases "x = j")
      case x: True
      show ?thesis
      proof (rule batch_seen_frame [OF old(1) [OF True that(2)]])
        assume "untaken (batches (run h') ! x)"
        then have un: "is_consuming st" "next_task (batches s' ! j) = m"
          using takes_tasks_next [OF assms(3,4)] by (simp_all add: assms(7) x)
        have "is_consuming (stage (batches (run h') ! j))"
          using un(1) set_stage_nth [OF assms(4,4)] s(4) by (simp add: assms(7))
        then have "seen head h x \<subseteq> seen head h' x"
          using seen_consuming [of h j head] seen_consuming [of h' j head] assms(5) by (auto simp: x assms(7))
        then show "untaken (batches (run h) ! x) \<and> next_task (batches (run h) ! x) \<le> next_task (batches (run h') ! x) \<and>
            first (batches (run h') ! x) = first (batches (run h) ! x) \<and>
            batch_end (length (log (run h'))) (batches (run h') ! x) = batch_end (length (log (run h))) (batches (run h) ! x) \<and>
            seen head h x \<subseteq> seen head h' x"
          using nth [OF assms(4)] end_same [OF assms(4)] un(2) s(5,6) by (simp add: x assms(7))
      qed (use True in \<open>simp add: assms(7) nth_append\<close>)
    next
      case False
      show ?thesis
        by (rule batch_seen_same [OF old(1) [OF True x]])
          (use nth(3) [OF x False] s(2) True False in \<open>auto simp: assms(7) nth_append\<close>)
    qed
  next
    case False
    then obtain i where i: "i < length cells" "p = length (history h) + i"
      using p by (auto simp: assms(7) not_less dest!: le_Suc_ex)
    obtain n' where n': "n' \<in> {next_task ?b..<m}" "cells ! i = n' mod 2 ^ k" by (rule takes_tasks_cells [OF assms(3,6) i(1)])
    show ?thesis
      unfolding batch_seen_def Let_def
    proof (intro impI ballI)
      fix n
      let ?x = "batches (run h) ! x"
      assume un: "untaken (batches (run h') ! x)"
        and n: "n \<in> {next_task (batches (run h') ! x)..<batch_end (length (log (run h'))) (batches (run h') ! x)}"
        and cell: "snd (history h' ! p) = n mod 2 ^ k"
      have eq: "n mod 2 ^ k = n' mod 2 ^ k" using cell i n'(2) by (simp add: assms(7) nth_append)
      have "n \<in> {first ?x..<batch_end (length (log (run h))) ?x}"
        using n next_task_ge [of "batches s' ! x"] nth(1) [OF x] end_same [OF x] by (simp add: assms(7))
      moreover have "running ?x" using un untaken_running nth(3) [OF x] run by (cases "x = j") (auto simp: assms(7))
      moreover have "n' \<in> {first ?b..<batch_end (length (log (run h))) ?b}" using n'(1) next_task_ge [of ?b] s(7) by simp
      ultimately have same: "n = n'" "x = j" using running_cells_distinct [OF assms(1) x assms(4) _ run _ _ eq] by blast+
      then have "m \<le> n" using n takes_tasks_next(2) [OF assms(3,4)] un by (simp add: assms(7))
      then show "p \<in> seen head h' x" using same(1) n'(1) by simp
    qed
  qed
  moreover have "write_seen k h' p" if p: "p < length (history h')" for p
  proof (cases "p < length (history h)")
    case True
    then show ?thesis using old(2) [OF True assms(4)] s(1,2) by (auto simp: write_seen_def assms(7) nth_append)
  next
    case False
    then obtain i where i: "i < length cells" "p = length (history h) + i"
      using p by (auto simp: assms(7) not_less dest!: le_Suc_ex)
    obtain n' where n': "n' \<in> {next_task ?b..<m}" "cells ! i = n' mod 2 ^ k" by (rule takes_tasks_cells [OF assms(3,6) i(1)])
    have "n' \<in> {first ?b..<batch_end (length (log (run h))) ?b}" using n'(1) next_task_ge [of ?b] s(7) by simp
    then show ?thesis
      using counter_cell_free [OF assms(1) _ assms(4) run] s(1,2) i n'(2) by (auto simp: write_seen_def assms(7) nth_append)
  qed
  ultimately show ?thesis using len by (simp add: order_inv_def assms(7))
qed


text \<open>Steps that make no access and change no batch, or one.\<close>

lemma order_one:
  assumes "order_inv k head h" "history h' = history h" "log (run h') = log (run h)"
    and "length (batches (run h')) = length (batches (run h))"
    and "\<And>x. x < length (batches (run h)) \<Longrightarrow> x \<noteq> j \<Longrightarrow>
      batches (run h') ! x = batches (run h) ! x \<and> held_view h x \<subseteq> held_view h' x"
    and "own_view h \<subseteq> own_view h'" "slot_view h \<subseteq> slot_view h'"
    and "\<And>t. owner (run h') = Written t \<Longrightarrow> owner (run h) = Written t"
    and "j < length (batches (run h)) \<Longrightarrow> untaken (batches (run h') ! j) \<Longrightarrow>
      untaken (batches (run h) ! j) \<and> next_task (batches (run h) ! j) \<le> next_task (batches (run h') ! j) \<and>
      first (batches (run h') ! j) = first (batches (run h) ! j) \<and>
      batch_end (length (log (run h'))) (batches (run h') ! j) = batch_end (length (log (run h))) (batches (run h) ! j) \<and>
      seen head h j \<subseteq> seen head h' j"
  shows "order_inv k head h'"
  unfolding order_inv_def
proof (intro allI impI conjI)
  fix p x
  assume p: "p < length (history h')" and x: "x < length (batches (run h'))"
  then have old: "batch_seen k head h x p" using assms(1,2,4) by (simp add: order_inv_def)
  show "batch_seen k head h' x p"
  proof (cases "x = j")
    case True
    show ?thesis by (rule batch_seen_frame [OF old]) (use assms(2,4,9) x True in simp_all)
  next
    case False
    show ?thesis by (rule batch_seen_same [OF old]) (use assms(2-7) x False in simp_all)
  qed
next
  fix p
  assume "p < length (history h')"
  then have "write_seen k h p" using assms(1,2) by (simp add: order_inv_def)
  then show "write_seen k h' p" using assms(2,3,6,8) by (auto simp: write_seen_def)
qed

lemma order_same:
  assumes "order_inv k head h" "history h' = history h" "log (run h') = log (run h)" "batches (run h') = batches (run h)"
    and "own_view h \<subseteq> own_view h'" "slot_view h' = slot_view h" "held_view h' = held_view h"
    and "\<And>t. owner (run h') = Written t \<Longrightarrow> owner (run h) = Written t"
  shows "order_inv k head h'"
  by (rule order_one [OF assms(1-3), where j = "length (batches (run h))"]) (use assms(4-8) in simp_all)

lemma order_inv_step:
  assumes "traced_step dpush steal ords (2 ^ k) h h'" "reuse_inv k h" "order_inv k head h" "sys_inv k (run h)" "sys_inv k (run h')"
    and "6 \<le> k" "k < 32" "slot_synchronises head ords"
  shows "order_inv k head h'"
proof -
  from assms(1) show ?thesis
  proof (cases rule: traced_step.cases)
    case (traced_check s')
    obtain r q where s: "log s' = log (run h)" "batches s' = batches (run h)"
      "r = Inr () \<and> (\<exists>t. owner s' = Checked t) \<or> (\<exists>w. owner s' = Parking w)"
      using step_checks [OF traced_check(2-4)] by metis
    show ?thesis by (rule order_same [OF assms(3)]) (use s in \<open>auto simp: traced_check(1)\<close>)
  next
    case (traced_park s' w)
    show ?thesis
      by (rule order_same [OF assms(3)]) (use step_parks [OF traced_park(2-4)] in \<open>auto simp: traced_park(1)\<close>)
  next
    case (traced_write s' t cells)
    note s = step_writes [OF traced_write(2-4)]
    obtain op ph where "queue_at k (length (log (run h))) op ph (regions_of k (batches (run h))) (sys_queue (run h))"
      using sys_inv_words [OF assms(4)] by metis
    from write_index_at [OF this assms(7)] show ?thesis
      by (intro order_write [OF assms(4,2,3) traced_write(3) refl s(1-3)])
        (simp add: traced_write(1,5) new_accesses_def)
  next
    case (traced_claim s' t)
    note s = step_claims [OF traced_claim(2-4)]
    have rel: "\<not> head \<Longrightarrow> releases (o_push ords)" using assms(8) by (simp add: slot_synchronises_def)
    show ?thesis
      by (rule order_claim [OF assms(4,3) traced_claim(3) s(1) _ s(3)])
        (use assms(5) rel in \<open>auto simp: traced_claim(1) location_view_releases\<close>)
  next
    case (traced_occupy s' i j ur view)
    note s = step_occupies [OF traced_occupy(2-6)]
    have "seen head h j \<subseteq> seen head h' j"
      using traced_occupy(4-6) by (auto simp: seen_def traced_occupy(1,7))
    then show ?thesis
      using set_stage_nth [OF traced_occupy(4,4), of "Unbounded ur"] traced_occupy(5) s
      by (intro order_one [OF assms(3), where j = j])
        (auto simp: traced_occupy(1,7) set_stage_def untaken_def next_task_def batch_end_def)
  next
    case (traced_bound s' j ur br)
    note s = step_bounds [OF traced_bound(2-5)]
    have ended: "ended (batches (run h) ! j) = None"
      using sys_inv_stage [OF assms(4) nth_mem [OF traced_bound(3)]] by (simp add: stage_ok_def traced_bound(4))
    have acq: "\<not> head \<Longrightarrow> acquires (o_bound ords)" using assms(8) by (simp add: slot_synchronises_def)
    have "seen head h j \<subseteq> seen head h' j"
      using traced_bound(4,5) acq by (auto simp: seen_def traced_bound(1) thread_view_acquires)
    then show ?thesis
      using traced_bound(3,4) s ended
      by (intro order_one [OF assms(3), where j = j])
        (auto simp: traced_bound(1) untaken_def next_task_def batch_end_def)
  next
    case (traced_take s' j cells)
    obtain m st where takes: "takes_tasks k (run h) s' j m st"
      using step_takes [OF traced_take(2) assms(4,7) traced_take(3-6)] by blast
    show ?thesis by (rule order_take [OF assms(4,3) takes traced_take(3,4,7,1)])
  next
    case (traced_release s' j)
    obtain ts where s: "owner s' = owner (run h)" "log s' = log (run h)"
      "batches s' = set_stage j (Released ts) (batches (run h))"
      using step_releases [OF traced_release(2-5)] by metis
    show ?thesis
      by (rule order_one [OF assms(3), where j = j])
        (use s traced_release(3) in \<open>auto simp: traced_release(1) set_stage_def untaken_def\<close>)
  next
    case traced_fail
    show ?thesis by (rule order_same [OF assms(3)]) (simp_all add: traced_fail(1))
  qed
qed

section \<open>Which accesses race\<close>

text \<open>
  Races are takes by a holder, and of other tasks than the first of its batch; without \<open>head\<close>, there are
  none.
\<close>

definition races_inv :: "nat \<Rightarrow> bool \<Rightarrow> ('t, 'd, 'wk) traced \<Rightarrow> bool" where
  "races_inv k head h \<longleftrightarrow> (\<forall>(p, p')\<in>races h. p' < length (history h) \<and>
     (\<exists>j c. history h ! p' = (Holder j, c) \<and> j < length (batches (run h)) \<and> head \<and> c \<noteq> first (batches (run h) ! j) mod 2 ^ k))"

lemma race_frame:
  assumes "races_inv k head h" "races h' = races h" "history h' = history h"
    and "length (batches (run h)) \<le> length (batches (run h'))"
    and "\<And>j. j < length (batches (run h)) \<Longrightarrow> first (batches (run h') ! j) = first (batches (run h) ! j)"
  shows "races_inv k head h'"
  unfolding races_inv_def
proof (clarify, goal_cases)
  case (1 p p')
  then obtain j c where "p' < length (history h)" "history h ! p' = (Holder j, c)" "j < length (batches (run h))" "head"
    "c \<noteq> first (batches (run h) ! j) mod 2 ^ k" using assms(1,2) unfolding races_inv_def by fastforce
  then show ?case using assms(3-5) by fastforce
qed

lemma race_append:
  assumes "races_inv k head h" "history h' = history h @ map (Pair a) cells" "races h' = races h \<union> new_races (history h) view cells"
    and "batches (run h') = bs'" "length bs' = length (batches (run h))"
    and "\<And>j. j < length (batches (run h)) \<Longrightarrow> first (bs' ! j) = first (batches (run h) ! j)"
    and "\<And>p i. p < length (history h) \<Longrightarrow> i < length cells \<Longrightarrow> snd (history h ! p) = cells ! i \<Longrightarrow> p \<notin> view \<Longrightarrow>
      \<exists>j. a = Holder j \<and> j < length (batches (run h)) \<and> head \<and> cells ! i \<noteq> first (batches (run h) ! j) mod 2 ^ k"
  shows "races_inv k head h'"
  unfolding races_inv_def
proof (clarify, goal_cases)
  case (1 p p')
  show ?case
  proof (cases "(p, p') \<in> races h")
    case True
    then obtain j c where "p' < length (history h)" "history h ! p' = (Holder j, c)" "j < length (batches (run h))" "head"
      "c \<noteq> first (batches (run h) ! j) mod 2 ^ k" using assms(1) unfolding races_inv_def by fastforce
    then show ?thesis using assms(2,4-6) by (simp add: nth_append)
  next
    case False
    then obtain i where i: "p' = length (history h) + i" "i < length cells" "p < length (history h)"
      "snd (history h ! p) = cells ! i" "p \<notin> view"
      using 1 assms(3) by (auto simp: new_races_def)
    from assms(7) [OF i(3,2,4,5)] obtain j where "a = Holder j" "j < length (batches (run h))" "head"
      "cells ! i \<noteq> first (batches (run h) ! j) mod 2 ^ k" by blast
    then show ?thesis using i(1,2) assms(2,4-6) by (simp add: nth_append)
  qed
qed

lemma race_take:
  assumes "takes_tasks k (run h) s' j m st" "j < length (batches (run h))" "is_consuming (stage (batches (run h) ! j))"
    and "cells = taken_cells (buffer (inner (sys_queue (run h)))) (buffer (inner (sys_queue s')))"
    and "order_inv k head h" "races_inv k head h" "sys_inv k (run h)"
    and "h' = h\<lparr>run := s', history := history h @ map (Pair (Holder j)) cells,
       races := races h \<union> new_races (history h) (held_view h j) cells,
       held_view := (held_view h)(j := held_view h j \<union> new_accesses (history h) cells)\<rparr>"
  shows "races_inv k head h'"
proof -
  let ?b = "batches (run h) ! j"
  note s = takes_tasksD [OF assms(1)]
  have run: "running ?b" by (rule consuming_ended(3) [OF assms(7) nth_mem [OF assms(2)] assms(3)])
  show ?thesis
  proof (rule race_append [OF assms(6), where a = "Holder j" and cells = cells and view = "held_view h j" and bs' = "batches s'"])
    fix p i
    assume p: "p < length (history h)" "i < length cells" "snd (history h ! p) = cells ! i" "p \<notin> held_view h j"
    obtain n where n: "n \<in> {next_task ?b..<m}" "cells ! i = n mod 2 ^ k" by (rule takes_tasks_cells [OF assms(1,4) p(2)])
    then have range: "n \<in> {next_task ?b..<batch_end (length (log (run h))) ?b}" using s(7) by simp
    have not: "\<not> (head \<longrightarrow> n = first ?b)"
    proof
      assume hd: "head \<longrightarrow> n = first ?b"
      have "batch_seen k head h j p" using assms(2,5) p(1) by (simp add: order_inv_def)
      from batch_seenD [OF this s(5) range hd] p(3,4) n(2) seen_consuming [OF assms(3), of head] show False by simp
    qed
    have "cells ! i \<noteq> first ?b mod 2 ^ k"
    proof
      assume "cells ! i = first ?b mod 2 ^ k"
      then have "n mod 2 ^ k = first ?b mod 2 ^ k" using n(2) by simp
      moreover have "n \<in> {first ?b..<batch_end (length (log (run h))) ?b}" using range next_task_ge [of ?b] by simp
      moreover from this have "first ?b \<in> {first ?b..<batch_end (length (log (run h))) ?b}" by simp
      ultimately have "n = first ?b" using running_cells_distinct(1) [OF assms(7) assms(2,2) run run] by blast
      then show False using not by blast
    qed
    then show "\<exists>x. Holder j = Holder x \<and> x < length (batches (run h)) \<and> head \<and> cells ! i \<noteq> first (batches (run h) ! x) mod 2 ^ k"
      using not assms(2) by blast
  qed (use s set_stage_nth [OF assms(2)] in \<open>simp_all add: assms(8)\<close>)
qed

lemma races_inv_step:
  assumes "traced_step dpush steal ords (2 ^ k) h h'" "reuse_inv k h" "order_inv k head h" "races_inv k head h"
    and "sys_inv k (run h)" "k < 32"
  shows "races_inv k head h'"
  using assms(1)
proof (cases rule: traced_step.cases)
  case (traced_check s')
  obtain r q where s: "batches s' = batches (run h)" "region_check (2 ^ k) (current_write_index (2 ^ k) (sys_queue (run h))) (sys_queue (run h)) = (r, q)"
    using step_checks [OF traced_check(2-4)] by metis
  show ?thesis by (rule race_frame [OF assms(4)]) (use s in \<open>simp_all add: traced_check(1)\<close>)
next
  case (traced_park s' w)
  show ?thesis by (rule race_frame [OF assms(4)]) (use step_parks [OF traced_park(2-4)] in \<open>simp_all add: traced_park(1)\<close>)
next
  case (traced_write s' t cells)
  note s = step_writes [OF traced_write(2-4)]
  obtain op ph where "queue_at k (length (log (run h))) op ph (regions_of k (batches (run h))) (sys_queue (run h))"
    using sys_inv_words [OF assms(5)] by metis
  note i = write_index_at [OF this assms(6)]
  show ?thesis
  proof (rule race_append [OF assms(4), where a = Owner and cells = cells and view = "own_view h" and bs' = "batches s'"])
    fix p i
    assume "p < length (history h)" "i < length cells" "snd (history h ! p) = cells ! i" "p \<notin> own_view h"
    then show "\<exists>j. Owner = Holder j \<and> j < length (batches (run h)) \<and> head \<and> cells ! i \<noteq> first (batches (run h) ! j) mod 2 ^ k"
      using own_write_ordered [OF assms(5,2) refl traced_write(3)] i by (auto simp: traced_write(5))
  qed (use s in \<open>simp_all add: traced_write(1)\<close>)
next
  case (traced_claim s' t)
  show ?thesis
    by (rule race_frame [OF assms(4)]) (use step_claims(3) [OF traced_claim(2-4)] in \<open>auto simp: traced_claim(1) nth_append\<close>)
next
  case (traced_occupy s' i j ur view)
  show ?thesis
    by (rule race_frame [OF assms(4)])
      (use step_occupies(3) [OF traced_occupy(2-6)] set_stage_nth [OF traced_occupy(4)] in \<open>simp_all add: traced_occupy(1)\<close>)
next
  case (traced_bound s' j ur br)
  show ?thesis
    by (rule race_frame [OF assms(4)])
      (use step_bounds(4) [OF traced_bound(2-5)] traced_bound(3) in \<open>simp_all add: traced_bound(1) nth_list_update\<close>)
next
  case (traced_release s' j)
  obtain ts where s: "batches s' = set_stage j (Released ts) (batches (run h))"
    using step_releases [OF traced_release(2-5)] by metis
  show ?thesis
    by (rule race_frame [OF assms(4)])
      (use s set_stage_nth [OF traced_release(3)] in \<open>simp_all add: traced_release(1)\<close>)
next
  case traced_fail
  show ?thesis by (rule race_frame [OF assms(4)]) (simp_all add: traced_fail(1))
next
  case (traced_take s' j cells)
  obtain m st where takes: "takes_tasks k (run h) s' j m st"
    using step_takes [OF traced_take(2) assms(5,6) traced_take(3-6)] by blast
  show ?thesis by (rule race_take [OF takes traced_take(3,4,7) assms(3-5) traced_take(1)])
qed


lemma traced_limited: "traced_reachable dpush steal ords k d h \<Longrightarrow> limited_reachable dpush steal k d (run h)"
proof (induction rule: traced_reachable.induct)
  case (traced_init q)
  then show ?case using limited_reachable.limited_init by (simp add: traced_start_def)
next
  case (traced_next h h')
  then show ?case using limited_reachable.limited_next [OF traced_next.IH traced_run [OF traced_next.hyps(2)]] by simp
qed

lemma limited_traced:
  assumes "limited_reachable dpush steal k d s"
  shows "\<exists>h. traced_reachable dpush steal ords k d h \<and> run h = s"
  using assms
proof (induction rule: limited_reachable.induct)
  case (limited_init q)
  then show ?case using traced_reachable.traced_init by (intro exI [of _ "traced_start q"]) (simp add: traced_start_def)
next
  case (limited_next s s')
  then obtain h where h: "traced_reachable dpush steal ords k d h" "run h = s" by blast
  obtain h' where "traced_step dpush steal ords (2 ^ k) h h'" "run h' = s'"
    using run_traced [of dpush steal "2 ^ k" h s' ords] limited_next.hyps(2) h(2) by blast
  with traced_reachable.traced_next [OF h(1)] limited_next.hyps(3) show ?case by blast
qed

lemma races_reachable:
  assumes "traced_reachable dpush steal ords k d h" "6 \<le> k" "k < 32"
    and "occupancy_synchronises ords" "slot_synchronises head ords"
  shows "reuse_inv k h \<and> order_inv k head h \<and> races_inv k head h"
  using assms(1)
proof (induction rule: traced_reachable.induct)
  case (traced_init q)
  show ?case by (simp add: reuse_inv_def order_inv_def races_inv_def traced_start_def)
next
  case (traced_next h h')
  have inv: "sys_inv k (run h)" "sys_inv k (run h')"
    using sys_inv_limited [OF traced_limited [OF traced_next.hyps(1)] assms(2,3)]
      sys_inv_limited [OF traced_limited [OF traced_reachable.traced_next [OF traced_next.hyps]] assms(2,3)] by simp_all
  show ?case
    using reuse_inv_step [OF traced_next.hyps(2) _ inv assms(2-4)] order_inv_step [OF traced_next.hyps(2) _ _ inv assms(2,3,5)]
      races_inv_step [OF traced_next.hyps(2) _ _ _ inv(1) assms(3)] traced_next.IH by blast
qed

text \<open>
  C4. With the memory orderings of the code, in every interleaving with at most 255 running batches per
  region, the owner never races: whatever was done
  to the cell it writes, by itself or by the holder of an earlier batch that used the cell, happened
  before, although most checks of a region read only the owner's own copy of the occupancy. Nor does a
  holder that takes the first task of its batch.
\<close>

theorem reuse_does_not_race:
  assumes "traced_reachable dpush steal code_orderings k d h" "6 \<le> k" "k < 32"
  shows "\<forall>(p, p')\<in>races h. \<exists>j c. history h ! p' = (Holder j, c) \<and> c \<noteq> first (batches (run h) ! j) mod 2 ^ k"
proof -
  have "occupancy_synchronises code_orderings" "slot_synchronises True code_orderings"
    by (simp_all add: occupancy_synchronises_def slot_synchronises_def code_orderings_def acquires_def releases_def
        check_ordering_def occupy_ordering_def deoccupy_ordering_def)
  from races_reachable [OF assms this] show ?thesis unfolding races_inv_def by fastforce
qed

text \<open>
  If \<open>push\<close> released the slot when it advances it, and bounding a batch acquired it, there would be
  no race at all, in any interleaving.
\<close>

theorem synchronising_slot_race_free:
  assumes "traced_reachable dpush steal ords k d h" "6 \<le> k" "k < 32" "occupancy_synchronises ords"
    and "releases (o_push ords)" "acquires (o_bound ords)"
  shows "races h = {}"
proof -
  have "slot_synchronises False ords" using assms(5,6) by (simp add: slot_synchronises_def)
  from races_reachable [OF assms(1-4) this] show ?thesis unfolding races_inv_def by auto
qed

section \<open>A race\<close>

lemma few_batches: "length (batches s) < 256 \<Longrightarrow> within_limits k s"
proof -
  have "count (regions_of k bs) r \<le> length bs" for r and bs :: "'a batch list"
  proof -
    have "size (regions_of k bs) = length (filter occupying bs)" by (simp only: regions_of_def size_mset length_map)
    then show ?thesis using count_le_size [of "regions_of k bs" r] length_filter_le [of occupying bs] by linarith
  qed
  then show "length (batches s) < 256 \<Longrightarrow> within_limits k s"
    unfolding within_limits_def by (meson le_less_trans)
qed

text \<open>The first steps of a push that is not refused, traced: the check and the write.\<close>

lemma traced_stores:
  fixes h :: "('t, 'd, 'wk) traced"
  assumes "traced_reachable dpush steal ords k d h" "6 \<le> k" "k < 32" "owner (run h) = Idle" "length (batches (run h)) < 255"
    and "\<not> (2 ^ (k - 3) dvd length (log (run h)) \<and> region k (length (log (run h))) \<in># regions_of k (batches (run h)))"
  obtains h2 base prev q2 q3 f where "traced_reachable dpush steal ords k d h2"
    "run h2 = (run h)\<lparr>sys_queue := q2, owner := Written t, failed := f\<rparr>"
    "current_write_index (2 ^ k) q2 = current_write_index (2 ^ k) (sys_queue (run h))" "claim_slot q2 = (base, prev, q3)"
    "(base XOR prev) AND PHASE = 0 \<longleftrightarrow> (\<exists>b\<in>set (batches (run h)). ended b = None)"
    "history h2 = history h @ [(Owner, length (log (run h)) mod 2 ^ k)]"
    "slot_view h2 = slot_view h" "occ_view h2 = occ_view h" "held_view h2 = held_view h"
    "own_view h2 \<subseteq> own_view h \<union> occ_view h \<union> {length (history h)}"
proof -
  let ?N = "2 ^ k :: 64 word" and ?s = "run h"
  let ?c = "length (log ?s)" and ?i = "current_write_index ?N (sys_queue ?s)"
  have inv: "sys_inv k ?s" by (rule sys_inv_limited [OF traced_limited [OF assms(1)] assms(2,3)])
  obtain op ph B where q: "queue_at k ?c op ph (regions_of k (batches ?s)) (sys_queue ?s)"
      "ph = op \<longleftrightarrow> (\<exists>b\<in>set (batches ?s). ended b = None)"
    using sys_inv_words [OF inv] by metis
  obtain r q1 where check: "region_check ?N ?i (sys_queue ?s) = (r, q1)" by fastforce
  have "words_ok k ?c (batches ?s) (sys_queue ?s)" using inv by (simp add: sys_inv_def)
  from words_check [OF this assms(2,3) check] assms(6) have r: "r = Inr ()" and q1: "inner q1 = inner (sys_queue ?s)"
    by (auto split: sum.splits)
  note ok = check [unfolded r]
  have own: "own_slot q1 = own_slot (sys_queue ?s)" using region_check_frame [OF ok] by simp
  have i: "current_write_index ?N q1 = ?i" "unat ?i = ?c mod 2 ^ k"
    using own write_index_at [OF q(1) assms(3)] by (simp_all add: current_write_index_eq)
  define s1 where "s1 = ?s\<lparr>sys_queue := q1, owner := Checked t\<rparr>"
  have step1: "sys_step dpush steal ?N ?s s1" unfolding s1_def by (rule sys_step.check_free [OF assms(4) ok])
  obtain h1 where h1: "traced_step dpush steal ords ?N h h1" "run h1 = s1" "history h1 = history h" "slot_view h1 = slot_view h"
    "occ_view h1 = occ_view h" "held_view h1 = held_view h" "own_view h1 \<subseteq> own_view h \<union> occ_view h"
  proof (rule that)
    show "traced_step dpush steal ords ?N h (h\<lparr>run := s1, own_view := if check_loads ?N (sys_queue (run h))
        then thread_view (o_check ords) (own_view h) (occ_view h) else own_view h\<rparr>)"
      by (rule traced_check [OF step1 assms(4)]) (simp add: s1_def)
  qed (auto simp: thread_view_def)
  let ?q2 = "set_inner q1 ((inner q1)\<lparr>buffer := (buffer (inner q1))[unat ?i := Some t]\<rparr>)"
  define s2 where "s2 = s1\<lparr>sys_queue := ?q2, owner := Written t, failed := failed s1 \<or> length (buffer (inner q1)) \<le> unat ?i\<rparr>"
  have step2: "sys_step dpush steal ?N s1 s2"
    using sys_step.write_cell [of s1 t "unat ?i" ?N dpush steal] i by (simp add: s1_def s2_def)
  obtain h2 where h2: "traced_step dpush steal ords ?N h1 h2" "run h2 = s2" "history h2 = history h @ [(Owner, ?c mod 2 ^ k)]"
    "slot_view h2 = slot_view h" "occ_view h2 = occ_view h" "held_view h2 = held_view h"
    "own_view h2 \<subseteq> own_view h \<union> occ_view h \<union> {length (history h)}"
  proof (rule that)
    show "traced_step dpush steal ords ?N h1 (h1\<lparr>run := s2, history := history h1 @ map (Pair Owner) [?c mod 2 ^ k],
        races := races h1 \<union> new_races (history h1) (own_view h1) [?c mod 2 ^ k],
        own_view := own_view h1 \<union> new_accesses (history h1) [?c mod 2 ^ k]\<rparr>)"
      by (rule traced_write [OF step2 [folded h1(2)]]) (simp_all add: h1(2) s1_def s2_def i)
  qed (use h1(3-7) in \<open>auto simp: new_accesses_def\<close>)
  obtain base prev q3 where claim: "claim_slot ?q2 = (base, prev, q3)" by (metis prod_cases3)
  have i2: "current_write_index ?N ?q2 = ?i" using i by (simp add: current_write_index_eq set_inner_def)
  have "queue_at k ?c op ph (regions_of k (batches ?s)) ?q2"
    using q(1) own q1 by (simp add: queue_at_def set_inner_def)
  from claim_at(2) [OF this claim] have same: "(base XOR prev) AND PHASE = 0 \<longleftrightarrow> (\<exists>b\<in>set (batches ?s). ended b = None)"
    using q(2) by simp
  have reach2: "traced_reachable dpush steal ords k d h2"
    using traced_next [OF traced_next [OF assms(1) h1(1) few_batches] h2(1) few_batches] assms(5) h1(2) h2(2)
    by (simp add: s1_def s2_def)
  show ?thesis
    by (rule that [OF reach2 _ i2 claim same h2(3-7)]) (simp add: h2(2) s1_def s2_def)
qed

text \<open>One push that is not refused, traced.\<close>

lemma traced_push:
  fixes h :: "('t, 'd, 'wk) traced"
  assumes "traced_reachable dpush steal ords k d h" "6 \<le> k" "k < 32" "owner (run h) = Idle" "length (batches (run h)) < 255"
    and "\<not> (2 ^ (k - 3) dvd length (log (run h)) \<and> region k (length (log (run h))) \<in># regions_of k (batches (run h)))"
  obtains h' where "traced_reachable dpush steal ords k d h'" "owner (run h') = Idle" "log (run h') = log (run h) @ [t]"
    "history h' = history h @ [(Owner, length (log (run h)) mod 2 ^ k)]"
    "\<not> releases (o_push ords) \<longrightarrow> slot_view h' = slot_view h"
    "(\<exists>b\<in>set (batches (run h)). ended b = None) \<Longrightarrow> batches (run h') = batches (run h) \<and> held_view h' = held_view h"
    "\<not> (\<exists>b\<in>set (batches (run h)). ended b = None) \<Longrightarrow>
      (\<exists>ur. batches (run h') = batches (run h) @ [\<lparr>first = length (log (run h)), ended = None, stage = Unbounded ur\<rparr>]) \<and>
      held_view h' (length (batches (run h))) \<subseteq> own_view h \<union> slot_view h \<union> occ_view h \<union> {length (history h)}"
proof -
  let ?N = "2 ^ k :: 64 word" and ?s = "run h"
  let ?c = "length (log ?s)" and ?i = "current_write_index ?N (sys_queue ?s)"
  obtain h2 base prev q2 q3 f where reach2: "traced_reachable dpush steal ords k d h2"
    and run2: "run h2 = ?s\<lparr>sys_queue := q2, owner := Written t, failed := f\<rparr>"
    and i2: "current_write_index ?N q2 = ?i" and claim: "claim_slot q2 = (base, prev, q3)"
    and same: "(base XOR prev) AND PHASE = 0 \<longleftrightarrow> (\<exists>b\<in>set (batches ?s). ended b = None)"
    and h2: "history h2 = history h @ [(Owner, ?c mod 2 ^ k)]" "slot_view h2 = slot_view h" "occ_view h2 = occ_view h"
      "held_view h2 = held_view h" "own_view h2 \<subseteq> own_view h \<union> occ_view h \<union> {length (history h)}"
    by (rule traced_stores [OF assms, of t])
  define s2 where "s2 = run h2"
  have s2: "s2 = ?s\<lparr>sys_queue := q2, owner := Written t, failed := f\<rparr>" by (simp add: s2_def run2)
  show ?thesis
  proof (cases "\<exists>b\<in>set (batches ?s). ended b = None")
    case True
    define s3 where "s3 = s2\<lparr>sys_queue := q3, owner := Idle, log := log ?s @ [t]\<rparr>"
    have step3: "sys_step dpush steal ?N s2 s3"
      using sys_step.claim_joins [of s2 t base prev q3 dpush steal ?N] claim same True by (simp add: s2 s3_def)
    obtain h3 where h3: "traced_step dpush steal ords ?N h2 h3" "run h3 = s3" "history h3 = history h2"
      "held_view h3 = held_view h2" "slot_view h3 = location_view (o_push ords) (own_view h2) (slot_view h2)"
    proof (rule that)
      show "traced_step dpush steal ords ?N h2 (h2\<lparr>run := s3, own_view := thread_view (o_push ords) (own_view h2) (slot_view h2),
          slot_view := location_view (o_push ords) (own_view h2) (slot_view h2)\<rparr>)"
        by (rule traced_claim [OF step3 [unfolded s2_def], of t]) (simp_all add: run2 s2 s3_def)
    qed simp_all
    have reach: "traced_reachable dpush steal ords k d h3"
      using traced_next [OF reach2 h3(1) few_batches] assms(5) h3(2) by (simp add: s2 s3_def)
    show ?thesis
      by (rule that [OF reach]) (use h2 h3(2-5) True in \<open>simp_all add: s2 s3_def location_view_def\<close>)
  next
    case False
    let ?ur = "\<lparr>ur_base_slot = base\<rparr>"
    let ?b = "\<lparr>first = ?c, ended = None, stage = Claimed ?ur\<rparr>"
    define s3 where "s3 = s2\<lparr>sys_queue := q3, owner := Occupying ?i, log := log ?s @ [t], batches := batches ?s @ [?b]\<rparr>"
    have step3: "sys_step dpush steal ?N s2 s3"
      using sys_step.claim_opens [of s2 t base prev q3 dpush steal ?N] claim same False i2 by (simp add: s2 s3_def)
    obtain h3 where h3: "traced_step dpush steal ords ?N h2 h3" "run h3 = s3" "history h3 = history h2"
      "held_view h3 = held_view h2" "slot_view h3 = location_view (o_push ords) (own_view h2) (slot_view h2)"
      "own_view h3 \<subseteq> own_view h2 \<union> slot_view h2" "occ_view h3 = occ_view h2"
    proof (rule that)
      show "traced_step dpush steal ords ?N h2 (h2\<lparr>run := s3, own_view := thread_view (o_push ords) (own_view h2) (slot_view h2),
          slot_view := location_view (o_push ords) (own_view h2) (slot_view h2)\<rparr>)"
        by (rule traced_claim [OF step3 [unfolded s2_def], of t]) (simp_all add: run2 s2 s3_def)
    qed (auto simp: thread_view_def)
    define s4 where "s4 = s3\<lparr>sys_queue := occupy_region ?N ?i q3, owner := Idle,
      batches := set_stage (length (batches ?s)) (Unbounded ?ur) (batches ?s @ [?b])\<rparr>"
    have step4: "sys_step dpush steal ?N s3 s4"
      using sys_step.occupy [of s3 ?i "length (batches ?s)" ?ur dpush steal ?N] by (simp add: s3_def s4_def)
    obtain h4 where h4: "traced_step dpush steal ords ?N h3 h4" "run h4 = s4" "history h4 = history h3"
      "slot_view h4 = slot_view h3"
      "held_view h4 (length (batches ?s)) \<subseteq> own_view h3 \<union> occ_view h3"
    proof (rule that)
      show "traced_step dpush steal ords ?N h3 (h3\<lparr>run := s4, own_view := thread_view (o_occupy ords) (own_view h3) (occ_view h3),
          held_view := (held_view h3)(length (batches ?s) := thread_view (o_occupy ords) (own_view h3) (occ_view h3)),
          occ_view := location_view (o_occupy ords) (own_view h3) (occ_view h3)\<rparr>)"
        by (rule traced_occupy [OF step4 [folded h3(2)], of ?i _ ?ur]) (simp_all add: h3(2) s3_def s4_def)
    qed (auto simp: thread_view_def)
    have reach: "traced_reachable dpush steal ords k d h4"
      using traced_next [OF traced_next [OF reach2 h3(1) few_batches] h4(1) few_batches] assms(5) h3(2) h4(2)
      by (simp add: s3_def s4_def)
    have view: "held_view h4 (length (batches ?s)) \<subseteq> own_view h \<union> slot_view h \<union> occ_view h \<union> {length (history h)}"
      using h4(5) h3(6,7) h2(2,3,5) by blast
    show ?thesis
      by (rule that [OF reach])
        (use h2 h3(3,5) h4(2-4) False view in \<open>simp_all add: s2 s3_def s4_def location_view_def set_stage_def\<close>)
  qed
qed


text \<open>The cells that \<open>to_vec\<close> reads when the batch has the first tasks of the buffer.\<close>

lemma filter_below: "m \<le> n \<Longrightarrow> filter (\<lambda>i. i < m) [0..<n] = [0..<m]"
  by (induction n) (auto simp: le_Suc_eq)

lemma taken_first:
  assumes "m \<le> n" "length buf = n" "\<forall>i<m. buf ! i \<noteq> None"
  shows "taken_cells buf (clear_window n 0 m buf) = [0..<m]"
proof -
  have "(buf ! i \<noteq> None \<and> clear_window n 0 m buf ! i = None) \<longleftrightarrow> i < m" if "i < n" for i
  proof -
    have "(\<exists>x\<in>{0..<m}. x mod n = i) \<longleftrightarrow> i < m" using assms(1) that by (auto intro: bexI [of _ i])
    then show ?thesis using assms(2,3) that by (auto simp: nth_clear_window)
  qed
  then have "filter (\<lambda>i. buf ! i \<noteq> None \<and> clear_window n 0 m buf ! i = None) [0..<n] = filter (\<lambda>i. i < m) [0..<n]"
    by (intro filter_cong) auto
  then show ?thesis using assms(1,2) by (simp add: taken_cells_def filter_below)
qed

text \<open>Two tasks pushed to a new queue: the handle of their batch was given away after the first one.\<close>

lemma traced_two:
  assumes "6 \<le> k" "k < 32"
  obtains h :: "('t, 'wk list, 'wk) traced" and ur
  where "traced_reachable list_push list_steal ords k [] h" "owner (run h) = Idle" "length (log (run h)) = 2"
    "history h = [(Owner, 0), (Owner, 1)]" "\<not> releases (o_push ords) \<longrightarrow> slot_view h = {}"
    "batches (run h) = [\<lparr>first = 0, ended = None, stage = Unbounded ur\<rparr>]" "held_view h 0 \<subseteq> {0}"
proof -
  let ?N = "2 ^ k :: 64 word"
  obtain q :: "(64 word, 't buffer_cell, 'wk list) stack_queue" where q: "stack_queue_default None ?N [] = Some q"
    using default_queue_at [OF assms(1,2), of None "[]"] by auto
  let ?h0 = "traced_start q :: ('t, 'wk list, 'wk) traced"
  have r0: "traced_reachable list_push list_steal ords k [] ?h0" by (rule traced_init [OF q])
  obtain h1 :: "('t, 'wk list, 'wk) traced" and ur where h1: "traced_reachable list_push list_steal ords k [] h1" "owner (run h1) = Idle" "length (log (run h1)) = 1"
    "history h1 = [(Owner, 0)]" "\<not> releases (o_push ords) \<longrightarrow> slot_view h1 = {}"
    "batches (run h1) = [\<lparr>first = 0, ended = None, stage = Unbounded ur\<rparr>]" "held_view h1 0 \<subseteq> {0}"
  proof (rule traced_push [OF r0 assms(1,2), of undefined], goal_cases)
    case (4 h')
    then obtain ur where ur: "batches (run h') = [\<lparr>first = 0, ended = None, stage = Unbounded ur\<rparr>]"
      "held_view h' 0 \<subseteq> {0}" by (auto simp: traced_start_def sys_start_def)
    show ?case
      by (rule 4(1) [OF 4(2,3) _ _ _ ur]) (use 4(4-6) in \<open>simp_all add: traced_start_def sys_start_def\<close>)
  qed (simp_all add: traced_start_def sys_start_def regions_of_def)
  have off: "\<not> (2::nat) ^ (k - 3) dvd 1" using assms(1) by simp
  obtain h2 :: "('t, 'wk list, 'wk) traced" where h2: "traced_reachable list_push list_steal ords k [] h2" "owner (run h2) = Idle" "length (log (run h2)) = 2"
    "history h2 = [(Owner, 0), (Owner, 1)]" "\<not> releases (o_push ords) \<longrightarrow> slot_view h2 = {}"
    "batches (run h2) = [\<lparr>first = 0, ended = None, stage = Unbounded ur\<rparr>]" "held_view h2 0 \<subseteq> {0}"
  proof (rule traced_push [OF h1(1) assms(1,2) h1(2), of undefined], goal_cases)
    case (3 h')
    then have same: "batches (run h') = batches (run h1) \<and> held_view h' = held_view h1" by (simp add: h1(6))
    have k: "1 mod 2 ^ k = (1::nat)" using one_less_power [of "2::nat" k] assms(1) by simp
    show ?case
      by (rule 3(1) [OF 3(2,3)]) (use 3(4-6) same h1(3-7) k in simp_all)
  qed (use h1(3,6) off in simp_all)
  show ?thesis by (rule that [OF h2])
qed

text \<open>
  C32. The code does neither: it advances the slot, and bounds batches, with relaxed orderings. Unless both
  synchronise, the following can happen: a task opens a batch, whose handle is given to another thread; a
  second task joins the batch; and when the other thread bounds the batch and takes its tasks, nothing
  orders its read of the second one after the owner's write of it.
\<close>

theorem joined_task_races:
  assumes "6 \<le> k" "k < 32" "\<not> (releases (o_push ords) \<and> acquires (o_bound ords))"
  shows "\<exists>h :: ('t, 'wk list, 'wk) traced. traced_reachable list_push list_steal ords k [] h \<and>
    history h = [(Owner, 0), (Owner, 1), (Holder 0, 0), (Holder 0, 1)] \<and> (1, 3) \<in> races h"
proof -
  let ?N = "2 ^ k :: 64 word"
  obtain h2 :: "('t, 'wk list, 'wk) traced" and ur where h2: "traced_reachable list_push list_steal ords k [] h2"
    "owner (run h2) = Idle" "length (log (run h2)) = 2" "history h2 = [(Owner, 0), (Owner, 1)]"
    "\<not> releases (o_push ords) \<longrightarrow> slot_view h2 = {}"
    "batches (run h2) = [\<lparr>first = 0, ended = None, stage = Unbounded ur\<rparr>]" "held_view h2 0 \<subseteq> {0}"
    by (rule traced_two [OF assms(1,2), where 't = 't and 'wk = 'wk and ords = ords]) blast
  obtain br s3' where bound: "into_bounded ur (inner (sys_queue (run h2))) = (br, s3')" by fastforce
  let ?b3 = "\<lparr>first = 0, ended = Some 2, stage = Bounded br\<rparr>"
  define s3 where "s3 = (run h2)\<lparr>sys_queue := set_inner (sys_queue (run h2)) s3', batches := [?b3]\<rparr>"
  have step3: "sys_step list_push list_steal ?N (run h2) s3"
    using sys_step.bound [of 0 "run h2" ur br s3' list_push list_steal ?N] bound h2(3,6) by (simp add: s3_def)
  define h3 where "h3 = h2\<lparr>run := s3, held_view := (held_view h2)(0 := thread_view (o_bound ords) (held_view h2 0) (slot_view h2)),
       slot_view := location_view (o_bound ords) (held_view h2 0) (slot_view h2)\<rparr>"
  have t3: "traced_step list_push list_steal ords ?N h2 h3"
    unfolding h3_def by (rule traced_bound [OF step3, of 0 ur br]) (simp_all add: h2(6) s3_def)
  have r3: "traced_reachable list_push list_steal ords k [] h3"
    by (rule traced_next [OF h2(1) t3 few_batches]) (simp add: h3_def s3_def)
  have view: "1 \<notin> held_view h3 0" using h2(5,7) assms(3) by (auto simp: h3_def thread_view_def)
  have inv: "sys_inv k s3" using sys_inv_limited [OF traced_limited [OF r3] assms(1,2)] by (simp add: h3_def)
  let ?buf = "buffer (inner (sys_queue s3))"
  have b3: "?b3 \<in> set (batches s3)" by (simp add: s3_def)
  note w = bounded_window [OF inv b3, of 2]
  have len: "length ?buf = 2 ^ k" using w(4) by (simp add: untaken_def)
  have "(2::nat) \<le> 2 ^ k" using power_increasing [of 1 k "2::nat"] assms(1) by simp
  moreover have "\<forall>i<2. ?buf ! i \<noteq> None"
  proof (intro allI impI)
    fix i :: nat
    assume "i < 2"
    then show "?buf ! i \<noteq> None" using w(5) \<open>2 \<le> 2 ^ k\<close> by (simp add: untaken_def next_task_def window_live_def)
  qed
  ultimately have cells: "taken_cells ?buf (clear_window (2 ^ k) 0 2 ?buf) = [0, 1]"
    using taken_first [OF _ len] by (simp add: upt_rec)
  let ?buf' = "clear_window (2 ^ k) 0 2 ?buf" and ?ts = "map ((!) (log s3)) [0..<2]"
  have copy: "copy_out ?N br ?buf = Inr (?ts, ?buf')" using bounded_takes [OF inv assms(2) b3] by simp
  define s4 where "s4 = s3\<lparr>sys_queue := set_inner (sys_queue s3) ((inner (sys_queue s3))\<lparr>buffer := ?buf'\<rparr>),
    batches := set_stage 0 (Consumed br ?ts) (batches s3)\<rparr>"
  have b3': "0 < length (batches s3)" "stage (batches s3 ! 0) = Bounded br" by (simp_all add: s3_def)
  have step4: "sys_step list_push list_steal ?N s3 s4" unfolding s4_def by (rule sys_step.take_tasks [OF b3' copy])
  define h4 where "h4 = h3\<lparr>run := s4, history := history h3 @ map (Pair (Holder 0)) [0, 1],
       races := races h3 \<union> new_races (history h3) (held_view h3 0) [0, 1],
       held_view := (held_view h3)(0 := held_view h3 0 \<union> new_accesses (history h3) [0, 1])\<rparr>"
  have run3: "run h3 = s3" by (simp add: h3_def)
  have t4: "traced_step list_push list_steal ords ?N h3 h4"
    unfolding h4_def
    by (rule traced_take [OF step4 [folded run3]])
      (use b3' in \<open>simp_all add: run3 s4_def is_consuming_def is_released_def set_inner_def cells\<close>)
  have "traced_reachable list_push list_steal ords k [] h4"
    by (rule traced_next [OF r3 t4 few_batches]) (simp add: h4_def s4_def s3_def)
  moreover have "history h4 = [(Owner, 0), (Owner, 1), (Holder 0, 0), (Holder 0, 1)]"
    by (simp add: h4_def h3_def h2(4))
  moreover have "(1, 3) \<in> races h4"
    using view by (simp add: h4_def new_races_def) (simp add: h3_def h2(4))
  ultimately show ?thesis by blast
qed


section \<open>Witnesses\<close>

theorem joined_task_races_witness:
  "\<exists>h :: (nat, string list, string) traced. traced_reachable list_push list_steal code_orderings 6 [] h \<and>
    (1, 3) \<in> races h"
proof -
  have "\<not> (releases (o_push code_orderings) \<and> acquires (o_bound code_orderings))"
    by (simp add: code_orderings_def push_ordering_def releases_def)
  moreover have "6 \<le> (6::nat)" "(6::nat) < 32" by simp_all
  ultimately show ?thesis using joined_task_races [of 6 code_orderings, where 't = nat and 'wk = string] by blast
qed

text \<open>A run in which three tasks were pushed.\<close>

lemma traced_three:
  "\<exists>h :: (nat, string list, string) traced. traced_reachable list_push list_steal ords 6 [] h \<and> length (log (run h)) = 3"
proof -
  obtain s :: "(nat, string list, string) system" where s: "sys_reachable list_push list_steal (2 ^ 6) [] s"
    "length (log s) = 3" using three_reachable by blast
  from limited_traced [OF limited_if_small [OF s(1)]] s(2) show ?thesis by fastforce
qed

theorem reuse_does_not_race_witness:
  "\<exists>h :: (nat, string list, string) traced. length (log (run h)) = 3 \<and>
    (\<forall>(p, p')\<in>races h. \<exists>j c. history h ! p' = (Holder j, c))"
proof -
  obtain h :: "(nat, string list, string) traced" where h: "traced_reachable list_push list_steal code_orderings 6 [] h"
    "length (log (run h)) = 3" using traced_three by blast
  from reuse_does_not_race [OF h(1)] h(2) show ?thesis by (intro exI [of _ h]) fastforce
qed

theorem synchronising_slot_race_free_witness:
  "\<exists>h :: (nat, string list, string) traced. length (log (run h)) = 3 \<and> races h = {}"
proof -
  let ?ords = "code_orderings\<lparr>o_push := Release, o_bound := Acquire\<rparr>"
  obtain h :: "(nat, string list, string) traced" where h: "traced_reachable list_push list_steal ?ords 6 [] h"
    "length (log (run h)) = 3" using traced_three by blast
  have "occupancy_synchronises ?ords" "releases (o_push ?ords)" "acquires (o_bound ?ords)"
    by (simp_all add: occupancy_synchronises_def code_orderings_def acquires_def releases_def
        check_ordering_def occupy_ordering_def deoccupy_ordering_def)
  from synchronising_slot_race_free [OF h(1) _ _ this] h(2) show ?thesis by auto
qed

end
