(* ===== verification/FlagViews.thy ===== *)
theory FlagViews
  imports Views Negotiation
begin

unbundle bit_operations_syntax

text \<open>
  The receiver of a \<open>BatchedTask\<close> is memory that two threads access: the resolver writes the value and reads
  the waker, and the owner reads the value and frees the memory. To the race of \<open>Negotiation\<close> this theory adds the
  views of both threads, with the memory orderings of the operations on the flags, as \<open>Views\<close> does for the
  cells, and finds the accesses that race.
\<close>

section \<open>Orderings and accesses\<close>

text \<open>
  The orderings of \<open>fetch_or\<close> and \<open>fetch_xor\<close> in \<open>resolve_unchecked\<close>, and of \<open>fetch_or\<close> and \<open>load\<close> in the
  destructor of \<open>BatchedTask\<close>.
\<close>

definition setting_ordering :: ordering where "setting_ordering = Release"

definition value_set_ordering :: ordering where "value_set_ordering = Release"

definition rx_dropped_ordering :: ordering where "rx_dropped_ordering = AcqRel"

definition spin_ordering :: ordering where "spin_ordering = Acquire"

record flag_orderings =
  o_setting :: ordering
  o_value_set :: ordering
  o_rx_dropped :: ordering
  o_spin :: ordering

definition code_flag_orderings :: flag_orderings where
  "code_flag_orderings = \<lparr>o_setting = setting_ordering, o_value_set = value_set_ordering,
     o_rx_dropped = rx_dropped_ordering, o_spin = spin_ordering\<rparr>"

datatype side = ResolverSide | OwnerSide

text \<open>
  The accesses to the receiver in the order they are made; which of them race; the views of the
  resolver and of the owner; what was released to the state word and to the waker; and whether a spinning
  destructor has loaded the word again after the cell was reused, when it is that of a later task.
\<close>

record 'v flagged =
  negotiation :: "'v race"
  rx_history :: "side list"
  rx_races :: "(nat \<times> nat) set"
  resolver_view :: "nat set"
  owner_view :: "nat set"
  word_view :: "nat set"
  waker_view :: "nat set"
  reread :: bool


text \<open>An access of one side races with all accesses of the other that are not in its view.\<close>

definition add_access :: "side \<Rightarrow> nat set \<Rightarrow> 'v flagged \<Rightarrow> 'v flagged" where
  "add_access a view h = h\<lparr>rx_history := rx_history h @ [a],
     rx_races := rx_races h \<union> {(p, length (rx_history h)) | p. p < length (rx_history h) \<and> rx_history h ! p \<noteq> a \<and> p \<notin> view}\<rparr>"

text \<open>
  The steps of the race with what they do to the views. To wake a task happens before the poll that
  follows, which is what executors promise; the waker is read before it wakes. The reset of the state
  word, when the cell is reused, is a plain write: it releases nothing and ends the release sequence.
\<close>

inductive flagged_step :: "bool \<Rightarrow> flag_orderings \<Rightarrow> 'v flagged \<Rightarrow> 'v flagged \<Rightarrow> bool"
  for drops :: bool and ords :: flag_orderings where
  flagged_begin:
    "race_step drops (negotiation h) s' \<Longrightarrow> rpc (negotiation h) = RBegin v \<Longrightarrow> rpc s' = RLoaded state v \<Longrightarrow>
     flagged_step drops ords h (h\<lparr>negotiation := s',
       resolver_view := thread_view (o_setting ords) (resolver_view h) (word_view h),
       word_view := location_view (o_setting ords) (resolver_view h) (word_view h)\<rparr>)"
| flagged_write:
    "race_step drops (negotiation h) s' \<Longrightarrow> rpc (negotiation h) = RLoaded state v \<Longrightarrow> rpc s' = RWrote \<Longrightarrow>
     flagged_step drops ords h ((add_access ResolverSide (resolver_view h) h)\<lparr>negotiation := s',
       resolver_view := insert (length (rx_history h)) (resolver_view h)\<rparr>)"
| flagged_discard:
    "race_step drops (negotiation h) s' \<Longrightarrow> rpc (negotiation h) = RLoaded state v \<Longrightarrow> rpc s' = RDone \<Longrightarrow>
     flagged_step drops ords h (h\<lparr>negotiation := s'\<rparr>)"
| flagged_wake:
    "race_step drops (negotiation h) s' \<Longrightarrow> rpc (negotiation h) = RWrote \<Longrightarrow> rpc s' = RWoke \<Longrightarrow>
     view = insert (length (rx_history h)) (resolver_view h) \<Longrightarrow>
     flagged_step drops ords h ((add_access ResolverSide (resolver_view h) h)\<lparr>negotiation := s',
       resolver_view := view, waker_view := waker_view h \<union> view\<rparr>)"
| flagged_finish:
    "race_step drops (negotiation h) s' \<Longrightarrow> rpc (negotiation h) = RWoke \<Longrightarrow> rpc s' = RDone \<Longrightarrow>
     flagged_step drops ords h (h\<lparr>negotiation := s',
       resolver_view := thread_view (o_value_set ords) (resolver_view h) (word_view h),
       word_view := location_view (o_value_set ords) (resolver_view h) (word_view h)\<rparr>)"
| flagged_poll:
    "race_step drops (negotiation h) s' \<Longrightarrow> opc (negotiation h) = OBatched \<Longrightarrow> opc s' = OReceived \<Longrightarrow>
     view = owner_view h \<union> waker_view h \<Longrightarrow>
     flagged_step drops ords h ((add_access OwnerSide view h)\<lparr>negotiation := s', owner_view := insert (length (rx_history h)) view\<rparr>)"
| flagged_begin_drop:
    "race_step drops (negotiation h) s' \<Longrightarrow> opc (negotiation h) = OBatched \<Longrightarrow> opc s' = OSpin state \<Longrightarrow>
     flagged_step drops ords h (h\<lparr>negotiation := s',
       owner_view := thread_view (o_rx_dropped ords) (owner_view h) (word_view h),
       word_view := location_view (o_rx_dropped ords) (owner_view h) (word_view h)\<rparr>)"
| flagged_spin:
    "race_step drops (negotiation h) s' \<Longrightarrow> opc (negotiation h) = OSpin state \<Longrightarrow> state AND SETTING_VALUE = SETTING_VALUE \<Longrightarrow>
     s' = (negotiation h)\<lparr>opc := OSpin (state_word (negotiation h))\<rparr> \<Longrightarrow>
     flagged_step drops ords h (h\<lparr>negotiation := s',
       owner_view := thread_view (o_spin ords) (owner_view h) (word_view h), reread := reread h \<or> reused (negotiation h)\<rparr>)"
| flagged_free:
    "race_step drops (negotiation h) s' \<Longrightarrow> opc (negotiation h) = OSpin state \<Longrightarrow> opc s' = ODropped \<Longrightarrow>
     flagged_step drops ords h ((add_access OwnerSide (owner_view h) h)\<lparr>negotiation := s',
       owner_view := insert (length (rx_history h)) (owner_view h)\<rparr>)"
| flagged_drop_task:
    "race_step drops (negotiation h) s' \<Longrightarrow> rpc (negotiation h) = RBegin v \<Longrightarrow> rpc s' = RDropped \<Longrightarrow>
     flagged_step drops ords h (h\<lparr>negotiation := s'\<rparr>)"
| flagged_reuse:
    "race_step drops (negotiation h) s' \<Longrightarrow> through (rpc (negotiation h)) \<Longrightarrow>
     s' = (negotiation h)\<lparr>reused := True, state_word := w\<rparr> \<Longrightarrow>
     flagged_step drops ords h (h\<lparr>negotiation := s', word_view := {}\<rparr>)"

definition flagged_start :: "'v \<Rightarrow> 'v flagged" where
  "flagged_start v = \<lparr>negotiation = race_start v, rx_history = [], rx_races = {}, resolver_view = {}, owner_view = {},
     word_view = {}, waker_view = {}, reread = False\<rparr>"

inductive flagged_reachable :: "bool \<Rightarrow> flag_orderings \<Rightarrow> 'v \<Rightarrow> 'v flagged \<Rightarrow> bool"
  for drops :: bool and ords :: flag_orderings and v :: 'v where
  flagged_init: "flagged_reachable drops ords v (flagged_start v)"
| flagged_next: "flagged_reachable drops ords v h \<Longrightarrow> flagged_step drops ords h h' \<Longrightarrow> flagged_reachable drops ords v h'"

section \<open>The runs are those of the race\<close>


lemma race_flagged:
  fixes h :: "'v flagged"
  assumes "race_step drops (negotiation h) s'"
  shows "\<exists>h'. flagged_step drops ords h h' \<and> negotiation h' = s'"
proof -
  have step: "\<exists>h'. flagged_step drops ords h h' \<and> negotiation h' = s'"
    if "flagged_step drops ords h h'" "negotiation h' = s'" for h' :: "'v flagged" using that by blast
  from assms show ?thesis
  proof (cases rule: race_step.cases)
    case (begin_setting v)
    then show ?thesis using step [OF flagged_begin [OF assms]] by simp
  next
    case (write_value state v)
    then show ?thesis using step [OF flagged_write [OF assms]] by simp
  next
    case (discard_value state v)
    then show ?thesis using step [OF flagged_discard [OF assms]] by simp
  next
    case wake
    then show ?thesis using step [OF flagged_wake [OF assms _ _ refl]] by simp
  next
    case finish_setting
    then show ?thesis using step [OF flagged_finish [OF assms]] by simp
  next
    case (poll_value v)
    then show ?thesis using step [OF flagged_poll [OF assms _ _ refl]] by simp
  next
    case poll_uninit
    then show ?thesis using step [OF flagged_poll [OF assms _ _ refl]] by simp
  next
    case begin_drop
    then show ?thesis using step [OF flagged_begin_drop [OF assms]] by simp
  next
    case (spin state)
    then show ?thesis using step [OF flagged_spin [OF assms, of state]] by simp
  next
    case (drop_value state)
    then show ?thesis using step [OF flagged_free [OF assms, of state]] by simp
  next
    case (drop_only state)
    then show ?thesis using step [OF flagged_free [OF assms, of state]] by simp
  next
    case (drop_task v)
    then show ?thesis using step [OF flagged_drop_task [OF assms]] by simp
  next
    case (reuse w)
    then show ?thesis using step [OF flagged_reuse [OF assms]] by simp
  qed
qed


section \<open>Accesses\<close>


lemma add_access_simps [simp]:
  "negotiation (add_access a view h) = negotiation h" "rx_history (add_access a view h) = rx_history h @ [a]"
  "resolver_view (add_access a view h) = resolver_view h" "owner_view (add_access a view h) = owner_view h"
  "word_view (add_access a view h) = word_view h" "waker_view (add_access a view h) = waker_view h"
  "reread (add_access a view h) = reread h"
  by (simp_all add: add_access_def)


section \<open>The invariant\<close>














section \<open>The exception\<close>

lemma flagged_to: "flagged_step drops ords h h' \<Longrightarrow> h' = h'' \<Longrightarrow> flagged_step drops ords h h''"
  by simp

text \<open>
  The exception is real. The destructor looks at the word while the value is being set; before it looks again,
  the batch is released and the cell reused. It then sees the word of the new task, which was written with
  a plain store, and frees the memory, with nothing to order that after the write of the value.
\<close>

theorem spinning_destructor_races:
  "\<exists>h. flagged_reachable drops code_flag_orderings v h \<and>
    rx_history h = [ResolverSide, ResolverSide, OwnerSide] \<and> rx_races h = {(0, 2), (1, 2)} \<and> reread h"
proof -
  let ?step = "flagged_step drops code_flag_orderings"
  let ?race = "\<lambda>word mem r ow w gone. \<lparr>state_word = word, rx_mem = mem, rpc = r, opc = ow, was_woken = w,
    returned = [], discarded = [], broken = False, reused = gone\<rparr>"
  let ?h1 = "\<lparr>negotiation = ?race (flags True False False) (Some None) (RLoaded (flags False False False) v) OBatched False False,
    rx_history = [], rx_races = {}, resolver_view = {}, owner_view = {}, word_view = {}, waker_view = {}, reread = False\<rparr>"
  let ?h2 = "?h1\<lparr>negotiation := ?race (flags True False True) (Some None) (RLoaded (flags False False False) v)
    (OSpin (flags True False False)) False False\<rparr>"
  let ?h3 = "?h2\<lparr>negotiation := ?race (flags True False True) (Some (Some v)) RWrote (OSpin (flags True False False)) False False,
    rx_history := [ResolverSide], resolver_view := {0}\<rparr>"
  let ?h4 = "?h3\<lparr>negotiation := ?race (flags True False True) (Some (Some v)) RWoke (OSpin (flags True False False)) True False,
    rx_history := [ResolverSide, ResolverSide], resolver_view := {0, 1}, waker_view := {0, 1}\<rparr>"
  let ?h5 = "?h4\<lparr>negotiation := ?race (flags False True True) (Some (Some v)) RDone (OSpin (flags True False False)) True False,
    word_view := {0, 1}\<rparr>"
  let ?h6 = "?h5\<lparr>negotiation := ?race (flags False False False) (Some (Some v)) RDone (OSpin (flags True False False)) True True,
    word_view := {}\<rparr>"
  let ?h7 = "?h6\<lparr>negotiation := ?race (flags False False False) (Some (Some v)) RDone (OSpin (flags False False False)) True True, reread := True\<rparr>"
  let ?h8 = "?h7\<lparr>negotiation := ?race (flags False False False) None RDone ODropped True True,
    rx_history := [ResolverSide, ResolverSide, OwnerSide], rx_races := {(0, 2), (1, 2)}, owner_view := {2}\<rparr>"
  note views = thread_view_def location_view_def acquires_def releases_def code_flag_orderings_def setting_ordering_def
    value_set_ordering_def rx_dropped_ordering_def spin_ordering_def
  have s1: "?step (flagged_start v) ?h1"
    by (rule flagged_to, rule flagged_begin, rule race_step.begin_setting)
      (simp_all add: flagged_start_def race_start_def flags_0 [symmetric] flag_simps views)
  have s2: "?step ?h1 ?h2"
    by (rule flagged_to, rule flagged_begin_drop, rule race_step.begin_drop) (simp_all add: flag_simps views)
  have s3: "?step ?h2 ?h3"
    by (rule flagged_to, rule flagged_write, rule race_step.write_value [of _ "flags False False False" v]) (simp_all add: flags_0 add_access_def)
  have s4: "?step ?h3 ?h4"
    by (rule flagged_to, rule flagged_wake, rule race_step.wake) (auto simp: add_access_def)
  have s5: "?step ?h4 ?h5"
    by (rule flagged_to, rule flagged_finish, rule race_step.finish_setting) (simp_all add: flag_simps views)
  have s6: "?step ?h5 ?h6"
    by (rule flagged_to, rule flagged_reuse, rule race_step.reuse [of _ _ "flags False False False"]) simp_all
  have s7: "?step ?h6 ?h7"
    by (rule flagged_to, rule flagged_spin [of _ _ _ "flags True False False"], rule race_step.spin [of _ "flags True False False"]) (simp_all add: flag_simps views)
  have s8: "?step ?h7 ?h8"
    by (rule flagged_to, rule flagged_free, rule race_step.drop_only) (auto simp: flag_simps add_access_def)
  note next_step = flagged_reachable.flagged_next
  have "flagged_reachable drops code_flag_orderings v ?h4"
    by (rule next_step [OF next_step [OF next_step [OF next_step [OF flagged_init s1] s2] s3] s4])
  then have "flagged_reachable drops code_flag_orderings v ?h8"
    by (rule next_step [OF next_step [OF next_step [OF next_step [OF _ s5] s6] s7] s8])
  then show ?thesis by (intro exI [of _ ?h8]) simp
qed



end
