(* ===== verification/Unwinding.thy ===== *)
theory Unwinding
  imports TaskRefs
begin

text \<open>
  \<open>TaskAssignment::map\<close> with a closure that may panic. Unwinding runs the destructors of what is alive:
  the task, which \<open>op\<close> owns by then, and the assignment, which \<open>map\<close> owns until
  \<open>into_completion_receipt\<close>.
\<close>

section \<open>Definitions\<close>

text \<open>
  \<open>op\<close> returns \<open>None\<close> when it panics. The flag says whether the thread is unwinding; the cells after
  the panic are not visited.
\<close>

definition map_cell_unwinding ::
    "('t \<Rightarrow> 'v option) \<Rightarrow> ('w::len word, 't, 'f) task_ref \<Rightarrow> ('w word, 't, 'v, 'wk, 'f) futures
      \<Rightarrow> fault + bool \<times> 'wk list \<times> 'v list \<times> ('w word, 't, 'f) task_ref \<times> ('w word, 't, 'v, 'wk, 'f) futures" where
  "map_cell_unwinding op cell futs =
     bind_sum (take_task_unchecked cell) (\<lambda>(task, cell1).
       case op task of
         None \<Rightarrow> Inr (True, [], [], cell1, futs)
       | Some value \<Rightarrow>
           bind_sum (resolve_unchecked value cell1 futs) (\<lambda>(ws, vs, cell2, futs1).
           Inr (False, ws, vs, cell2, futs1)))"

fun map_cells_unwinding ::
    "('t \<Rightarrow> 'v option) \<Rightarrow> nat list \<Rightarrow> ('w::len word, 't, 'f) task_ref list \<Rightarrow> ('w word, 't, 'v, 'wk, 'f) futures
      \<Rightarrow> fault + bool \<times> 'wk list \<times> 'v list \<times> ('w word, 't, 'f) task_ref list \<times> ('w word, 't, 'v, 'wk, 'f) futures" where
  "map_cells_unwinding op [] buf futs = Inr (False, [], [], buf, futs)"
| "map_cells_unwinding op (i # is) buf futs =
     bind_sum (map_cell_unwinding op (buf ! i) futs) (\<lambda>(unwinding, ws, vs, cell, futs1).
     if unwinding then Inr (True, ws, vs, buf[i := cell], futs1)
     else bind_sum (map_cells_unwinding op is (buf[i := cell]) futs1) (\<lambda>(unwinding', ws', vs', buf', futs').
          Inr (unwinding', ws @ ws', vs @ vs', buf', futs')))"

text \<open>The tasks that the destructor of the assignment drops are the second component of the result.\<close>

definition assignment_map_unwinding ::
    "('d \<Rightarrow> 'wk steal \<times> 'd) \<Rightarrow> bool \<Rightarrow> ('t \<Rightarrow> 'v option) \<Rightarrow> 'w::len word \<Rightarrow> 'w word task_assignment
      \<Rightarrow> ('w word, ('w word, 't, 'f) task_ref, 'd) inner \<Rightarrow> ('w word, 't, 'v, 'wk, 'f) futures
      \<Rightarrow> fault + bool \<times> 't list \<times> 'wk list \<times> 'v list \<times> ('w word, ('w word, 't, 'f) task_ref, 'd) inner
           \<times> ('w word, 't, 'v, 'wk, 'f) futures" where
  "assignment_map_unwinding steal drops_task op N ta s futs =
     bind_sum (map_cells_unwinding op (assignment_tasks N ta) (buffer s) futs) (\<lambda>(unwinding, ws, vs, buf, futs').
     if unwinding
     then bind_sum (task_assignment_drop steal drops_task N ta (s\<lparr>buffer := buf\<rparr>)) (\<lambda>(ts, ws', s').
          Inr (True, ts, ws @ ws', vs, s', futs'))
     else bind_sum (assignment_deoccupy_buffer steal N ta (s\<lparr>buffer := buf\<rparr>)) (\<lambda>(ws', s').
          Inr (False, [], ws @ ws', vs, s', futs')))"

section \<open>Without a panic\<close>

lemma map_cell_unwinding_total:
  "map_cell_unwinding (\<lambda>t. Some (op t)) cell futs =
    bind_sum (map_cell op cell futs) (\<lambda>(ws, vs, cell', futs'). Inr (False, ws, vs, cell', futs'))"
  by (simp add: map_cell_unwinding_def map_cell_def take_task_unchecked_def split: option.splits)

lemma map_cells_unwinding_total:
  "map_cells_unwinding (\<lambda>t. Some (op t)) cs buf futs =
    bind_sum (map_cells op cs buf futs) (\<lambda>(ws, vs, buf', futs'). Inr (False, ws, vs, buf', futs'))"
proof (induction cs arbitrary: buf futs)
  case (Cons i cs)
  show ?case
  proof (cases "map_cell op (buf ! i) futs")
    case (Inr r)
    obtain ws vs cell futs1 where r: "r = (ws, vs, cell, futs1)" by (cases r)
    show ?thesis
      by (cases "map_cells op cs (buf[i := cell]) futs1") (auto simp: map_cell_unwinding_total Inr r Cons.IH)
  qed (simp add: map_cell_unwinding_total)
qed simp

text \<open>
  When \<open>op\<close> never panics, \<open>map\<close> with unwinding is \<open>map\<close>: it does not unwind, drops no task, and
  computes the same result or runs into the same fault.
\<close>

lemma map_unwinding_total:
  "assignment_map_unwinding steal drops_task (\<lambda>t. Some (op t)) N ta s futs =
    bind_sum (assignment_map steal op N ta s futs) (\<lambda>(ws, vs, s', futs'). Inr (False, [], ws, vs, s', futs'))"
proof (cases "map_cells op (assignment_tasks N ta) (buffer s) futs")
  case (Inr r)
  obtain ws vs buf futs1 where r: "r = (ws, vs, buf, futs1)" by (cases r)
  show ?thesis
    by (cases "assignment_deoccupy_buffer steal N ta (s\<lparr>buffer := buf\<rparr>)")
      (auto simp: assignment_map_unwinding_def assignment_map_def map_cells_unwinding_total Inr r)
qed (simp add: assignment_map_unwinding_def assignment_map_def map_cells_unwinding_total)

section \<open>With a panic\<close>

lemma map_cells_unwinding_spec:
  assumes "distinct (xs @ [y])" "inj_on c (set (xs @ [y]))"
    and "\<forall>x\<in>set (xs @ [y]). c x < length buf \<and> buf ! c x = task_cell (t x) (f x) (d x)"
    and "inj_on f {x \<in> set xs. \<not> d x}" "\<forall>x\<in>set xs. \<not> d x \<longrightarrow> futs (f x) = Some (Batched (rx x))"
    and "\<forall>x\<in>set xs. op (t x) = Some (v x)" "op (t y) = None"
  shows "map_cells_unwinding op (map c (xs @ y # ys)) buf futs = Inr
    (True, map (\<lambda>x. rx_waker (rx x)) (filter (\<lambda>x. \<not> d x) xs), map v (filter d xs),
     (fold (\<lambda>x buf. buf[c x := settled_cell (f x) (d x)]) xs buf)[c y := (task_cell (t y) (f y) (d y))\<lparr>tr_task := None\<rparr>],
     deliver_all d f rx v xs futs)"
  using assms
proof (induction xs arbitrary: buf futs)
  case Nil
  then show ?case by (simp add: map_cell_unwinding_def take_task_unchecked_def task_cell_def)
next
  case (Cons x xs)
  let ?buf = "buf[c x := settled_cell (f x) (d x)]"
  let ?futs = "if d x then futs else deliver futs (f x) (rx x) (v x)"
  have inj: "inj_on f {x \<in> set xs. \<not> d x}" using Cons.prems(4) by (rule inj_on_subset) auto
  have injc: "inj_on c (set (xs @ [y]))" using Cons.prems(2) by (rule inj_on_subset) auto
  have "f z \<noteq> f x" if "z \<in> set xs" "\<not> d z" "\<not> d x" for z
    using inj_onD [OF Cons.prems(4), of z x] that Cons.prems(1) by auto
  then have futs: "\<forall>z\<in>set xs. \<not> d z \<longrightarrow> ?futs (f z) = Some (Batched (rx z))"
    using Cons.prems(5) by (auto simp: deliver_def)
  have "c z \<noteq> c x" if "z \<in> set (xs @ [y])" for z
    using inj_onD [OF Cons.prems(2), of z x] that Cons.prems(1) by auto
  then have cells: "\<forall>z\<in>set (xs @ [y]). c z < length ?buf \<and> ?buf ! c z = task_cell (t z) (f z) (d z)"
    using Cons.prems(3) by (auto simp: nth_upd_other)
  have "map_cell_unwinding op (buf ! c x) futs = Inr
      (False, if d x then [] else [rx_waker (rx x)], if d x then [v x] else [], settled_cell (f x) (d x), ?futs)"
    using Cons.prems(3,5,6)
    by (cases "d x") (simp_all add: map_cell_unwinding_def take_task_unchecked_def task_cell_def settled_cell_def
        resolve_live resolve_dropped)
  then show ?case
    using Cons.IH [OF _ injc cells inj futs] Cons.prems(1,6,7) by simp
qed

text \<open>
  C31. A panic of \<open>op\<close> is not survived: unwinding drops the assignment, whose destructor takes every task
  of the batch again, from the first on, which was moved out of its cell. So tasks that need dropping
  are read uninitialised and dropped twice. For tasks that need no drop the region is freed, but
  the future of the task \<open>p\<close> at which \<open>op\<close> panicked and those after it are never resolved.
\<close>

theorem map_panic_drops_twice:
  fixes s :: "(64 word, (64 word, 't, 'f) task_ref, 'd) inner"
  assumes "occupied_by k M a s" "b \<le> a + 2 ^ k" "a \<le> p" "p < b"
    and "\<forall>i\<in>{a..<b}. buffer s ! (i mod 2 ^ k) = task_cell (t i) (f i) (d i)"
    and "inj_on f {i \<in> {a..<b}. \<not> d i}" "\<forall>i\<in>{a..<b}. \<not> d i \<longrightarrow> futs (f i) = Some (Batched (rx i))"
    and "\<forall>i\<in>{a..<p}. op (t i) = Some (v i)" "op (t p) = None"
    and "fifo_deque dpush steal contents" "steal_progress steal retries"
  shows "assignment_map_unwinding steal True op (2 ^ k) (bounds64 a b) s futs = Inl UninitRead \<and>
    (\<exists>woken s' futs'. assignment_map_unwinding steal False op (2 ^ k) (bounds64 a b) s futs =
       Inr (True, [], map (\<lambda>i. rx_waker (rx i)) (filter (\<lambda>i. \<not> d i) [a..<p]) @ woken, map v (filter d [a..<p]), s', futs') \<and>
     occupancy s' = enc64 (count (M - {#region k a#})) \<and>
     (\<forall>i\<in>{p..<b}. \<not> d i \<longrightarrow> futs' (f i) = Some (Batched (rx i))))"
proof -
  let ?c = "\<lambda>i. i mod 2 ^ k"
  let ?settle = "fold (\<lambda>i buf. buf[?c i := settled_cell (f i) (d i)]) [a..<p] (buffer s)"
  let ?buf = "?settle[?c p := (task_cell (t p) (f p) (d p))\<lparr>tr_task := None\<rparr>]"
  let ?futs = "deliver_all d f rx v [a..<p] futs"
  have k: "k \<le> 32" and len: "length (buffer s) = 2 ^ k" using assms(1) by (simp_all add: occupied_by_def)
  have split: "[a..<b] = [a..<p] @ p # [Suc p..<b]" using assms(3,4) by (metis le_add_diff_inverse less_imp_le_nat upt_add_eq_append upt_conv_Cons)
  have sub: "set ([a..<p] @ [p]) \<subseteq> {a..<b}" using assms(3,4) by auto
  have inj: "inj_on ?c {a..<b}" using mod_window_distinct [OF assms(2)] by (auto intro: inj_onI)
  have tasks: "assignment_tasks (2 ^ k) (bounds64 a b) = map ?c [a..<b]"
    unfolding assignment_tasks_def using slice_indices_64 [OF k _ assms(2)] assms(3,4) by simp
  have run: "map_cells_unwinding op (assignment_tasks (2 ^ k) (bounds64 a b)) (buffer s) futs = Inr
      (True, map (\<lambda>i. rx_waker (rx i)) (filter (\<lambda>i. \<not> d i) [a..<p]), map v (filter d [a..<p]), ?buf, ?futs)"
    unfolding tasks split
  proof (rule map_cells_unwinding_spec)
    show "inj_on ?c (set ([a..<p] @ [p]))" by (rule inj_on_subset [OF inj sub])
    show "inj_on f {i \<in> set [a..<p]. \<not> d i}" by (rule inj_on_subset [OF assms(6)]) (use assms(4) in auto)
  qed (use assms(4,5,7,8,9) sub len in auto)
  have "tr_task (?buf ! ?c a) = None"
  proof (cases "a = p")
    case True
    then show ?thesis using len by simp
  next
    case False
    then have "?c a \<noteq> ?c p" using inj_onD [OF inj, of a p] assms(3,4) by auto
    moreover have "inj_on ?c (set [a..<p])" by (rule inj_on_subset [OF inj]) (use assms(4) in auto)
    then have "?settle ! ?c a = settled_cell (f a) (d a)"
      using nth_settle [of ?c "[a..<p]" a "buffer s" "\<lambda>i. settled_cell (f i) (d i)"] False assms(3) len by simp
    ultimately show ?thesis by (simp add: settled_cell_def)
  qed
  moreover have "[a..<b] = a # [Suc a..<b]" using assms(3,4) by (simp add: upt_conv_Cons)
  ultimately have "drop_tasks (assignment_tasks (2 ^ k) (bounds64 a b)) ?buf = Inl UninitRead"
    by (simp add: tasks take_task_unchecked_def)
  then have "assignment_map_unwinding steal True op (2 ^ k) (bounds64 a b) s futs = Inl UninitRead"
    by (simp add: assignment_map_unwinding_def run task_assignment_drop_def)
  moreover obtain woken s' where "deoccupy_region steal (2 ^ k)
      (range_start (bounds64 a b) AND (2 ^ k - 1)) (s\<lparr>buffer := ?buf\<rparr>) = Inr (woken, s')"
    "occupancy s' = enc64 (count (M - {#region k a#}))"
    using deoccupy_range [OF assms(1,10,11), of b ?buf] by blast
  then have "assignment_map_unwinding steal False op (2 ^ k) (bounds64 a b) s futs =
      Inr (True, [], map (\<lambda>i. rx_waker (rx i)) (filter (\<lambda>i. \<not> d i) [a..<p]) @ woken, map v (filter d [a..<p]), s', ?futs) \<and>
      occupancy s' = enc64 (count (M - {#region k a#}))"
    by (simp add: assignment_map_unwinding_def run task_assignment_drop_def assignment_deoccupy_buffer_def)
  moreover have "?futs (f i) = Some (Batched (rx i))" if "i \<in> {p..<b}" "\<not> d i" for i
  proof -
    have "f j \<noteq> f i" if "j \<in> set [a..<p]" "\<not> d j" for j
      using inj_onD [OF assms(6), of j i] that \<open>i \<in> {p..<b}\<close> \<open>\<not> d i\<close> assms(3,4) by auto
    then have "?futs (f i) = futs (f i)" by (rule deliver_all_other)
    then show ?thesis using assms(3,7) that by auto
  qed
  ultimately show ?thesis by blast
qed

text \<open>A closure that panics at the second task of the example batch.\<close>

theorem map_panic_drops_twice_witness:
  "assignment_map_unwinding list_steal True (\<lambda>t. if t = 63 then None else Some t) (2 ^ 6) (bounds64 62 65)
    example_tasks example_futs = Inl UninitRead"
  using map_panic_drops_twice [OF example_tasks_ok(1) _ _ _ example_tasks_ok(2-4) _ _ list_deque, of 63
    "\<lambda>t. if t = 63 then None else Some t" id] by auto

end
