(* ===== verification/OneBatch.thy ===== *)
theory OneBatch
  imports Interleaving
begin

unbundle bit_operations_syntax

text \<open>
  A queue on one thread: it has no running batch, or one, which is released before the next is
  opened. What the operations of the queue and of its batches do in these two states.
\<close>

section \<open>The two states\<close>

text \<open>\<open>i\<close> tasks were pushed, and no batch is running.\<close>

definition idle :: "nat \<Rightarrow> nat \<Rightarrow> (64 word, 'c, 'd) stack_queue \<Rightarrow> bool" where
  "idle k i q \<longleftrightarrow> (\<exists>op. queue_at k i op (\<not> op) {#} q)"

text \<open>The batch of the tasks \<open>a\<close> to \<open>i - 1\<close> is running and open; the cell of task \<open>j\<close> is \<open>cell j\<close>.\<close>

definition one_batch :: "(nat \<Rightarrow> 'c) \<Rightarrow> nat \<Rightarrow> nat \<Rightarrow> nat \<Rightarrow> (64 word, 'c, 'd) stack_queue \<Rightarrow> bool" where
  "one_batch cell k a i q \<longleftrightarrow> (\<exists>ph. queue_at k i ph ph {#region k a#} q) \<and> own_occupancy q = enc64 (count {#region k a#}) \<and>
     a < i \<and> i \<le> region_start k a + 2 ^ k \<and> (\<forall>j\<in>{a..<i}. buffer (inner q) ! (j mod 2 ^ k) = cell j)"

abbreviation one_held :: "(nat \<Rightarrow> 't) \<Rightarrow> nat \<Rightarrow> nat \<Rightarrow> nat \<Rightarrow> (64 word, 't buffer_cell, 'd) stack_queue \<Rightarrow> bool" where
  "one_held t \<equiv> one_batch (\<lambda>j. Some (t j))"

definition holds :: "nat \<Rightarrow> 64 word unbounded_range \<Rightarrow> bool" where
  "holds a batch \<longleftrightarrow> (\<exists>p. batch = \<lparr>ur_base_slot = mk_slot a p\<rparr>)"

lemma one_batch_length: "one_batch cell k a i q \<Longrightarrow> length (buffer (inner q)) = 2 ^ k"
  by (auto simp: one_batch_def queue_at_def)

lemma one_batch_window: "one_batch cell k a i q \<Longrightarrow> a < i \<and> i \<le> a + 2 ^ k"
  using block_start_le [of "2 ^ (k - 3)" a] by (auto simp: one_batch_def)

lemma one_batch_cong:
  assumes "\<And>j. a \<le> j \<Longrightarrow> j < i \<Longrightarrow> cell j = cell' j"
  shows "one_batch cell k a i q \<longleftrightarrow> one_batch cell' k a i q"
  using assms by (auto simp: one_batch_def)

lemma one_batch_parked [simp]: "one_batch cell k a i (pending_push dpush w q) \<longleftrightarrow> one_batch cell k a i q"
  by (auto simp: one_batch_def pending_push_def queue_at_def)

lemma default_queue_idle:
  assumes "6 \<le> k" "k < 32" "stack_queue_default uninit (2 ^ k :: 64 word) d = Some q"
  shows "idle k 0 q" "stealer (inner q) = d"
proof -
  have "queue_at k 0 True False {#} q" and d: "stealer (inner q) = d"
    using default_queue_at [OF assms(1,2), of uninit d] assms(3) by (metis option.inject)+
  then show "idle k 0 q" unfolding idle_def by (intro exI [of _ True]) simp
  show "stealer (inner q) = d" by (rule d)
qed

section \<open>Adding a task\<close>

lemma idle_check:
  assumes "queue_at k c op (\<not> op) {#} q" "6 \<le> k" "k < 32"
  obtains q1 where "region_check (2 ^ k) (slot_index (2 ^ k) (own_slot q)) q = (Inr (), q1)"
  using region_check_result [OF assms _ refl] by fastforce

text \<open>The queue is full exactly when the batch has gone once around to the start of its region.\<close>

lemma one_batch_check:
  assumes "one_batch cell k a i q" "6 \<le> k" "k < 32"
  obtains (passes) "region_check (2 ^ k) (slot_index (2 ^ k) (own_slot q)) q = (Inr (), q)" "i < region_start k a + 2 ^ k"
  | (full) "region_check (2 ^ k) (slot_index (2 ^ k) (own_slot q)) q = (Inl QueueFull, q)" "i = region_start k a + 2 ^ k"
proof -
  obtain ph where q: "queue_at k i ph ph {#region k a#} q" and own: "own_occupancy q = enc64 (count {#region k a#})"
    and a: "a < i" "i \<le> region_start k a + 2 ^ k"
    using assms(1) by (auto simp: one_batch_def)
  have same: "q\<lparr>own_occupancy := occupancy (inner q)\<rparr> = q" using own q by (simp add: queue_at_def)
  define marked where "marked \<longleftrightarrow> own_occupancy q AND region_mask (2 ^ k) (slot_index (2 ^ k) (own_slot q)) \<noteq> 0"
  have check: "region_check (2 ^ k) (slot_index (2 ^ k) (own_slot q)) q =
      (if 2 ^ (k - 3) dvd i \<and> marked \<and> region k i = region k a then Inl QueueFull else Inr (), q)"
    using region_check_result [OF q assms(2,3) _ marked_def] same by simp
  show ?thesis
  proof (cases "2 ^ (k - 3) dvd i \<and> marked \<and> region k i = region k a")
    case True
    moreover have "i = region_start k a + 2 ^ k" using True lap_iff [OF _ a] assms(2) by auto
    ultimately show ?thesis using full check by simp
  next
    case False
    have "unat (slot_index (2 ^ k) (own_slot q)) = i mod 2 ^ k" using q assms(3) by (simp add: queue_at_def write_index_mk)
    then have "marked \<longleftrightarrow> region k i = region k a"
      using occ64.is_free_mset [of k "slot_index (2 ^ k) (own_slot q)" "{#region k a#}"] assms(2,3)
      by (auto simp: marked_def own region_def)
    then have "i \<noteq> region_start k a + 2 ^ k" using False lap_iff [OF _ a] assms(2) by auto
    then show ?thesis using passes check False a(2) by simp
  qed
qed

lemma one_batch_opens:
  assumes "queue_at k (Suc i) ph ph {#region k i#} q'" "buffer (inner q') = (buffer (inner q))[i mod 2 ^ k := cell i]"
    and "own_occupancy q' = occupancy (inner q')" "length (buffer (inner q)) = 2 ^ k" "6 \<le> k"
  shows "one_batch cell k i (Suc i) q'"
  using assms region_start_lap [of k i] by (auto simp: one_batch_def queue_at_def)

lemma one_batch_joins:
  assumes "one_batch cell k a i q" "i < region_start k a + 2 ^ k" "queue_at k (Suc i) ph ph {#region k a#} q'"
    and "buffer (inner q') = (buffer (inner q))[i mod 2 ^ k := cell i]" "own_occupancy q' = own_occupancy q"
  shows "one_batch cell k a (Suc i) q'"
proof -
  have a: "a < i" and cells: "\<forall>j\<in>{a..<i}. buffer (inner q) ! (j mod 2 ^ k) = cell j" and len: "length (buffer (inner q)) = 2 ^ k"
    using assms(1) one_batch_length [OF assms(1)] by (auto simp: one_batch_def)
  have "region_start k a \<le> a" by (rule block_start_le)
  then have distinct: "i mod 2 ^ k \<noteq> j mod 2 ^ k" if "a \<le> j" "j < i" for j
    using mod_window_distinct [of "Suc i" a "2 ^ k" i j] that assms(2) a by fastforce
  then have other: "(buffer (inner q))[i mod 2 ^ k := cell i] ! (j mod 2 ^ k) = cell j" if "a \<le> j" "j < i" for j
    using that cells distinct [OF that] by simp
  have "buffer (inner q') ! (j mod 2 ^ k) = cell j" if "a \<le> j" "j < Suc i" for j
    using that assms(4) len other by (cases "j = i") auto
  then show ?thesis using assms a by (auto simp: one_batch_def)
qed

lemma push_idle:
  assumes "idle k i q" "6 \<le> k" "k < 32"
  obtains q' batch where "push (2 ^ k) (t i) q = Inr (Inr (Some batch), q')" "holds i batch" "one_held t k i (Suc i) q'"
    "stealer (inner q') = stealer (inner q)"
proof -
  obtain op where q: "queue_at k i op (\<not> op) {#} q" using assms(1) by (auto simp: idle_def)
  obtain q1 where "region_check (2 ^ k) (slot_index (2 ^ k) (own_slot q)) q = (Inr (), q1)"
    by (rule idle_check [OF q assms(2,3)])
  from push_step [OF q assms(2,3) this, of "t i"] obtain q' where
    q': "push (2 ^ k) (t i) q = Inr (Inr (Some \<lparr>ur_base_slot = mk_slot i (\<not> op)\<rparr>), q')"
      "queue_at k (Suc i) (\<not> op) (\<not> op) {#region k i#} q'"
      "buffer (inner q') = (buffer (inner q))[i mod 2 ^ k := Some (t i)]" "own_occupancy q' = occupancy (inner q')"
      "stealer (inner q') = stealer (inner q)"
    by auto
  have "one_held t k i (Suc i) q'"
    by (rule one_batch_opens [where cell = "\<lambda>j. Some (t j)" and q = q, OF q'(2-4)]) (use q assms(2) in \<open>simp_all add: queue_at_def\<close>)
  then show ?thesis using that q'(1,5) by (auto simp: holds_def)
qed

lemma push_one_held:
  assumes "one_held t k a i q" "6 \<le> k" "k < 32"
  obtains (joins) q' where "push (2 ^ k) (t i) q = Inr (Inr None, q')" "one_held t k a (Suc i) q'"
      "stealer (inner q') = stealer (inner q)"
  | (full) "push (2 ^ k) (t i) q = Inr (Inl (t i), q)" "i = region_start k a + 2 ^ k"
proof -
  obtain ph where q: "queue_at k i ph ph {#region k a#} q" using assms(1) by (auto simp: one_batch_def)
  show ?thesis
    using assms
  proof (cases rule: one_batch_check)
    case passes
    then obtain q' where q': "push (2 ^ k) (t i) q = Inr (Inr None, q')" "queue_at k (Suc i) ph ph {#region k a#} q'"
        "buffer (inner q') = (buffer (inner q))[i mod 2 ^ k := Some (t i)]" "own_occupancy q' = own_occupancy q"
        "stealer (inner q') = stealer (inner q)"
      using push_step [OF q assms(2,3), of q "t i"] by auto
    from joins [OF q'(1) one_batch_joins [OF assms(1) passes(2) q'(2-4)] q'(5)] show ?thesis .
  next
    case full
    then have "push (2 ^ k) (t i) q = Inr (Inl (t i), q)" by (simp add: push_def current_write_index_eq)
    from that(2) [OF this full(2)] show ?thesis .
  qed
qed

section \<open>Bounding and releasing the batch\<close>

lemma bound_one_batch:
  assumes "one_batch cell k a i q" "holds a batch" "6 \<le> k" "k < 32"
  obtains ph where "into_bounded batch (inner q) = (bounds64 a i, (inner q)\<lparr>slot := mk_slot i (\<not> ph)\<rparr>)"
    "own_slot q = mk_slot i ph" "occupied_by k {#region k a#} a ((inner q)\<lparr>slot := mk_slot i (\<not> ph)\<rparr>)"
proof -
  obtain ph where q: "queue_at k i ph ph {#region k a#} q" using assms(1) by (auto simp: one_batch_def)
  obtain p where batch: "batch = \<lparr>ur_base_slot = mk_slot a p\<rparr>" using assms(2) by (auto simp: holds_def)
  show ?thesis
  proof (rule that)
    show "into_bounded batch (inner q) = (bounds64 a i, (inner q)\<lparr>slot := mk_slot i (\<not> ph)\<rparr>)"
      using set_bounds_spec [of batch a p "inner q" i ph] q by (simp add: batch queue_at_def)
    show "own_slot q = mk_slot i ph" using q by (simp add: queue_at_def)
    show "occupied_by k {#region k a#} a ((inner q)\<lparr>slot := mk_slot i (\<not> ph)\<rparr>)"
      using q assms(3,4) by (simp add: occupied_by_def queue_at_def region_div)
  qed
qed

lemma one_held_tasks:
  assumes "one_held t k a i q"
  shows "window_live (2 ^ k) a i (buffer (inner q))" "map the (window (2 ^ k) a i (buffer (inner q))) = map t [a..<i]"
  using assms by (auto simp: one_batch_def window_live_def window_def)

lemma freed_idle:
  assumes "batch_freed k contents a {#region k a#} ((inner q)\<lparr>slot := mk_slot i (\<not> ph)\<rparr>) woken s'"
    and "own_slot q = mk_slot i ph" "length (buffer (inner q)) = 2 ^ k"
  shows "idle k i (q\<lparr>inner := s'\<rparr>)" "woken @ contents (stealer s') = contents (stealer (inner q))"
    "length woken = min (2 ^ (k - 3)) (length (contents (stealer (inner q))))"
proof -
  show "idle k i (q\<lparr>inner := s'\<rparr>)"
    unfolding idle_def using assms by (intro exI [of _ ph]) (simp add: queue_at_def batch_freed_def)
qed (use assms(1) in \<open>simp_all add: batch_freed_def\<close>)

end
