(* ===== verification/Processing.thy ===== *)
theory Processing
  imports OneBatch
begin

unbundle bit_operations_syntax

text \<open>
  What an executor relies on of \<open>batch_process\<close>, which users of a \<open>TaskQueue\<close> write: the contract is the
  locale \<open>batch_processor\<close>, and the implementations in the tests and benchmarks of the crate satisfy it.
\<close>

section \<open>Implementations\<close>

text \<open>
  \<open>batch.into_assignment().map(op)\<close>, as in \<open>EchoQueue::batch_process\<close>, where \<open>op\<close> is the identity: whom
  it wakes.
\<close>

definition echo_batch_process ::
    "('d \<Rightarrow> 'wk steal \<times> 'd) \<Rightarrow> ('t \<Rightarrow> 'v) \<Rightarrow> 'w::len word \<Rightarrow> 'w word pending_assignment
      \<Rightarrow> ('w word, ('w word, 't, 'f) task_ref, 'd) stack_queue \<Rightarrow> ('w word, 't, 'v, 'wk, 'f) futures
      \<Rightarrow> fault + 'wk list \<times> ('w word, ('w word, 't, 'f) task_ref, 'd) stack_queue \<times> ('w word, 't, 'v, 'wk, 'f) futures" where
  "echo_batch_process steal op N batch q futs =
     (let (assignment, s) = into_assignment batch (inner q) in
      bind_sum (assignment_map steal op N assignment s futs) (\<lambda>(woken, discarded, s', futs').
      Inr (woken, q\<lparr>inner := s'\<rparr>, futs')))"

text \<open>\<open>iter::repeat(value)\<close>, and \<open>batch.into_assignment().resolve_with_iter(iter::repeat(value))\<close>.\<close>

definition repeat_next :: "'v \<Rightarrow> ('v \<times> 'v) option" where
  "repeat_next value = Some (value, value)"

definition repeat_batch_process ::
    "('d \<Rightarrow> 'wk steal \<times> 'd) \<Rightarrow> bool \<Rightarrow> 'v \<Rightarrow> 'w::len word \<Rightarrow> 'w word pending_assignment
      \<Rightarrow> ('w word, ('w word, 't, 'f) task_ref, 'd) stack_queue \<Rightarrow> ('w word, 't, 'v, 'wk, 'f) futures
      \<Rightarrow> fault + 'wk list \<times> ('w word, ('w word, 't, 'f) task_ref, 'd) stack_queue \<times> ('w word, 't, 'v, 'wk, 'f) futures" where
  "repeat_batch_process steal drops_task value N batch q futs =
     (let (assignment, s) = into_assignment batch (inner q) in
      bind_sum (resolve_with_iter steal drops_task repeat_next N assignment value s futs) (\<lambda>(dropped, woken, discarded, s', futs').
      Inr (woken, q\<lparr>inner := s'\<rparr>, futs')))"

section \<open>The contract\<close>

text \<open>The cells of the tasks \<open>a\<close> to \<open>i - 1\<close>, each with the address of its future.\<close>

abbreviation tasks_held :: "(nat \<Rightarrow> 't) \<Rightarrow> (nat \<Rightarrow> 'f) \<Rightarrow> nat \<Rightarrow> nat \<Rightarrow> nat
    \<Rightarrow> (64 word, (64 word, 't, 'f) task_ref, 'd) stack_queue \<Rightarrow> bool" where
  "tasks_held t f \<equiv> one_batch (\<lambda>j. task_cell (t j) (f j) False)"

text \<open>
  Processing the one batch there is gives every future the value of its task and wakes it, releases
  the batch, and wakes the oldest parked wakers, at most a region's worth.
\<close>

locale batch_processor =
  fixes works :: bool and k :: nat and contents :: "'d \<Rightarrow> 'wk list" and op :: "'t \<Rightarrow> 'v"
    and process :: "64 word pending_assignment \<Rightarrow> (64 word, (64 word, 't, 'f) task_ref, 'd) stack_queue
      \<Rightarrow> (64 word, 't, 'v, 'wk, 'f) futures
      \<Rightarrow> fault + 'wk list \<times> (64 word, (64 word, 't, 'f) task_ref, 'd) stack_queue \<times> (64 word, 't, 'v, 'wk, 'f) futures"
  assumes processes: "works \<Longrightarrow> tasks_held t f k a i q \<Longrightarrow> inj_on f {a..<i} \<Longrightarrow>
      \<forall>j\<in>{a..<i}. futs (f j) = Some (Batched (rx j)) \<Longrightarrow>
      \<exists>q' woken futs'. process \<lparr>pa_base_slot = mk_slot a p\<rparr> q futs = Inr (map (\<lambda>j. rx_waker (rx j)) [a..<i] @ woken, q', futs') \<and>
        (\<forall>j\<in>{a..<i}. futs' (f j) = Some (Batched (rx j\<lparr>rx_value := Some (op (t j))\<rparr>))) \<and>
        (\<forall>g. g \<notin> f ` {a..<i} \<longrightarrow> futs' g = futs g) \<and> idle k i q' \<and>
        woken @ contents (stealer (inner q')) = contents (stealer (inner q)) \<and>
        length woken = min (2 ^ (k - 3)) (length (contents (stealer (inner q))))"

section \<open>Awaiting one task\<close>

text \<open>
  Awaiting the future at \<open>self\<close> on an executor with nothing else to do: it is polled; while it is
  pending, what its poll has spawned runs; it is polled again when its waker is woken. \<open>None\<close> if it
  is never woken, or if this does not end.
\<close>

partial_function (option) await_task ::
    "('d \<Rightarrow> 'wk \<Rightarrow> 'd) \<Rightarrow> ('w word pending_assignment
        \<Rightarrow> ('w word, ('w word, 't, 'f) task_ref, 'd) stack_queue \<Rightarrow> ('w word, 't, 'v, 'wk, 'f) futures
        \<Rightarrow> fault + 'wk list \<times> ('w word, ('w word, 't, 'f) task_ref, 'd) stack_queue \<times> ('w word, 't, 'v, 'wk, 'f) futures)
      \<Rightarrow> 'w::len word \<Rightarrow> 'f \<Rightarrow> 'wk
      \<Rightarrow> ('w word, ('w word, 't, 'f) task_ref, 'd) stack_queue \<Rightarrow> ('w word, 't, 'v, 'wk, 'f) futures
      \<Rightarrow> (fault + 'v \<times> ('w word, ('w word, 't, 'f) task_ref, 'd) stack_queue \<times> ('w word, 't, 'v, 'wk, 'f) futures) option" where
  "await_task dpush process N self waker q futs =
     (case batched_task_poll dpush N self waker q futs of
        Inl e \<Rightarrow> Some (Inl e)
      | Inr (Ready v, assignment, q1, futs1) \<Rightarrow> Some (Inr (v, q1, futs1))
      | Inr (Pending, None, q1, futs1) \<Rightarrow> None
      | Inr (Pending, Some batch, q1, futs1) \<Rightarrow>
          (case process batch q1 futs1 of
             Inl e \<Rightarrow> Some (Inl e)
           | Inr (woken, q2, futs2) \<Rightarrow>
               if waker \<in> set woken then await_task dpush process N self waker q2 futs2 else None))"

lemma poll_idle:
  fixes futs :: "(64 word, 't, 'v, 'wk, 'f) futures"
  assumes "idle k i q" "6 \<le> k" "k < 32" "futs (f i) = Some (Unbatched (t i))"
  obtains q' state p where "batched_task_poll dpush (2 ^ k) (f i) w q futs =
      Inr (Pending, Some \<lparr>pa_base_slot = mk_slot i p\<rparr>, q', futs(f i \<mapsto> Batched (receiver_new state w)))"
    "tasks_held t f k i (Suc i) q'" "stealer (inner q') = stealer (inner q)"
proof -
  obtain own where q: "queue_at k i own (\<not> own) {#} q" using assms(1) by (auto simp: idle_def)
  obtain q1 where check: "region_check (2 ^ k) (slot_index (2 ^ k) (own_slot q)) q = (Inr (), q1)"
    by (rule idle_check [OF q assms(2,3)])
  obtain q' where q': "batched_task_poll dpush (2 ^ k) (f i) w q futs = Inr (Pending, Some \<lparr>pa_base_slot = mk_slot i (\<not> own)\<rparr>, q',
      futs(f i \<mapsto> Batched (receiver_new (slot_index (2 ^ k) (own_slot q)) w)))"
    "queue_at k (Suc i) (\<not> own) (\<not> own) {#region k i#} q'"
    "buffer (inner q') = (buffer (inner q))[i mod 2 ^ k := task_cell (t i) (f i) False]"
    "own_occupancy q' = occupancy (inner q')" "stealer (inner q') = stealer (inner q)"
    using poll_unbatched_step [where dpush = dpush and waker = w and futs = futs and self = "f i", OF q assms(2-4) check]
    by auto
  have "tasks_held t f k i (Suc i) q'"
    by (rule one_batch_opens [where cell = "\<lambda>j. task_cell (t j) (f j) False" and q = q, OF q'(2-4)])
      (use q assms(2) in \<open>simp_all add: queue_at_def\<close>)
  then show ?thesis using that q'(1,5) by blast
qed

text \<open>The locale's client: a task given to an idle queue and awaited resolves to its own value.\<close>

context batch_processor begin

lemma await_idle:
  fixes futs :: "(64 word, 't, 'v, 'wk, 'f) futures"
  assumes works "idle k c q" "6 \<le> k" "k < 32" "futs self = Some (Unbatched t)"
  obtains q' futs' where "await_task dpush process (2 ^ k) self waker q futs = Some (Inr (op t, q', futs'))"
    "idle k (Suc c) q'" "\<forall>g. g \<noteq> self \<longrightarrow> futs' g = futs g"
proof -
  obtain q1 state p where poll: "batched_task_poll dpush (2 ^ k) self waker q futs =
      Inr (Pending, Some \<lparr>pa_base_slot = mk_slot c p\<rparr>, q1, futs(self \<mapsto> Batched (receiver_new state waker)))"
    "tasks_held (\<lambda>_. t) (\<lambda>_. self) k c (Suc c) q1"
    using poll_idle [where f = "\<lambda>_. self" and t = "\<lambda>_. t" and futs = futs and dpush = dpush and w = waker, OF assms(2-5)] by metis
  let ?futs = "futs(self \<mapsto> Batched (receiver_new state waker))"
  have inj: "inj_on (\<lambda>_. self) {c..<Suc c}" by (simp add: inj_on_def)
  have live: "\<forall>j\<in>{c..<Suc c}. ?futs self = Some (Batched (receiver_new state waker))" by simp
  obtain q2 woken futs2 where run: "process \<lparr>pa_base_slot = mk_slot c p\<rparr> q1 ?futs = Inr (waker # woken, q2, futs2)"
    "futs2 self = Some (Batched ((receiver_new state waker)\<lparr>rx_value := Some (op t)\<rparr>))"
    "\<forall>g. g \<noteq> self \<longrightarrow> futs2 g = futs g" "idle k (Suc c) q2"
    using processes [where p = p and rx = "\<lambda>_. receiver_new state waker" and t = "\<lambda>_. t" and f = "\<lambda>_. self" and futs = ?futs, OF assms(1) poll(2) inj live]
    by (auto simp: receiver_new_def)
  have "batched_task_poll dpush (2 ^ k) self waker q2 futs2 = Inr (Ready (op t), None, q2, futs2(self \<mapsto> Received))"
    using poll_batched [where futs = futs2 and self = self, OF run(2)] by simp
  then have "await_task dpush process (2 ^ k) self waker q2 futs2 = Some (Inr (op t, q2, futs2(self \<mapsto> Received)))"
    by (subst await_task.simps) simp
  then have "await_task dpush process (2 ^ k) self waker q futs = Some (Inr (op t, q2, futs2(self \<mapsto> Received)))"
    by (subst await_task.simps) (simp add: poll(1) run(1))
  then show ?thesis using run(3,4) by (intro that [of q2 "futs2(self \<mapsto> Received)"]) simp_all
qed

end

section \<open>The implementations satisfy it\<close>

definition process_env :: "nat \<Rightarrow> ('d \<Rightarrow> 'wk \<Rightarrow> 'd) \<Rightarrow> ('d \<Rightarrow> 'wk steal \<times> 'd) \<Rightarrow> ('d \<Rightarrow> 'wk list) \<Rightarrow> ('d \<Rightarrow> nat) \<Rightarrow> bool" where
  "process_env k dpush steal contents retries \<longleftrightarrow>
     6 \<le> k \<and> k < 32 \<and> fifo_deque dpush steal contents \<and> steal_progress steal retries"

lemma bound_tasks_held:
  assumes "tasks_held t f k a i q" "6 \<le> k" "k < 32"
  obtains ph where "into_assignment \<lparr>pa_base_slot = mk_slot a p\<rparr> (inner q) = (bounds64 a i, (inner q)\<lparr>slot := mk_slot i (\<not> ph)\<rparr>)"
    "own_slot q = mk_slot i ph" "occupied_by k {#region k a#} a ((inner q)\<lparr>slot := mk_slot i (\<not> ph)\<rparr>)"
proof -
  have "holds a \<lparr>ur_base_slot = mk_slot a p\<rparr>" unfolding holds_def by blast
  from bound_one_batch [OF assms(1) this assms(2,3)] obtain ph where
    bounded: "into_bounded \<lparr>ur_base_slot = mk_slot a p\<rparr> (inner q) = (bounds64 a i, (inner q)\<lparr>slot := mk_slot i (\<not> ph)\<rparr>)"
    "own_slot q = mk_slot i ph" "occupied_by k {#region k a#} a ((inner q)\<lparr>slot := mk_slot i (\<not> ph)\<rparr>)" by blast
  have "into_assignment \<lparr>pa_base_slot = mk_slot a p\<rparr> (inner q) = (bounds64 a i, (inner q)\<lparr>slot := mk_slot i (\<not> ph)\<rparr>)"
    using bounded(1) by (simp add: into_assignment_def set_assignment_bounds_def into_bounded_def set_bounds_def Let_def)
  from that [OF this bounded(2,3)] show ?thesis .
qed

lemma map_processes:
  fixes futs :: "(64 word, 't, 'v, 'wk, 'f) futures"
  assumes "process_env k dpush steal contents retries" "tasks_held t f k a i q" "inj_on f {a..<i}"
    and "\<forall>j\<in>{a..<i}. futs (f j) = Some (Batched (rx j))"
  shows "\<exists>q' woken futs'. echo_batch_process steal op (2 ^ k) \<lparr>pa_base_slot = mk_slot a p\<rparr> q futs =
      Inr (map (\<lambda>j. rx_waker (rx j)) [a..<i] @ woken, q', futs') \<and>
    (\<forall>j\<in>{a..<i}. futs' (f j) = Some (Batched (rx j\<lparr>rx_value := Some (op (t j))\<rparr>))) \<and>
    (\<forall>g. g \<notin> f ` {a..<i} \<longrightarrow> futs' g = futs g) \<and> idle k i q' \<and>
    woken @ contents (stealer (inner q')) = contents (stealer (inner q)) \<and>
    length woken = min (2 ^ (k - 3)) (length (contents (stealer (inner q))))"
proof -
  have k: "6 \<le> k" "k < 32" "fifo_deque dpush steal contents" "steal_progress steal retries"
    using assms(1) by (simp_all add: process_env_def)
  obtain ph where bounded: "into_assignment \<lparr>pa_base_slot = mk_slot a p\<rparr> (inner q) = (bounds64 a i, (inner q)\<lparr>slot := mk_slot i (\<not> ph)\<rparr>)"
    and own: "own_slot q = mk_slot i ph" and occ: "occupied_by k {#region k a#} a ((inner q)\<lparr>slot := mk_slot i (\<not> ph)\<rparr>)"
    by (rule bound_tasks_held [OF assms(2) k(1,2)])
  let ?s = "(inner q)\<lparr>slot := mk_slot i (\<not> ph)\<rparr>"
  have window: "a < i" "i \<le> a + 2 ^ k" using one_batch_window [OF assms(2)] by simp_all
  have cells: "\<forall>j\<in>{a..<i}. buffer ?s ! (j mod 2 ^ k) = task_cell (t j) (f j) False"
    using assms(2) by (simp add: one_batch_def)
  have span: "{j \<in> {a..<i}. \<not> False} = {a..<i}" "{j. a \<le> j \<and> j < i} = {a..<i}" by auto
  have inj: "inj_on f {j \<in> {a..<i}. \<not> False}" unfolding span by (rule assms(3))
  have live: "\<forall>j\<in>{a..<i}. \<not> False \<longrightarrow> futs (f j) = Some (Batched (rx j))" using assms(4) by simp
  obtain woken s' futs' where map: "assignment_map steal op (2 ^ k) (bounds64 a i) ?s futs =
      Inr (map (\<lambda>j. rx_waker (rx j)) [a..<i] @ woken, [], s', futs')"
    "\<forall>j\<in>{a..<i}. futs' (f j) = Some (Batched (rx j\<lparr>rx_value := Some (op (t j))\<rparr>))"
    "\<forall>g. g \<notin> f ` {a..<i} \<longrightarrow> futs' g = futs g" "batch_freed k contents a {#region k a#} ?s woken s'"
    using assignment_map_result [where d = "\<lambda>_. False" and t = t and f = f and rx = rx and futs = futs and op = op,
        OF occ window cells inj live k(3,4)] by (auto simp: span)
  have "echo_batch_process steal op (2 ^ k) \<lparr>pa_base_slot = mk_slot a p\<rparr> q futs =
      Inr (map (\<lambda>j. rx_waker (rx j)) [a..<i] @ woken, q\<lparr>inner := s'\<rparr>, futs')"
    using map(1) by (simp add: echo_batch_process_def bounded)
  then show ?thesis using map(2,3) freed_idle [OF map(4) own one_batch_length [OF assms(2)]] by force
qed

text \<open>An iterator that repeats a value gives as many as there are cells.\<close>

lemma resolve_zip_repeat:
  "resolve_zip drops repeat_next cs v buf futs = resolve_zip drops list_next cs (replicate (length cs) v) buf futs"
  by (induction cs arbitrary: buf futs) (simp_all add: repeat_next_def)

lemma repeat_processes:
  fixes futs :: "(64 word, 't, 'v, 'wk, 'f) futures"
  assumes "process_env k dpush steal contents retries" "tasks_held t f k a i q" "inj_on f {a..<i}"
    and "\<forall>j\<in>{a..<i}. futs (f j) = Some (Batched (rx j))"
  shows "\<exists>q' woken futs'. repeat_batch_process steal drops v (2 ^ k) \<lparr>pa_base_slot = mk_slot a p\<rparr> q futs =
      Inr (map (\<lambda>j. rx_waker (rx j)) [a..<i] @ woken, q', futs') \<and>
    (\<forall>j\<in>{a..<i}. futs' (f j) = Some (Batched (rx j\<lparr>rx_value := Some v\<rparr>))) \<and>
    (\<forall>g. g \<notin> f ` {a..<i} \<longrightarrow> futs' g = futs g) \<and> idle k i q' \<and>
    woken @ contents (stealer (inner q')) = contents (stealer (inner q)) \<and>
    length woken = min (2 ^ (k - 3)) (length (contents (stealer (inner q))))"
proof -
  have k: "6 \<le> k" "k < 32" "fifo_deque dpush steal contents" "steal_progress steal retries"
    using assms(1) by (simp_all add: process_env_def)
  obtain ph where bounded: "into_assignment \<lparr>pa_base_slot = mk_slot a p\<rparr> (inner q) = (bounds64 a i, (inner q)\<lparr>slot := mk_slot i (\<not> ph)\<rparr>)"
    and own: "own_slot q = mk_slot i ph" and occ: "occupied_by k {#region k a#} a ((inner q)\<lparr>slot := mk_slot i (\<not> ph)\<rparr>)"
    by (rule bound_tasks_held [OF assms(2) k(1,2)])
  let ?s = "(inner q)\<lparr>slot := mk_slot i (\<not> ph)\<rparr>" and ?c = "\<lambda>j. j mod 2 ^ k"
  let ?buf = "fold (\<lambda>j buf. buf[?c j := zipped_cell drops (t j) (f j) False]) [a..<i] (buffer (inner q))"
  let ?futs = "deliver_all (\<lambda>_. False) f rx (\<lambda>_. v) [a..<i] futs"
  have window: "a < i" "i \<le> a + 2 ^ k" using one_batch_window [OF assms(2)] by simp_all
  have cells: "\<forall>j\<in>set [a..<i]. ?c j < length (buffer (inner q)) \<and> buffer (inner q) ! ?c j = task_cell (t j) (f j) False"
    using assms(2) one_batch_length [OF assms(2)] by (simp add: one_batch_def)
  have inj: "inj_on ?c (set [a..<i])" using mod_window_distinct [OF window(2)] by (auto intro: inj_onI)
  have dist: "inj_on f {j \<in> set [a..<i]. \<not> False}" by (rule inj_on_subset [OF assms(3)]) auto
  have vals: "replicate (length (map ?c [a..<i])) v = map (\<lambda>_. v) [a..<i]" by (simp add: map_replicate_const)
  have k32: "k \<le> 32" using k(2) by simp
  have zip: "resolve_zip drops repeat_next (assignment_tasks (2 ^ k) (bounds64 a i)) v (buffer (inner q)) futs =
      Inr (if drops then map t [a..<i] else [], map (\<lambda>j. rx_waker (rx j)) [a..<i], [], ?buf, ?futs)"
    using resolve_zip_spec [where rest = "[]" and extra = "[]" and v = "\<lambda>_. v" and futs = futs and drops = drops,
        OF distinct_upt inj cells dist _ disjI1 [OF refl]] assms(4) k(2)
    unfolding assignment_tasks_def slice_indices_64 [OF k32 window]
      resolve_zip_repeat vals by simp
  obtain woken s' where s': "deoccupy_region steal (2 ^ k) (range_start (bounds64 a i) AND (2 ^ k - 1)) (?s\<lparr>buffer := ?buf\<rparr>) = Inr (woken, s')"
    "batch_freed k contents a {#region k a#} ?s woken s'"
    using deoccupy_range [OF occ k(3,4), of i ?buf] one_batch_length [OF assms(2)] by (auto simp: batch_freed_def)
  have "repeat_batch_process steal drops v (2 ^ k) \<lparr>pa_base_slot = mk_slot a p\<rparr> q futs =
      Inr (map (\<lambda>j. rx_waker (rx j)) [a..<i] @ woken, q\<lparr>inner := s'\<rparr>, ?futs)"
    by (simp add: repeat_batch_process_def bounded resolve_with_iter_def zip assignment_deoccupy_buffer_def s'(1))
  moreover have "\<forall>j\<in>{a..<i}. ?futs (f j) = Some (Batched (rx j\<lparr>rx_value := Some v\<rparr>))"
    by (intro ballI deliver_all_at) (use dist in auto)
  moreover have "\<forall>g. g \<notin> f ` {a..<i} \<longrightarrow> ?futs g = futs g"
    by (intro allI impI deliver_all_other) auto
  ultimately show ?thesis using freed_idle [OF s'(2) own one_batch_length [OF assms(2)]] by force
qed

interpretation mapping: batch_processor "process_env k dpush steal contents retries" k contents op
    "echo_batch_process steal op (2 ^ k)" for k dpush steal contents retries op
proof (unfold_locales, goal_cases)
  case (1 t f a i q futs rx p)
  then show ?case using map_processes [of k dpush steal contents retries t f a i q futs rx op p] by blast
qed

interpretation repeating: batch_processor "process_env k dpush steal contents retries" k contents "\<lambda>_. v"
    "repeat_batch_process steal drops v (2 ^ k)" for k dpush steal contents retries drops v
proof (unfold_locales, goal_cases)
  case (1 t f a i q futs rx p)
  then show ?case using repeat_processes [of k dpush steal contents retries t f a i q futs rx drops v p] by blast
qed

end
