(* ===== verification/Programs.thy ===== *)
theory Programs
  imports Processing
begin

unbundle bit_operations_syntax

text \<open>
  Three tests of \<open>queue.rs\<close> as programs, with any number of tasks and any size of queue:
  \<^item> \<open>it_manages_occupancy\<close> pushes tasks and, when the queue is full, sums up the batch that is held with
    its iterator;
  \<^item> \<open>it_process_background_tasks\<close> enqueues tasks in the background, each of which sends its number on
    its own channel;
  \<^item> \<open>it_cycles\<close> gives one task after the other to \<open>auto_batch\<close> and awaits its value.
  The proofs rest on the two states of \<open>OneBatch\<close>.
\<close>

section \<open>Emptying a batch with its iterator\<close>

text \<open>
  \<open>batch.into_bounded().into_iter()\<close>, read to its end and dropped: the tasks in the order they come
  out, and the queue after the destructor of the iterator, which has no task left to drop.
\<close>

definition drain_batch ::
    "('d \<Rightarrow> 'wk steal \<times> 'd) \<Rightarrow> 'w::len word \<Rightarrow> 'w word unbounded_range \<Rightarrow> ('w word, 't buffer_cell, 'd) stack_queue
      \<Rightarrow> fault + 't list \<times> ('w word, 't buffer_cell, 'd) stack_queue" where
  "drain_batch steal N batch q =
     (let (br, s) = into_bounded batch (inner q) in
      bind_sum (iter_drain N (into_iter br) (buffer s)) (\<lambda>(ts, it, buf).
      bind_sum (iter_deoccupy_buffer steal N it (s\<lparr>buffer := buf\<rparr>)) (\<lambda>(woken, s').
      Inr (ts, q\<lparr>inner := s'\<rparr>))))"

text \<open>
  \<open>batch_process\<close> of the background queue of the test, for tasks \<open>(val, tx)\<close>: what is sent on which
  channel, in order.
\<close>

definition echo_background_process ::
    "('d \<Rightarrow> 'wk steal \<times> 'd) \<Rightarrow> 'w::len word \<Rightarrow> 'w word unbounded_range
      \<Rightarrow> ('w word, ('n \<times> 'tx) buffer_cell, 'd) stack_queue
      \<Rightarrow> fault + ('tx \<times> 'n) list \<times> ('w word, ('n \<times> 'tx) buffer_cell, 'd) stack_queue" where
  "echo_background_process steal N tasks q =
     bind_sum (drain_batch steal N tasks q) (\<lambda>(ts, q'). Inr (map (\<lambda>(val, tx). (tx, val)) ts, q'))"

text \<open>Tasks given to \<open>auto_batch\<close> one after the other: what is spawned, in order.\<close>

fun auto_batch_each ::
    "'w::len word \<Rightarrow> 't list \<Rightarrow> ('w word, 't buffer_cell, 'd) stack_queue
      \<Rightarrow> fault + ('w word, 't) spawned list \<times> ('w word, 't buffer_cell, 'd) stack_queue" where
  "auto_batch_each N [] q = Inr ([], q)"
| "auto_batch_each N (task # tasks) q =
     bind_sum (background_auto_batch N task q) (\<lambda>(spawn, q1).
     bind_sum (auto_batch_each N tasks q1) (\<lambda>(spawns, q').
     Inr (case spawn of None \<Rightarrow> spawns | Some s \<Rightarrow> s # spawns, q')))"

section \<open>The program that fills and drains\<close>

text \<open>\<open>QueueFullUnoccupied\<close>: the panic of the test, if a push is refused although no batch is held.\<close>

datatype manage_error = Fault fault | QueueFullUnoccupied

text \<open>\<open>batch.into_bounded().into_iter().sum()\<close>.\<close>

definition sum_batch ::
    "('d \<Rightarrow> 'wk steal \<times> 'd) \<Rightarrow> 'w::len word \<Rightarrow> 'w word unbounded_range \<Rightarrow> ('w word, nat buffer_cell, 'd) stack_queue
      \<Rightarrow> fault + nat \<times> ('w word, nat buffer_cell, 'd) stack_queue" where
  "sum_batch steal N batch q =
     bind_sum (drain_batch steal N batch q) (\<lambda>(ts, q'). Inr (sum_list ts, q'))"

text \<open>\<open>batch = Some(\<dots>)\<close> drops the batch that was held before, if any; the tasks need no drop.\<close>

definition replace_batch ::
    "('d \<Rightarrow> 'wk steal \<times> 'd) \<Rightarrow> 'w::len word \<Rightarrow> 'w word unbounded_range option
      \<Rightarrow> ('w word, nat buffer_cell, 'd) stack_queue \<Rightarrow> fault + ('w word, nat buffer_cell, 'd) stack_queue" where
  "replace_batch steal N batch q =
     (case batch of
        None \<Rightarrow> Inr q
      | Some old \<Rightarrow> bind_sum (unbounded_range_drop steal False N old (inner q)) (\<lambda>(dropped, woken, s).
          Inr (q\<lparr>inner := s\<rparr>)))"

partial_function (option) manage_loop ::
    "('d \<Rightarrow> 'wk steal \<times> 'd) \<Rightarrow> 'w::len word \<Rightarrow> nat \<Rightarrow> ('w word, nat buffer_cell, 'd) stack_queue
      \<Rightarrow> 'w word unbounded_range option \<Rightarrow> nat \<Rightarrow> nat
      \<Rightarrow> (manage_error + ('w word, nat buffer_cell, 'd) stack_queue \<times> 'w word unbounded_range option \<times> nat) option" where
  "manage_loop steal N limit q batch i tot =
     (if i < limit then
        case push N i q of
          Inl e \<Rightarrow> Some (Inl (Fault e))
        | Inr (Inr (Some new), q1) \<Rightarrow>
            (case replace_batch steal N batch q1 of
               Inl e \<Rightarrow> Some (Inl (Fault e))
             | Inr q2 \<Rightarrow> manage_loop steal N limit q2 (Some new) (i + 1) tot)
        | Inr (Inr None, q1) \<Rightarrow> manage_loop steal N limit q1 batch (i + 1) tot
        | Inr (Inl task, q1) \<Rightarrow>
            (case batch of
               None \<Rightarrow> Some (Inl QueueFullUnoccupied)
             | Some held \<Rightarrow>
                 (case sum_batch steal N held q1 of
                    Inl e \<Rightarrow> Some (Inl (Fault e))
                  | Inr (x, q2) \<Rightarrow> manage_loop steal N limit q2 None i (tot + x)))
      else Some (Inr (q, batch, tot)))"

text \<open>\<open>None\<close>: a loop that does not end, or a size that construction rejects.\<close>

definition it_manages_occupancy ::
    "('d \<Rightarrow> 'wk steal \<times> 'd) \<Rightarrow> 'w::len word \<Rightarrow> nat \<Rightarrow> 'd \<Rightarrow> (manage_error + nat) option" where
  "it_manages_occupancy steal N limit d =
     (case stack_queue_default None N d of
        None \<Rightarrow> None
      | Some q \<Rightarrow>
          (case manage_loop steal N limit q None 0 0 of
             None \<Rightarrow> None
           | Some (Inl e) \<Rightarrow> Some (Inl e)
           | Some (Inr (q', None, tot)) \<Rightarrow> Some (Inr tot)
           | Some (Inr (q', Some held, tot)) \<Rightarrow>
               (case sum_batch steal N held q' of
                  Inl e \<Rightarrow> Some (Inl (Fault e))
                | Inr (x, q'') \<Rightarrow> Some (Inr (tot + x)))))"

section \<open>The batch that is held\<close>

lemma drain_one_held:
  assumes "one_held t k a i q" "holds a batch" "i < 2 ^ 32" "6 \<le> k" "k < 32"
    and "fifo_deque dpush steal contents" "steal_progress steal retries"
  obtains q' where "drain_batch steal (2 ^ k) batch q = Inr (map t [a..<i], q')" "idle k i q'"
proof (rule bound_one_batch [OF assms(1,2,4,5)])
  fix ph
  let ?buf = "buffer (inner q)"
  let ?s = "(inner q)\<lparr>slot := mk_slot i (\<not> ph)\<rparr>"
  assume bounded: "into_bounded batch (inner q) = (bounds64 a i, ?s)" "own_slot q = mk_slot i ph"
    "occupied_by k {#region k a#} a ?s"
  have window: "a < i" "i \<le> a + 2 ^ k" using one_batch_window [OF assms(1)] by simp_all
  then have cycle: "same_cycle a i" using assms(3) by (simp add: same_cycle_def)
  have drain: "iter_drain (2 ^ k) (into_iter (bounds64 a i)) ?buf
      = Inr (map t [a..<i], iter64 a i i, clear_window (2 ^ k) a i ?buf)"
    unfolding into_iter_64 one_held_tasks(2) [OF assms(1), symmetric]
    using window one_batch_length [OF assms(1)] assms(5) cycle one_held_tasks(1) [OF assms(1)]
    by (intro iter_drain_64) simp_all
  obtain woken s' where s': "iter_deoccupy_buffer steal (2 ^ k) (iter64 a i i) (?s\<lparr>buffer := clear_window (2 ^ k) a i ?buf\<rparr>)
      = Inr (woken, s')"
    "batch_freed k contents a {#region k a#} ?s woken s'"
    using deoccupy_batch [OF bounded(3) assms(6,7), of i a] by (auto simp: iter_deoccupy_buffer_def)
  have "drain_batch steal (2 ^ k) batch q = Inr (map t [a..<i], q\<lparr>inner := s'\<rparr>)"
    using s'(1) by (simp add: drain_batch_def bounded drain)
  with freed_idle(1) [OF s'(2) bounded(2) one_batch_length [OF assms(1)]] show thesis by (rule that [rotated])
qed

lemma sum_one_held:
  assumes "one_held (\<lambda>j. j) k a i q" "holds a batch" "i < 2 ^ 32" "6 \<le> k" "k < 32"
    and "fifo_deque dpush steal contents" "steal_progress steal retries"
  obtains q' where "sum_batch steal (2 ^ k) batch q = Inr (\<Sum>{a..<i}, q')" "idle k i q'"
proof (rule drain_one_held [OF assms])
  have sum: "sum_list [a..<i] = \<Sum>{a..<i}" using sum.distinct_set_conv_list [of "[a..<i]" "\<lambda>x. x"] by simp
  fix q'
  assume "drain_batch steal (2 ^ k) batch q = Inr (map (\<lambda>j. j) [a..<i], q')" "idle k i q'"
  then show thesis by (intro that [of q']) (simp_all add: sum_batch_def sum)
qed

section \<open>The loop\<close>

lemma manage_one_held:
  assumes "one_held (\<lambda>j. j) k a i q" "holds a batch" "i \<le> limit" "limit < 2 ^ 32" "6 \<le> k" "k < 32"
    and "fifo_deque dpush steal contents" "steal_progress steal retries"
  shows "\<exists>q' a' batch'. manage_loop steal (2 ^ k) limit q (Some batch) i tot =
      Some (Inr (q', Some batch', tot + \<Sum>{a..<a'})) \<and> one_held (\<lambda>j. j) k a' limit q' \<and> holds a' batch' \<and> a \<le> a'"
  using assms(1-3)
proof (induction "limit - i" arbitrary: a i q batch tot)
  case 0
  then have "i = limit" by simp
  with 0 show ?case
    by (subst manage_loop.simps, intro exI [of _ q] exI [of _ a] exI [of _ batch]) simp
next
  case (Suc n)
  then have lt: "i < limit" and n: "n = limit - Suc i" by simp_all
  show ?case
    using Suc.prems(1) assms(5,6)
  proof (cases rule: push_one_held)
    case (joins q')
    from Suc.hyps(1) [OF n joins(2) Suc.prems(2), of tot] lt joins(1) show ?thesis
      by (subst manage_loop.simps) simp
  next
    case full
    obtain q2 where q2: "sum_batch steal (2 ^ k) batch q = Inr (\<Sum>{a..<i}, q2)" "idle k i q2"
      using sum_one_held [OF Suc.prems(1) Suc.prems(2) _ assms(5-8)] lt assms(4) by auto
    obtain q3 new where q3: "push (2 ^ k) i q2 = Inr (Inr (Some new), q3)" "holds i new" "one_held (\<lambda>j. j) k i (Suc i) q3"
      by (rule push_idle [OF q2(2) assms(5,6)])
    obtain q' a' batch' where rest: "manage_loop steal (2 ^ k) limit q3 (Some new) (Suc i) (tot + \<Sum>{a..<i}) =
        Some (Inr (q', Some batch', tot + \<Sum>{a..<i} + \<Sum>{i..<a'}))" "one_held (\<lambda>j. j) k a' limit q'" "holds a' batch'" "i \<le> a'"
      using Suc.hyps(1) [OF n q3(3,2)] lt by fastforce
    have "manage_loop steal (2 ^ k) limit q (Some batch) i tot = manage_loop steal (2 ^ k) limit q2 None i (tot + \<Sum>{a..<i})"
      using lt by (subst manage_loop.simps) (simp add: full(1) q2(1))
    also have "\<dots> = manage_loop steal (2 ^ k) limit q3 (Some new) (Suc i) (tot + \<Sum>{a..<i})"
      using lt by (subst manage_loop.simps) (simp add: q3(1) replace_batch_def)
    finally have run: "manage_loop steal (2 ^ k) limit q (Some batch) i tot =
        Some (Inr (q', Some batch', tot + \<Sum>{a..<i} + \<Sum>{i..<a'}))" using rest(1) by simp
    have "a < i" using Suc.prems(1) by (simp add: one_batch_def)
    then have "\<Sum>{a..<i} + \<Sum>{i..<a'} = \<Sum>{a..<a'}" using rest(4) by (intro sum.atLeastLessThan_concat) simp_all
    then show ?thesis using run rest(2-4) \<open>a < i\<close> by (intro exI [of _ q'] exI [of _ a'] exI [of _ batch']) simp
  qed
qed

text \<open>
  C24. The test holds: whatever number of tasks below \<open>2 ^ 32\<close> is pushed, so that the 32-bit counter does not
  wrap around, the loop ends, no push is refused while no batch is held, no access fails, and the sum
  over the batches is that of the tasks: none is lost, none counted twice. (The sum of fewer than
  \<open>2 ^ 32\<close> tasks fits a \<open>usize\<close>.)
\<close>

theorem manages_occupancy_ok:
  assumes "6 \<le> k" "k < 32" "limit < 2 ^ 32" "fifo_deque dpush steal contents" "steal_progress steal retries"
  shows "it_manages_occupancy steal (2 ^ k :: 64 word) limit d = Some (Inr (\<Sum>{0..<limit}))"
proof -
  obtain q where q: "stack_queue_default (None :: nat buffer_cell) (2 ^ k :: 64 word) d = Some q" "queue_at k 0 True False {#} q"
    using default_queue_at [OF assms(1,2), of "None :: nat buffer_cell" d] by blast
  then have none: "idle k 0 q" by (auto simp: idle_def intro: exI [of _ True])
  show ?thesis
  proof (cases "0 < limit")
    case True
    obtain q1 batch where q1: "push (2 ^ k) 0 q = Inr (Inr (Some batch), q1)" "holds 0 batch" "one_held (\<lambda>j. j) k 0 (Suc 0) q1"
      by (rule push_idle [OF none assms(1,2)])
    have "manage_loop steal (2 ^ k) limit q None 0 0 = manage_loop steal (2 ^ k) limit q1 (Some batch) (Suc 0) 0"
      using True by (subst manage_loop.simps) (simp add: q1(1) replace_batch_def)
    then obtain q' a' batch' where run: "manage_loop steal (2 ^ k) limit q None 0 0 = Some (Inr (q', Some batch', \<Sum>{0..<a'}))"
        "one_held (\<lambda>j. j) k a' limit q'" "holds a' batch'"
      using manage_one_held [OF q1(3,2) _ assms(3,1,2,4,5), of 0] True by auto
    obtain q'' where last: "sum_batch steal (2 ^ k) batch' q' = Inr (\<Sum>{a'..<limit}, q'')"
      using sum_one_held [OF run(2,3) assms(3,1,2,4,5)] by metis
    have "a' < limit" using run(2) by (simp add: one_batch_def)
    then have "\<Sum>{0..<a'} + \<Sum>{a'..<limit} = \<Sum>{0..<limit}" by (intro sum.atLeastLessThan_concat) simp_all
    then show ?thesis by (simp add: it_manages_occupancy_def q(1) run(1) last)
  next
    case False
    then show ?thesis by (simp add: it_manages_occupancy_def q(1) manage_loop.simps)
  qed
qed

text \<open>The numbers of the test: 256 tasks, 64 cells.\<close>

theorem manages_occupancy_ok_witness:
  "it_manages_occupancy list_steal (2 ^ 6 :: 64 word) 256 ([] :: string list) = Some (Inr 32640)"
proof -
  have "\<Sum>{0..<256} = (32640 :: nat)" by (simp add: Sum_Ico_nat)
  with manages_occupancy_ok [OF _ _ _ list_deque, of 6 256 "[]"] show ?thesis by simp
qed

section \<open>Tasks in the background\<close>

lemma auto_batch_joins:
  assumes "one_held t k 0 i q" "i \<le> n" "n \<le> 2 ^ k" "6 \<le> k" "k < 32"
  shows "\<exists>q'. auto_batch_each (2 ^ k) (map t [i..<n]) q = Inr ([], q') \<and> one_held t k 0 n q'"
  using assms(1,2)
proof (induction "n - i" arbitrary: i q)
  case 0
  then show ?case by simp
next
  case (Suc m)
  then have lt: "i < n" and m: "m = n - Suc i" by simp_all
  then have tasks: "map t [i..<n] = t i # map t [Suc i..<n]" by (simp add: upt_conv_Cons)
  show ?case
    using Suc.prems(1) assms(4,5)
  proof (cases rule: push_one_held)
    case (joins q')
    from Suc.hyps(1) [OF m joins(2)] lt joins(1) show ?thesis
      by (auto simp: tasks background_auto_batch_def background_process_def)
  next
    case full
    then have False using lt assms(3) by (simp add: block_start_def)
    then show ?thesis ..
  qed
qed

text \<open>Tasks that fit a new queue make one batch.\<close>

lemma auto_batch_one:
  assumes "6 \<le> k" "k < 32" "0 < n" "n \<le> 2 ^ k" "stack_queue_default None (2 ^ k :: 64 word) d = Some q0"
  obtains batch q where "auto_batch_each (2 ^ k) (map t [0..<n]) q0 = Inr ([BatchProcess batch], q)"
    "holds 0 batch" "one_held t k 0 n q"
proof -
  obtain q1 batch where q1: "push (2 ^ k) (t 0) q0 = Inr (Inr (Some batch), q1)" "holds 0 batch" "one_held t k 0 (Suc 0) q1"
    by (rule push_idle [OF default_queue_idle(1) [OF assms(1,2,5)] assms(1,2)])
  obtain q where q: "auto_batch_each (2 ^ k) (map t [Suc 0..<n]) q1 = Inr ([], q)" "one_held t k 0 n q"
    using auto_batch_joins [OF q1(3) _ assms(4,1,2)] assms(3) by auto
  have "map t [0..<n] = t 0 # map t [Suc 0..<n]" using assms(3) by (simp add: upt_conv_Cons)
  then have "auto_batch_each (2 ^ k) (map t [0..<n]) q0 = Inr ([BatchProcess batch], q)"
    using q1(1) q(1) by (simp add: background_auto_batch_def background_process_def)
  from that [OF this q1(2) q(2)] show ?thesis .
qed

text \<open>
  The tests of background queues hold for any number of tasks that fits the buffer: giving the
  tasks to \<open>auto_batch\<close> spawns the processing of one batch and nothing else, and that batch sends the
  number of each task on its own channel, in order; afterwards no batch is running, and the next task
  opens a new one.
\<close>

theorem background_tasks_all_sent:
  assumes "6 \<le> k" "k < 32" "0 < n" "n \<le> 2 ^ k" "fifo_deque dpush steal contents" "steal_progress steal retries"
    and "stack_queue_default None (2 ^ k :: 64 word) d = Some q0"
  shows "\<exists>batch q q'. auto_batch_each (2 ^ k) (map (\<lambda>i. (val i, tx i)) [0..<n]) q0 = Inr ([BatchProcess batch], q) \<and>
    echo_background_process steal (2 ^ k) batch q = Inr (map (\<lambda>i. (tx i, val i)) [0..<n], q') \<and>
    occupancy (inner q') = 0 \<and> (\<exists>op. own_slot q' = mk_slot n op \<and> slot (inner q') = mk_slot n (\<not> op))"
proof -
  let ?t = "\<lambda>i. (val i, tx i)"
  obtain batch q where q: "auto_batch_each (2 ^ k) (map ?t [0..<n]) q0 = Inr ([BatchProcess batch], q)"
    "holds 0 batch" "one_held ?t k 0 n q"
    by (rule auto_batch_one [OF assms(1-4,7)])
  have "(2::nat) ^ k \<le> 2 ^ 31" using assms(2) by (intro power_increasing) simp_all
  then have "n < 2 ^ 32" using assms(4) by simp
  then obtain q' where q': "drain_batch steal (2 ^ k) batch q = Inr (map ?t [0..<n], q')" "idle k n q'"
    by (rule drain_one_held [OF q(3,2) _ assms(1,2,5,6)])
  note q(1)
  moreover have "occupancy (inner q') = 0" "\<exists>op. own_slot q' = mk_slot n op \<and> slot (inner q') = mk_slot n (\<not> op)"
    using q'(2) by (auto simp: idle_def queue_at_def)
  ultimately show ?thesis using q'(1) by (simp add: echo_background_process_def comp_def)
qed

text \<open>The ten tasks of the test on a queue of 64 cells, each with its own channel.\<close>

theorem background_tasks_all_sent_witness:
  "\<exists>batch q q'. auto_batch_each (2 ^ 6) (map (\<lambda>i. (i, ''rx'')) [0..<10]) (fresh_queue None) = Inr ([BatchProcess batch], q) \<and>
    echo_background_process list_steal (2 ^ 6) batch q = Inr (map (\<lambda>i. (''rx'', i)) [0..<10], q')"
  using background_tasks_all_sent [OF _ _ _ _ list_deque fresh_queue_at(3), of 10 "\<lambda>i. i" "\<lambda>_. ''rx''"] by auto

section \<open>The program that cycles\<close>

text \<open>
  The loop over the tasks. The future of each round is a temporary at the same address, gone when
  the round is over.
\<close>

fun it_cycles ::
    "('d \<Rightarrow> 'wk \<Rightarrow> 'd) \<Rightarrow> ('d \<Rightarrow> 'wk steal \<times> 'd) \<Rightarrow> ('t \<Rightarrow> 'v) \<Rightarrow> 'w::len word \<Rightarrow> 'f \<Rightarrow> 'wk \<Rightarrow> 't list
      \<Rightarrow> ('w word, ('w word, 't, 'f) task_ref, 'd) stack_queue \<Rightarrow> ('w word, 't, 'v, 'wk, 'f) futures
      \<Rightarrow> (fault + 'v list \<times> ('w word, ('w word, 't, 'f) task_ref, 'd) stack_queue \<times> ('w word, 't, 'v, 'wk, 'f) futures) option" where
  "it_cycles dpush steal op N self waker [] q futs = Some (Inr ([], q, futs))"
| "it_cycles dpush steal op N self waker (task # tasks) q futs =
     (case await_task dpush (echo_batch_process steal op N) N self waker q (futs(self \<mapsto> task_queue_auto_batch task)) of
        None \<Rightarrow> None
      | Some (Inl e) \<Rightarrow> Some (Inl e)
      | Some (Inr (v, q1, futs1)) \<Rightarrow>
          (case it_cycles dpush steal op N self waker tasks q1 (futs1(self := None)) of
             Some (Inr (vs, q2, futs2)) \<Rightarrow> Some (Inr (v # vs, q2, futs2))
           | other \<Rightarrow> other))"

section \<open>All rounds\<close>

lemma cycles_from_idle:
  assumes "idle k c q" "6 \<le> k" "k < 32" "fifo_deque dpush steal contents" "steal_progress steal retries"
  shows "\<exists>q' futs'. it_cycles dpush steal op (2 ^ k) self waker tasks q futs = Some (Inr (map op tasks, q', futs')) \<and>
    idle k (c + length tasks) q' \<and> (\<forall>g. g \<noteq> self \<longrightarrow> futs' g = futs g)"
  using assms(1)
proof (induction tasks arbitrary: c q futs)
  case Nil
  then show ?case by simp
next
  case (Cons t ts)
  have env: "process_env k dpush steal contents retries" using assms(2-5) by (simp add: process_env_def)
  let ?futs = "futs(self \<mapsto> task_queue_auto_batch t)"
  have unbatched: "?futs self = Some (Unbatched t)" by (simp add: task_queue_auto_batch_def batched_task_new_def)
  obtain q1 futs1 where 1: "await_task dpush (echo_batch_process steal op (2 ^ k)) (2 ^ k) self waker q ?futs = Some (Inr (op t, q1, futs1))"
    "idle k (Suc c) q1" "\<forall>g. g \<noteq> self \<longrightarrow> futs1 g = ?futs g"
    by (rule mapping.await_idle [where futs = ?futs, OF env Cons.prems assms(2,3) unbatched])
  obtain q2 futs2 where 2: "it_cycles dpush steal op (2 ^ k) self waker ts q1 (futs1(self := None)) = Some (Inr (map op ts, q2, futs2))"
    "idle k (Suc c + length ts) q2" "\<forall>g. g \<noteq> self \<longrightarrow> futs2 g = (futs1(self := None)) g"
    using Cons.IH [OF 1(2)] by blast
  have "it_cycles dpush steal op (2 ^ k) self waker (t # ts) q futs = Some (Inr (map op (t # ts), q2, futs2))"
    by (simp add: 1(1) 2(1))
  then show ?case using 1(3) 2(2,3) by (intro exI [of _ q2] exI [of _ futs2]) simp
qed

text \<open>
  The test \<open>it_cycles\<close>, for any tasks: every task that is given to \<open>auto_batch\<close> and awaited
  resolves to its own value, in every one of any number of rounds (the 32-bit counter may wrap
  around); no access fails; the queue is never found full; and after it no batch is running.
\<close>

theorem cycles_return_values:
  assumes "6 \<le> k" "k < 32" "fifo_deque dpush steal contents" "steal_progress steal retries"
    and "stack_queue_default task_ref_new_uninit (2 ^ k :: 64 word) d = Some q"
  shows "\<exists>q' futs'. it_cycles dpush steal op (2 ^ k) self waker tasks q futs = Some (Inr (map op tasks, q', futs')) \<and>
    occupancy (inner q') = 0 \<and> (\<exists>p. slot (inner q') = mk_slot (length tasks) p)"
proof -
  have "queue_at k 0 True False {#} q" using default_queue_at [OF assms(1,2)] assms(5) by (metis option.inject)
  then have "idle k 0 q" by (auto simp: idle_def intro: exI [of _ True])
  from cycles_from_idle [OF this assms(1-4), of op self waker tasks futs]
  show ?thesis by (auto simp: idle_def queue_at_def)
qed

theorem cycles_return_values_witness:
  "\<exists>q' futs'. it_cycles list_push list_steal (\<lambda>val. val) (2 ^ 6) (0 :: nat) ''waker'' [0, 1, 2 :: nat]
      (fresh_queue task_ref_new_uninit) Map.empty = Some (Inr ([0, 1, 2], q', futs')) \<and> occupancy (inner q') = 0"
  using cycles_return_values [OF _ _ list_deque fresh_queue_at(3), of "\<lambda>val. val" 0 "''waker''" "[0, 1, 2 :: nat]" Map.empty]
  by (fastforce simp del: it_cycles.simps)

end
