(* ===== verification/Benchmarks.thy ===== *)
theory Benchmarks
  imports Programs
begin

unbundle bit_operations_syntax

text \<open>
  The benchmarks of \<open>crates/bencher/src/stack_queue.rs\<close>: \<open>bench_tasks\<close>, three loops that await one task
  after the other, each on a queue with its own \<open>batch_process\<close>, and the \<open>BackgroundTimerQueue\<close> of
  \<open>bench_batching\<close>. What clocks show is given from outside, and nothing is assumed about it.
\<close>

section \<open>Time\<close>

text \<open>
  Instants and durations in nanoseconds. \<open>duration_since\<close> is zero when the clock went backwards, and
  \<open>Duration::saturating_add\<close> stays at the greatest duration, \<open>u64::MAX\<close> seconds and 999,999,999 nanoseconds.
\<close>

type_synonym instant = nat
type_synonym duration = nat

definition DURATION_MAX :: duration where "DURATION_MAX = (2 ^ 64 - 1) * 10 ^ 9 + 999999999"

definition duration_since :: "instant \<Rightarrow> instant \<Rightarrow> duration" where
  "duration_since later earlier = later - earlier"

definition saturating_add :: "duration \<Rightarrow> duration \<Rightarrow> duration" where
  "saturating_add a b = min DURATION_MAX (a + b)"

section \<open>The queues\<close>

text \<open>What \<open>batch_process\<close> reads from the clock is its first arguments.\<close>

definition assignment_time_process ::
    "('d \<Rightarrow> 'wk steal \<times> 'd) \<Rightarrow> instant \<Rightarrow> instant \<Rightarrow> 'w::len word \<Rightarrow> 'w word pending_assignment
      \<Rightarrow> ('w word, ('w word, unit, 'f) task_ref, 'd) stack_queue \<Rightarrow> ('w word, unit, duration, 'wk, 'f) futures
      \<Rightarrow> fault + 'wk list \<times> ('w word, ('w word, unit, 'f) task_ref, 'd) stack_queue
           \<times> ('w word, unit, duration, 'wk, 'f) futures" where
  "assignment_time_process steal start end N = repeat_batch_process steal False (duration_since end start) N"

definition enqueue_time_process ::
    "('d \<Rightarrow> 'wk steal \<times> 'd) \<Rightarrow> instant \<Rightarrow> 'w::len word \<Rightarrow> 'w word pending_assignment
      \<Rightarrow> ('w word, ('w word, instant, 'f) task_ref, 'd) stack_queue \<Rightarrow> ('w word, instant, duration, 'wk, 'f) futures
      \<Rightarrow> fault + 'wk list \<times> ('w word, ('w word, instant, 'f) task_ref, 'd) stack_queue
           \<times> ('w word, instant, duration, 'wk, 'f) futures" where
  "enqueue_time_process steal batched_at N =
     echo_batch_process steal (\<lambda>enqueued_at. duration_since batched_at enqueued_at) N"

definition receive_time_process ::
    "('d \<Rightarrow> 'wk steal \<times> 'd) \<Rightarrow> instant \<Rightarrow> 'w::len word \<Rightarrow> 'w word pending_assignment
      \<Rightarrow> ('w word, ('w word, unit, 'f) task_ref, 'd) stack_queue \<Rightarrow> ('w word, unit, instant, 'wk, 'f) futures
      \<Rightarrow> fault + 'wk list \<times> ('w word, ('w word, unit, 'f) task_ref, 'd) stack_queue
           \<times> ('w word, unit, instant, 'wk, 'f) futures" where
  "receive_time_process steal batched_at N = repeat_batch_process steal False batched_at N"

section \<open>The loops\<close>

text \<open>
  \<open>iters\<close> rounds, each of which awaits a task and adds up what it measures. For every round there is
  what the clock shows during it.
\<close>

fun bench_rounds ::
    "('d \<Rightarrow> 'wk \<Rightarrow> 'd) \<Rightarrow> ('r \<Rightarrow> 'w word pending_assignment
        \<Rightarrow> ('w word, ('w word, 't, 'f) task_ref, 'd) stack_queue \<Rightarrow> ('w word, 't, 'v, 'wk, 'f) futures
        \<Rightarrow> fault + 'wk list \<times> ('w word, ('w word, 't, 'f) task_ref, 'd) stack_queue \<times> ('w word, 't, 'v, 'wk, 'f) futures)
      \<Rightarrow> ('r \<Rightarrow> 't) \<Rightarrow> ('r \<Rightarrow> 'v \<Rightarrow> duration) \<Rightarrow> 'w::len word \<Rightarrow> 'f \<Rightarrow> 'wk \<Rightarrow> duration \<Rightarrow> 'r list
      \<Rightarrow> ('w word, ('w word, 't, 'f) task_ref, 'd) stack_queue \<Rightarrow> ('w word, 't, 'v, 'wk, 'f) futures
      \<Rightarrow> (fault + duration \<times> ('w word, ('w word, 't, 'f) task_ref, 'd) stack_queue \<times> ('w word, 't, 'v, 'wk, 'f) futures) option" where
  "bench_rounds dpush process task measured N self waker acc [] q futs = Some (Inr (acc, q, futs))"
| "bench_rounds dpush process task measured N self waker acc (r # rounds) q futs =
     (case await_task dpush (process r) N self waker q (futs(self \<mapsto> task_queue_auto_batch (task r))) of
        None \<Rightarrow> None
      | Some (Inl e) \<Rightarrow> Some (Inl e)
      | Some (Inr (v, q1, futs1)) \<Rightarrow>
          bench_rounds dpush process task measured N self waker (saturating_add acc (measured r v)) rounds q1 (futs1(self := None)))"

text \<open>The benchmark \<open>enqueue\<close>: from giving the task to \<open>auto_batch\<close> to bounding its batch.\<close>

definition bench_enqueue ::
    "('d \<Rightarrow> 'wk \<Rightarrow> 'd) \<Rightarrow> ('d \<Rightarrow> 'wk steal \<times> 'd) \<Rightarrow> 'w::len word \<Rightarrow> 'f \<Rightarrow> 'wk \<Rightarrow> (instant \<times> instant) list
      \<Rightarrow> ('w word, ('w word, instant, 'f) task_ref, 'd) stack_queue \<Rightarrow> ('w word, instant, duration, 'wk, 'f) futures
      \<Rightarrow> (fault + duration \<times> ('w word, ('w word, instant, 'f) task_ref, 'd) stack_queue
            \<times> ('w word, instant, duration, 'wk, 'f) futures) option" where
  "bench_enqueue dpush steal N self waker =
     bench_rounds dpush (\<lambda>(enqueued_at, batched_at). enqueue_time_process steal batched_at N)
       (\<lambda>(enqueued_at, batched_at). enqueued_at) (\<lambda>_ value. value) N self waker 0"

text \<open>The benchmark \<open>into_assignment\<close>: how long \<open>into_assignment\<close> takes.\<close>

definition bench_into_assignment ::
    "('d \<Rightarrow> 'wk \<Rightarrow> 'd) \<Rightarrow> ('d \<Rightarrow> 'wk steal \<times> 'd) \<Rightarrow> 'w::len word \<Rightarrow> 'f \<Rightarrow> 'wk \<Rightarrow> (instant \<times> instant) list
      \<Rightarrow> ('w word, ('w word, unit, 'f) task_ref, 'd) stack_queue \<Rightarrow> ('w word, unit, duration, 'wk, 'f) futures
      \<Rightarrow> (fault + duration \<times> ('w word, ('w word, unit, 'f) task_ref, 'd) stack_queue
            \<times> ('w word, unit, duration, 'wk, 'f) futures) option" where
  "bench_into_assignment dpush steal N self waker =
     bench_rounds dpush (\<lambda>(start, end). assignment_time_process steal start end N)
       (\<lambda>_. ()) (\<lambda>_ value. value) N self waker 0"

text \<open>The benchmark \<open>receive value\<close>: from bounding the batch to the return of \<open>await\<close>.\<close>

definition bench_receive_value ::
    "('d \<Rightarrow> 'wk \<Rightarrow> 'd) \<Rightarrow> ('d \<Rightarrow> 'wk steal \<times> 'd) \<Rightarrow> 'w::len word \<Rightarrow> 'f \<Rightarrow> 'wk \<Rightarrow> (instant \<times> instant) list
      \<Rightarrow> ('w word, ('w word, unit, 'f) task_ref, 'd) stack_queue \<Rightarrow> ('w word, unit, instant, 'wk, 'f) futures
      \<Rightarrow> (fault + duration \<times> ('w word, ('w word, unit, 'f) task_ref, 'd) stack_queue
            \<times> ('w word, unit, instant, 'wk, 'f) futures) option" where
  "bench_receive_value dpush steal N self waker =
     bench_rounds dpush (\<lambda>(batched_at, received_at). receive_time_process steal batched_at N)
       (\<lambda>_. ()) (\<lambda>(batched_at, received_at) value. duration_since received_at value) N self waker 0"

lemma bench_loops:
  "bench_enqueue dpush steal N self waker =
    bench_rounds dpush (\<lambda>r. enqueue_time_process steal (snd r) N) fst (\<lambda>_ value. value) N self waker 0"
  "bench_into_assignment dpush steal N self waker =
    bench_rounds dpush (\<lambda>r. assignment_time_process steal (fst r) (snd r) N) (\<lambda>_. ()) (\<lambda>_ value. value) N self waker 0"
  "bench_receive_value dpush steal N self waker =
    bench_rounds dpush (\<lambda>r. receive_time_process steal (fst r) N) (\<lambda>_. ()) (\<lambda>r value. duration_since (snd r) value) N self waker 0"
  by (simp_all add: bench_enqueue_def bench_into_assignment_def bench_receive_value_def case_prod_beta')

lemma saturating_sum: "min DURATION_MAX (saturating_add a b + c) = min DURATION_MAX (a + (b + c))"
  by (simp add: saturating_add_def min_def)

text \<open>One lemma for all loops: the client of \<open>batch_processor\<close> with another implementation in each round.\<close>

lemma bench_rounds_total:
  assumes "\<And>r. batch_processor works k contents (op r) (process r)" works "idle k c q" "6 \<le> k" "k < 32" "acc \<le> DURATION_MAX"
  shows "\<exists>q' futs'. bench_rounds dpush process task measured (2 ^ k) self waker acc rounds q futs =
      Some (Inr (min DURATION_MAX (acc + (\<Sum>r\<leftarrow>rounds. measured r (op r (task r)))), q', futs')) \<and>
    idle k (c + length rounds) q'"
  using assms(3,6)
proof (induction rounds arbitrary: acc c q futs)
  case Nil
  then show ?case by simp
next
  case (Cons r rounds)
  let ?futs = "futs(self \<mapsto> task_queue_auto_batch (task r))"
  have unbatched: "?futs self = Some (Unbatched (task r))" by (simp add: task_queue_auto_batch_def batched_task_new_def)
  obtain q1 futs1 where 1: "await_task dpush (process r) (2 ^ k) self waker q ?futs = Some (Inr (op r (task r), q1, futs1))"
    "idle k (Suc c) q1"
    by (rule batch_processor.await_idle [where futs = ?futs, OF assms(1,2) Cons.prems(1) assms(4,5) unbatched])
  let ?acc = "saturating_add acc (measured r (op r (task r)))"
  have "?acc \<le> DURATION_MAX" by (simp add: saturating_add_def)
  from Cons.IH [OF 1(2) this, of "futs1(self := None)"] obtain q' futs' where
    "bench_rounds dpush process task measured (2 ^ k) self waker ?acc rounds q1 (futs1(self := None)) =
      Some (Inr (min DURATION_MAX (?acc + (\<Sum>r\<leftarrow>rounds. measured r (op r (task r)))), q', futs'))"
    "idle k (Suc c + length rounds) q'" by blast
  then show ?case
    by (intro exI [of _ q'] exI [of _ futs']) (simp add: 1(1) saturating_sum add.assoc)
qed

lemma bench_total:
  assumes "\<And>r. batch_processor works k contents (op r) (process r)" works "idle k c q" "6 \<le> k" "k < 32"
  shows "\<exists>rest. bench_rounds dpush process task measured (2 ^ k) self waker 0 rounds q futs =
    Some (Inr (min DURATION_MAX (\<Sum>r\<leftarrow>rounds. measured r (op r (task r))), rest))"
  using bench_rounds_total [where process = process and op = op and acc = 0, OF assms] by fastforce

text \<open>
  C25. The benchmarks of \<open>bench_tasks\<close>, for any number of rounds and whatever the clock shows: every
  round comes to its end without a fault, and the total returned is the sum of what the rounds measured, or
  the greatest duration if that is less.
\<close>

theorem bench_tasks_totals:
  assumes "6 \<le> k" "k < 32" "fifo_deque dpush steal contents" "steal_progress steal retries"
    and "stack_queue_default task_ref_new_uninit (2 ^ k :: 64 word) d = Some q"
    and "stack_queue_default task_ref_new_uninit (2 ^ k :: 64 word) d' = Some q'"
  shows "\<exists>r r' r''.
    bench_enqueue dpush steal (2 ^ k) self waker rounds q futs =
      Some (Inr (min DURATION_MAX (\<Sum>(enqueued_at, batched_at)\<leftarrow>rounds. batched_at - enqueued_at), r)) \<and>
    bench_into_assignment dpush steal (2 ^ k) self waker rounds q' futs' =
      Some (Inr (min DURATION_MAX (\<Sum>(start, end)\<leftarrow>rounds. end - start), r')) \<and>
    bench_receive_value dpush steal (2 ^ k) self waker rounds q' futs' =
      Some (Inr (min DURATION_MAX (\<Sum>(batched_at, received_at)\<leftarrow>rounds. received_at - batched_at), r''))"
proof -
  have env: "process_env k dpush steal contents retries" using assms(1-4) by (simp add: process_env_def)
  note q = default_queue_idle(1) [OF assms(1,2,5)] default_queue_idle(1) [OF assms(1,2,6)]
  let ?enqueue = "\<lambda>r. enqueue_time_process steal (snd r) (2 ^ k)"
    and ?assign = "\<lambda>r. assignment_time_process steal (fst r) (snd r) (2 ^ k)"
    and ?receive = "\<lambda>r. receive_time_process steal (fst r) (2 ^ k)"
  have enqueue: "batch_processor (process_env k dpush steal contents retries) k contents (\<lambda>t. duration_since (snd r) t) (?enqueue r)"
    for r :: "instant \<times> instant" unfolding enqueue_time_process_def by (rule mapping.batch_processor_axioms)
  have assign: "batch_processor (process_env k dpush steal contents retries) k contents (\<lambda>_. duration_since (snd r) (fst r)) (?assign r)"
    for r :: "instant \<times> instant" unfolding assignment_time_process_def by (rule repeating.batch_processor_axioms)
  have receive: "batch_processor (process_env k dpush steal contents retries) k contents (\<lambda>_. fst r) (?receive r)"
    for r :: "instant \<times> instant" unfolding receive_time_process_def by (rule repeating.batch_processor_axioms)
  have "\<exists>r. bench_enqueue dpush steal (2 ^ k) self waker rounds q futs =
      Some (Inr (min DURATION_MAX (\<Sum>(enqueued_at, batched_at)\<leftarrow>rounds. batched_at - enqueued_at), r))"
    unfolding bench_loops case_prod_beta duration_since_def
    by (rule bench_total [where process = ?enqueue and task = fst and measured = "\<lambda>_ value. value",
        OF enqueue env q(1) assms(1,2), unfolded duration_since_def])
  moreover have "\<exists>r. bench_into_assignment dpush steal (2 ^ k) self waker rounds q' futs' =
      Some (Inr (min DURATION_MAX (\<Sum>(start, end)\<leftarrow>rounds. end - start), r))"
    unfolding bench_loops case_prod_beta duration_since_def
    by (rule bench_total [where process = ?assign and task = "\<lambda>_. ()" and measured = "\<lambda>_ value. value",
        OF assign env q(2) assms(1,2), unfolded duration_since_def])
  moreover have "\<exists>r. bench_receive_value dpush steal (2 ^ k) self waker rounds q' futs' =
      Some (Inr (min DURATION_MAX (\<Sum>(batched_at, received_at)\<leftarrow>rounds. received_at - batched_at), r))"
    unfolding bench_loops case_prod_beta duration_since_def
    by (rule bench_total [where process = ?receive and task = "\<lambda>_. ()"
        and measured = "\<lambda>r value. duration_since (snd r) value", OF receive env q(2) assms(1,2), unfolded duration_since_def])
  ultimately show ?thesis by blast
qed

theorem bench_tasks_totals_witness:
  "\<exists>r. bench_enqueue list_push list_steal (2 ^ 6) (0 :: nat) ''waker'' [(100, 350), (400, 620), (700, 650)]
      (fresh_queue task_ref_new_uninit) Map.empty = Some (Inr (470, r))"
proof -
  have "min DURATION_MAX (\<Sum>(enqueued_at, batched_at)\<leftarrow>[(100, 350), (400, 620), (700, 650)]. batched_at - enqueued_at) = 470"
    by (simp add: DURATION_MAX_def)
  then show ?thesis
    using bench_tasks_totals [OF _ _ list_deque fresh_queue_at(3) fresh_queue_at(3), where self = "0 :: nat" and waker = "''waker''"
        and rounds = "[(100, 350), (400, 620), (700, 650)]" and futs = Map.empty and futs' = Map.empty] by fastforce
qed

section \<open>The queue with timers\<close>

text \<open>
  \<open>tasks.for_each(\<dots>)\<close> of \<open>BackgroundTimerQueue\<close>: each task, from the first on, is sent how long it waited
  on its own channel. \<open>received tx\<close> tells if the receiver of a channel is still there when its value is
  sent; if not, \<open>unwrap\<close> panics. The result is whether it came to the end, and what was sent. It stops at
  the latest after \<open>n\<close> tasks; a batch has at most \<open>2 ^ k\<close>.
\<close>

primrec send_each :: "nat \<Rightarrow> ('tx \<Rightarrow> bool) \<Rightarrow> instant \<Rightarrow> ('tx \<times> duration) list
    \<Rightarrow> (instant \<times> 'tx, bool \<times> ('tx \<times> duration) list) reducer" where
  "send_each 0 received collected_at sent = Finish (True, sent)"
| "send_each (Suc n) received collected_at sent =
     Next (\<lambda>task. case task of
         None \<Rightarrow> Finish (True, sent)
       | Some (enqueued_at, tx) \<Rightarrow>
           if received tx then send_each n received collected_at (sent @ [(tx, duration_since collected_at enqueued_at)])
           else Finish (False, sent))"

text \<open>
  \<open>batch_process\<close>: besides the result of \<open>for_each\<close>, the tasks that the destructor of the iterator dropped,
  when it ended or was unwound.
\<close>

definition timer_background_process ::
    "('d \<Rightarrow> 'wk steal \<times> 'd) \<Rightarrow> ('tx \<Rightarrow> bool) \<Rightarrow> instant \<Rightarrow> 'w::len word \<Rightarrow> 'w word unbounded_range
      \<Rightarrow> ('w word, (instant \<times> 'tx) buffer_cell, 'd) stack_queue
      \<Rightarrow> fault + (bool \<times> ('tx \<times> duration) list) \<times> (instant \<times> 'tx) list
           \<times> ('w word, (instant \<times> 'tx) buffer_cell, 'd) stack_queue" where
  "timer_background_process steal received collected_at N batch q =
     (let (br, s) = into_bounded batch (inner q) in
      bind_sum (run_reducer steal True N (send_each (unat N + 1) received collected_at []) (into_iter br) s)
        (\<lambda>(r, dropped, woken, s'). Inr (r, dropped, q\<lparr>inner := s'\<rparr>)))"

lemma sends_each:
  "length ts < n \<Longrightarrow> reduce_list (send_each n received now sent) ts =
    ((\<forall>(at, tx)\<in>set ts. received tx, sent @ map (\<lambda>(at, tx). (tx, now - at)) (takeWhile (received \<circ> snd) ts)),
     tl (dropWhile (received \<circ> snd) ts))"
proof (induction n arbitrary: ts sent)
  case (Suc n)
  then show ?case by (cases ts) (auto simp: duration_since_def)
qed simp

text \<open>A reducer run on the one batch there is.\<close>

lemma reduce_one_held:
  assumes "one_held t k a i q" "holds a batch" "i < 2 ^ 32" "6 \<le> k" "k < 32"
    and "fifo_deque dpush steal contents" "steal_progress steal retries"
  obtains woken s' where
    "(let (br, s) = into_bounded batch (inner q) in run_reducer steal True (2 ^ k) red (into_iter br) s) =
      Inr (fst (reduce_list red (map t [a..<i])), snd (reduce_list red (map t [a..<i])), woken, s')"
    "idle k i (q\<lparr>inner := s'\<rparr>)"
proof (rule bound_one_batch [OF assms(1,2,4,5)])
  fix ph
  let ?s = "(inner q)\<lparr>slot := mk_slot i (\<not> ph)\<rparr>"
  assume bounded: "into_bounded batch (inner q) = (bounds64 a i, ?s)" "own_slot q = mk_slot i ph"
    "occupied_by k {#region k a#} a ?s"
  have window: "a < i" "i \<le> a + 2 ^ k" using one_batch_window [OF assms(1)] by simp_all
  then have cycle: "same_cycle a i" "a \<le> i" using assms(3) by (simp_all add: same_cycle_def)
  have live: "window_live (2 ^ k) a i (buffer ?s)" using one_held_tasks(1) [OF assms(1)] by simp
  obtain r rest woken s' where run: "reduce_list red (map t [a..<i]) = (r, rest)"
    "run_reducer steal True (2 ^ k) red (iter64 a i a) ?s = Inr (r, rest, woken, s')"
    "batch_freed k contents a {#region k a#} ?s woken s'"
    using run_reducer_refines [OF bounded(3) order_refl cycle(2) window(2) live cycle(1) assms(6,7), of red True]
      one_held_tasks(2) [OF assms(1)] by auto
  show thesis
    by (rule that [OF _ freed_idle(1) [OF run(3) bounded(2) one_batch_length [OF assms(1)]]])
      (simp add: bounded(1) into_iter_64 run(1,2))
qed

text \<open>
  The benchmark gives \<open>n\<close> tasks to \<open>auto_batch\<close>, which makes one batch of them, and then drops all receivers but
  the first. Processed in time, the batch sends every task how long it waited; if the receiver of
  some task is gone, it panics there, and the tasks that follow are dropped. In either case the first task
  got its value, and the region is free.
\<close>

theorem timer_batch_sends:
  assumes "6 \<le> k" "k < 32" "0 < n" "n \<le> 2 ^ k" "fifo_deque dpush steal contents" "steal_progress steal retries"
    and "stack_queue_default None (2 ^ k :: 64 word) d = Some q0"
    and "m \<le> n" "\<forall>i<m. received (tx i)" "m < n \<longrightarrow> \<not> received (tx m)"
  shows "\<exists>batch q q'. auto_batch_each (2 ^ k) (map (\<lambda>i. (at i, tx i)) [0..<n]) q0 = Inr ([BatchProcess batch], q) \<and>
    timer_background_process steal received now (2 ^ k) batch q =
      Inr ((m = n, map (\<lambda>i. (tx i, now - at i)) [0..<m]), map (\<lambda>i. (at i, tx i)) [Suc m..<n], q') \<and>
    occupancy (inner q') = 0"
proof -
  let ?t = "\<lambda>i. (at i, tx i)"
  obtain batch q where q: "auto_batch_each (2 ^ k) (map ?t [0..<n]) q0 = Inr ([BatchProcess batch], q)"
    "holds 0 batch" "one_held ?t k 0 n q"
    by (rule auto_batch_one [OF assms(1-4,7)])
  have "(2::nat) ^ k \<le> 2 ^ 31" using assms(2) by (intro power_increasing) simp_all
  then have n: "n < 2 ^ 32" using assms(4) by simp
  have split: "map ?t [0..<n] = map ?t [0..<m] @ map ?t [m..<n]"
    using upt_add_eq_append [of 0 m "n - m"] assms(8) by simp
  have rest: "takeWhile (received \<circ> snd) (map ?t [m..<n]) = []" "dropWhile (received \<circ> snd) (map ?t [m..<n]) = map ?t [m..<n]"
    using assms(8,10) by (cases "m < n"; simp add: upt_conv_Cons)+
  have prefix: "takeWhile (received \<circ> snd) (map ?t [0..<n]) = map ?t [0..<m]"
    "dropWhile (received \<circ> snd) (map ?t [0..<n]) = map ?t [m..<n]"
    unfolding split using rest assms(9) by (auto simp: takeWhile_append dropWhile_append)
  have all: "(\<forall>(at, tx)\<in>set (map ?t [0..<n]). received tx) \<longleftrightarrow> m = n"
    using assms(8-10) by (auto simp: le_less)
  have "unat (2 ^ k :: 64 word) = 2 ^ k" using assms(2) by (simp add: unat_exp)
  then have "length (map ?t [0..<n]) < unat (2 ^ k :: 64 word) + 1" using assms(4) by simp
  note sent = sends_each [OF this, of received now "[]", unfolded prefix all]
  let ?red = "send_each (unat (2 ^ k :: 64 word) + 1) received now []"
  have result: "fst (reduce_list ?red (map ?t [0..<n])) = (m = n, map (\<lambda>i. (tx i, now - at i)) [0..<m])"
    "snd (reduce_list ?red (map ?t [0..<n])) = map ?t [Suc m..<n]"
    unfolding sent by (simp_all add: comp_def map_tl [symmetric])
  obtain woken s' where s': "(let (br, s) = into_bounded batch (inner q) in run_reducer steal True (2 ^ k) ?red (into_iter br) s) =
      Inr ((m = n, map (\<lambda>i. (tx i, now - at i)) [0..<m]), map ?t [Suc m..<n], woken, s')" "idle k n (q\<lparr>inner := s'\<rparr>)"
    by (rule reduce_one_held [where red = ?red, OF q(3,2) n assms(1,2,5,6), unfolded result])
  have "timer_background_process steal received now (2 ^ k) batch q =
      Inr ((m = n, map (\<lambda>i. (tx i, now - at i)) [0..<m]), map ?t [Suc m..<n], q\<lparr>inner := s'\<rparr>)"
    using s'(1) by (simp add: timer_background_process_def case_prod_beta Let_def)
  moreover have "occupancy s' = 0" using s'(2) by (auto simp: idle_def queue_at_def)
  ultimately show ?thesis using q(1) by auto
qed

text \<open>Ten tasks, whose receivers were dropped but for the first one.\<close>

theorem timer_batch_sends_witness:
  "\<exists>batch q q'. auto_batch_each (2 ^ 6) (map (\<lambda>i. (i, i)) [0..<10]) (fresh_queue None) = Inr ([BatchProcess batch], q) \<and>
    timer_background_process list_steal (\<lambda>tx. tx = 0) 30 (2 ^ 6) batch q =
      Inr ((False, [(0, 30)]), map (\<lambda>i. (i, i)) [2..<10], q')"
  using timer_batch_sends [OF _ _ _ _ list_deque fresh_queue_at(3), where n = 10 and m = 1 and received = "\<lambda>tx. tx = 0"
      and tx = "\<lambda>i. i" and at = "\<lambda>i. i" and now = 30] by (simp add: numeral_2_eq_2 [symmetric]) blast

end
