(* ===== verification/Executor.thy ===== *)
theory Executor
  imports OneBatch
begin

text \<open>
  The tests \<open>it_batch_collects\<close> and \<open>it_batch_reduces\<close> of \<open>queue.rs\<close>: any number of \<open>BatchCollect\<close> or
  \<open>BatchReduce\<close> futures on the queue of one thread, more than the buffer has cells, driven to their
  ends. An executor polls a future at first and whenever it was woken, and may take the woken futures
  in any order. What both kinds of futures do with the queue is the locale \<open>batch_future\<close>.
\<close>

section \<open>Running futures\<close>

text \<open>
  The queue, the futures, which of them are ready to be polled, and what they returned, in order. A
  waker is the number of its future. The function that polls a future is a parameter.
\<close>

record ('f, 'r, 't, 'd) executor =
  ex_queue :: "(64 word, 't buffer_cell, 'd) stack_queue"
  ex_futures :: "'f list"
  ex_ready :: "nat set"
  ex_results :: "(nat \<times> 'r option) list"

type_synonym ('f, 'r, 't, 'd) poll_fun =
  "nat \<Rightarrow> 'f \<Rightarrow> (64 word, 't buffer_cell, 'd) stack_queue
    \<Rightarrow> fault + 'r option poll \<times> 't list \<times> nat list \<times> 'f \<times> (64 word, 't buffer_cell, 'd) stack_queue"

definition executor_start ::
    "(64 word, 't buffer_cell, 'd) stack_queue \<Rightarrow> 'f list \<Rightarrow> ('f, 'r, 't, 'd) executor" where
  "executor_start q futs = \<lparr>ex_queue = q, ex_futures = futs, ex_ready = {..<length futs}, ex_results = []\<rparr>"

definition poll_ready :: "('f, 'r, 't, 'd) poll_fun \<Rightarrow> nat \<Rightarrow> ('f, 'r, 't, 'd) executor
    \<Rightarrow> fault + ('f, 'r, 't, 'd) executor" where
  "poll_ready poll i s =
     bind_sum (poll i (ex_futures s ! i) (ex_queue s)) (\<lambda>(r, dropped, woken, fut, q).
     Inr \<lparr>ex_queue = q, ex_futures = (ex_futures s)[i := fut], ex_ready = ex_ready s - {i} \<union> set woken,
          ex_results = (case r of Ready v \<Rightarrow> ex_results s @ [(i, v)] | Pending \<Rightarrow> ex_results s)\<rparr>)"

inductive executor_step :: "('f, 'r, 't, 'd) poll_fun \<Rightarrow> ('f, 'r, 't, 'd) executor \<Rightarrow> ('f, 'r, 't, 'd) executor \<Rightarrow> bool"
  for poll :: "('f, 'r, 't, 'd) poll_fun" where
  poll_woken: "i \<in> ex_ready s \<Longrightarrow> poll_ready poll i s = Inr s' \<Longrightarrow> executor_step poll s s'"

text \<open>The values that were returned, without the \<open>None\<close> of the futures whose tasks others took.\<close>

definition values_returned :: "(nat \<times> 'r option) list \<Rightarrow> 'r list" where
  "values_returned results = concat (map (\<lambda>(i, v). case v of None \<Rightarrow> [] | Some x \<Rightarrow> [x]) results)"

lemma values_returned_simps [simp]:
  "values_returned [] = []" "values_returned (rs @ [(i, None)]) = values_returned rs"
  "values_returned (rs @ [(i, Some v)]) = values_returned rs @ [v]"
  by (simp_all add: values_returned_def)

section \<open>The invariant\<close>

text \<open>What a future is about to do: push its task, collect the batch it holds, or nothing any more.\<close>

datatype 't future_view = Unpushed 't | Holding "64 word unbounded_range" | Returned

text \<open>
  \<open>pushed\<close> lists the futures whose tasks were pushed, in order. A future whose task was pushed has
  returned, or has the batch; every other one is ready or has its waker in the deque, once.
\<close>

definition futures_at :: "('f \<Rightarrow> 't future_view) \<Rightarrow> ('f \<Rightarrow> bool) \<Rightarrow> 't list \<Rightarrow> nat list \<Rightarrow> ('f, 'r, 't, 'd) executor \<Rightarrow> bool" where
  "futures_at view fits tasks pushed s \<longleftrightarrow>
     length (ex_futures s) = length tasks \<and> distinct pushed \<and> set pushed \<subseteq> {..<length tasks} \<and>
     (\<forall>i<length tasks. fits (ex_futures s ! i) \<and>
        (if i \<in> set pushed then (\<forall>t. view (ex_futures s ! i) \<noteq> Unpushed t)
         else view (ex_futures s ! i) = Unpushed (tasks ! i))) \<and>
     distinct (map fst (ex_results s)) \<and>
     set (map fst (ex_results s)) = {i. i < length tasks \<and> view (ex_futures s ! i) = Returned}"

definition wakers_at :: "('f \<Rightarrow> 't future_view) \<Rightarrow> nat \<Rightarrow> nat list \<Rightarrow> nat list \<Rightarrow> ('f, 'r, 't, 'd) executor \<Rightarrow> bool" where
  "wakers_at view n pushed parked s \<longleftrightarrow> distinct parked \<and> set parked \<inter> ex_ready s = {} \<and>
     (\<forall>i<n. i \<notin> set pushed \<longrightarrow> i \<in> ex_ready s \<or> i \<in> set parked) \<and>
     set parked \<subseteq> {..<n} - set pushed \<and> ex_ready s \<subseteq> {i. i < n \<and> view (ex_futures s ! i) \<noteq> Returned}"

text \<open>The values returned are those of batches that hold, in order, the tasks \<open>ts\<close>.\<close>

definition batches_summed :: "nat \<Rightarrow> ('t list \<Rightarrow> 'r) \<Rightarrow> 't list \<Rightarrow> (nat \<times> 'r option) list \<Rightarrow> bool" where
  "batches_summed k summary ts results \<longleftrightarrow> (\<exists>bs. values_returned results = map summary bs \<and> concat bs = ts \<and>
     (\<forall>b\<in>set bs. length b \<le> 2 ^ k))"

lemma batches_summed_None [simp]:
  "batches_summed k summary ts (rs @ [(i, None)]) \<longleftrightarrow> batches_summed k summary ts rs"
  by (simp add: batches_summed_def)

lemma batches_summed_Some:
  assumes "batches_summed k summary ts rs" "length b \<le> 2 ^ k"
  shows "batches_summed k summary (ts @ b) (rs @ [(i, Some (summary b))])"
  using assms unfolding batches_summed_def by (elim exE) (rule_tac x = "bs @ [b]" in exI, auto)

text \<open>
  No batch is running, and if wakers are parked then a future is ready whose task is not pushed
  yet; or one batch is running, that of the ready future \<open>h\<close>.
\<close>

definition executor_idle :: "('f \<Rightarrow> 't future_view) \<Rightarrow> ('t list \<Rightarrow> 'r) \<Rightarrow> nat \<Rightarrow> 't list \<Rightarrow> nat list \<Rightarrow> nat list
    \<Rightarrow> ('f, 'r, 't, 'd) executor \<Rightarrow> bool" where
  "executor_idle view summary k tasks pushed parked s \<longleftrightarrow> idle k (length pushed) (ex_queue s) \<and>
     (\<forall>i<length tasks. \<forall>b. view (ex_futures s ! i) \<noteq> Holding b) \<and>
     batches_summed k summary (map ((!) tasks) pushed) (ex_results s) \<and>
     (parked \<noteq> [] \<longrightarrow> (\<exists>i\<in>ex_ready s. i \<notin> set pushed))"

definition executor_held :: "('f \<Rightarrow> 't future_view) \<Rightarrow> ('t list \<Rightarrow> 'r) \<Rightarrow> nat \<Rightarrow> 't list \<Rightarrow> nat list \<Rightarrow> nat \<Rightarrow> nat
    \<Rightarrow> ('f, 'r, 't, 'd) executor \<Rightarrow> bool" where
  "executor_held view summary k tasks pushed a h s \<longleftrightarrow>
     one_held (\<lambda>j. tasks ! (pushed ! j)) k a (length pushed) (ex_queue s) \<and>
     h \<in> ex_ready s \<and> h < length tasks \<and> (\<exists>batch. view (ex_futures s ! h) = Holding batch \<and> holds a batch) \<and>
     (\<forall>i<length tasks. i \<noteq> h \<longrightarrow> (\<forall>b. view (ex_futures s ! i) \<noteq> Holding b)) \<and>
     batches_summed k summary (map ((!) tasks) (take a pushed)) (ex_results s)"

definition executor_inv :: "('f \<Rightarrow> 't future_view) \<Rightarrow> ('f \<Rightarrow> bool) \<Rightarrow> ('t list \<Rightarrow> 'r) \<Rightarrow> nat \<Rightarrow> ('d \<Rightarrow> nat list) \<Rightarrow> 't list
    \<Rightarrow> nat list \<Rightarrow> ('f, 'r, 't, 'd) executor \<Rightarrow> bool" where
  "executor_inv view fits summary k contents tasks pushed s \<longleftrightarrow> futures_at view fits tasks pushed s \<and>
     wakers_at view (length tasks) pushed (contents (stealer (inner (ex_queue s)))) s \<and>
     (executor_idle view summary k tasks pushed (contents (stealer (inner (ex_queue s)))) s \<or>
      (\<exists>a h. executor_held view summary k tasks pushed a h s))"

lemma executor_inv_start:
  assumes "idle k 0 q" "contents (stealer (inner q)) = []" "\<forall>t. fits (mk t) \<and> view (mk t) = Unpushed t"
  shows "executor_inv view fits summary k contents tasks [] (executor_start q (map mk tasks))"
  using assms
  by (auto simp: executor_inv_def executor_start_def futures_at_def wakers_at_def executor_idle_def batches_summed_def)

text \<open>The tasks pushed later do not matter to those pushed before.\<close>

lemma one_held_append:
  assumes "one_held (\<lambda>j. tasks ! (pushed ! j)) k a (length pushed) q"
  shows "one_held (\<lambda>j. tasks ! ((pushed @ [i]) ! j)) k a (length pushed) q"
  using assms by (auto simp: one_batch_def nth_append)

text \<open>
  What is left to do: a future is polled with an effect at most twice, and parked futures become
  ready only when another one returns.
\<close>

fun polls_left :: "'t future_view \<Rightarrow> nat" where
  "polls_left (Unpushed _) = 2"
| "polls_left (Holding _) = 1"
| "polls_left Returned = 0"

definition executor_left :: "('f \<Rightarrow> 't future_view) \<Rightarrow> ('f, 'r, 't, 'd) executor \<Rightarrow> nat" where
  "executor_left view s = Suc (length (ex_futures s)) * sum_list (map (polls_left \<circ> view) (ex_futures s)) + card (ex_ready s)"

lemma polls_left_update:
  assumes "i < length futs" "polls_left (view fut) < polls_left (view (futs ! i))"
  shows "sum_list (map (polls_left \<circ> view) (futs[i := fut])) < sum_list (map (polls_left \<circ> view) futs)"
proof -
  have "(polls_left \<circ> view) (futs ! i) \<le> sum_list (map (polls_left \<circ> view) futs)"
    using assms(1) by (intro member_le_sum_list) auto
  then show ?thesis
    using assms sum_list_update [of i "map (polls_left \<circ> view) futs" "polls_left (view fut)"] by (simp add: map_update)
qed

lemma executor_left_future:
  assumes "ex_futures s' = (ex_futures s)[i := fut]" "i < length (ex_futures s)"
    and "polls_left (view fut) < polls_left (view (ex_futures s ! i))" "ex_ready s' \<subseteq> {..<length (ex_futures s)}"
  shows "executor_left view s' < executor_left view s"
proof -
  let ?n = "length (ex_futures s)" and ?x = "\<lambda>s. sum_list (map (polls_left \<circ> view) (ex_futures s))"
  have "card (ex_ready s') \<le> ?n" using card_mono [OF _ assms(4)] by simp
  moreover have "Suc ?n * ?x s' + Suc ?n \<le> Suc ?n * ?x s"
    using polls_left_update [of i "ex_futures s" view fut, OF assms(2,3)] mult_le_mono2 [of "Suc (?x s')" "?x s" "Suc ?n"]
    by (simp add: assms(1))
  ultimately show ?thesis by (simp add: executor_left_def assms(1))
qed

section \<open>Futures that hold batches\<close>

text \<open>
  The contract: with its task unpushed, a future opens a batch and wakes itself, joins the running
  batch and returns nothing, or parks its waker because the queue is full; holding a batch, it
  returns the summary of all its tasks, drops the rest of them, releases the batch and wakes the
  oldest wakers.
\<close>

locale batch_future =
  fixes k :: nat and contents :: "'d \<Rightarrow> nat list" and poll :: "('f, 'r, 't, 'd) poll_fun"
    and view :: "'f \<Rightarrow> 't future_view" and fits :: "'f \<Rightarrow> bool" and summary :: "'t list \<Rightarrow> 'r" and rest :: "'t list \<Rightarrow> 't list"
    and small :: "nat \<Rightarrow> bool"
  assumes opens: "fits f \<Longrightarrow> view f = Unpushed (t i) \<Longrightarrow> idle k i q \<Longrightarrow>
      \<exists>q' f' batch. poll w f q = Inr (Pending, [], [w], f', q') \<and> fits f' \<and> view f' = Holding batch \<and> holds i batch \<and>
        one_held t k i (Suc i) q' \<and> stealer (inner q') = stealer (inner q)"
    and pushes: "fits f \<Longrightarrow> view f = Unpushed (t i) \<Longrightarrow> one_held t k a i q \<Longrightarrow>
      (\<exists>q' f'. poll w f q = Inr (Ready None, [], [], f', q') \<and> fits f' \<and> view f' = Returned \<and> one_held t k a (Suc i) q' \<and>
        stealer (inner q') = stealer (inner q)) \<or>
      (\<exists>q'. poll w f q = Inr (Pending, [], [], f, q') \<and> one_held t k a i q' \<and> i = region_start k a + 2 ^ k \<and>
        contents (stealer (inner q')) = contents (stealer (inner q)) @ [w])"
    and collects: "fits f \<Longrightarrow> view f = Holding batch \<Longrightarrow> holds a batch \<Longrightarrow> one_held t k a i q \<Longrightarrow> small i \<Longrightarrow>
      \<exists>q' f' woken. poll w f q = Inr (Ready (Some (summary (map t [a..<i]))), rest (map t [a..<i]), woken, f', q') \<and> fits f' \<and>
        view f' = Returned \<and> idle k i q' \<and> woken @ contents (stealer (inner q')) = contents (stealer (inner q)) \<and>
        length woken = min (2 ^ (k - 3)) (length (contents (stealer (inner q))))"
    and small_le: "small i \<Longrightarrow> j \<le> i \<Longrightarrow> small j"
begin

abbreviation inv :: "'t list \<Rightarrow> nat list \<Rightarrow> ('f, 'r, 't, 'd) executor \<Rightarrow> bool" where
  "inv \<equiv> executor_inv view fits summary k contents"

lemma inv_opens:
  assumes "inv tasks pushed s" "i \<in> ex_ready s" "i \<notin> set pushed"
    and "executor_idle view summary k tasks pushed (contents (stealer (inner (ex_queue s)))) s"
  obtains s' f batch where "poll_ready poll i s = Inr s'" "inv tasks (pushed @ [i]) s'"
    "ex_futures s' = (ex_futures s)[i := f]" "view f = Holding batch"
proof -
  let ?t = "\<lambda>j. tasks ! ((pushed @ [i]) ! j)"
  have f: "futures_at view fits tasks pushed s" and w: "wakers_at view (length tasks) pushed (contents (stealer (inner (ex_queue s)))) s"
    using assms(1) by (simp_all add: executor_inv_def)
  have i: "i < length tasks" using w assms(2) by (auto simp: wakers_at_def)
  then have fut: "fits (ex_futures s ! i)" "view (ex_futures s ! i) = Unpushed (?t (length pushed))"
    using f assms(3) by (simp_all add: futures_at_def)
  have idle: "idle k (length pushed) (ex_queue s)" using assms(4) by (simp add: executor_idle_def)
  obtain q' f' batch where q': "poll i (ex_futures s ! i) (ex_queue s) = Inr (Pending, [], [i], f', q')" "fits f'"
    "view f' = Holding batch" "holds (length pushed) batch" "one_held ?t k (length pushed) (Suc (length pushed)) q'"
    "stealer (inner q') = stealer (inner (ex_queue s))"
    using opens [where t = ?t, OF fut idle] by blast
  let ?s = "s\<lparr>ex_queue := q', ex_futures := (ex_futures s)[i := f']\<rparr>"
  have poll: "poll_ready poll i s = Inr ?s"
    by (simp add: poll_ready_def q'(1) insert_absorb assms(2))
  have len: "length (ex_futures s) = length tasks" using f by (simp add: futures_at_def)
  have "futures_at view fits tasks (pushed @ [i]) ?s"
    using f i assms(3) fut q'(2,3) by (auto simp: futures_at_def nth_list_update split: if_splits)
  moreover have "wakers_at view (length tasks) (pushed @ [i]) (contents (stealer (inner q'))) ?s"
    using w i assms(2) len q'(3) by (auto simp: wakers_at_def q'(6) nth_list_update)
  moreover have "executor_held view summary k tasks (pushed @ [i]) (length pushed) i ?s"
    using assms(2,4) i len q'(3-5) by (auto simp: executor_held_def executor_idle_def)
  ultimately have "inv tasks (pushed @ [i]) ?s" by (auto simp: executor_inv_def)
  from that [OF poll this _ q'(3)] show ?thesis by simp
qed

lemma inv_pushes:
  assumes "inv tasks pushed s" "i \<in> ex_ready s" "i \<notin> set pushed" "executor_held view summary k tasks pushed a h s"
  obtains (joins) s' f where "poll_ready poll i s = Inr s'" "inv tasks (pushed @ [i]) s'"
      "ex_futures s' = (ex_futures s)[i := f]" "view f = Returned"
  | (parks) s' where "poll_ready poll i s = Inr s'" "inv tasks pushed s'"
      "ex_futures s' = ex_futures s" "ex_ready s' = ex_ready s - {i}"
proof -
  let ?t = "\<lambda>j. tasks ! ((pushed @ [i]) ! j)"
  have f: "futures_at view fits tasks pushed s" and w: "wakers_at view (length tasks) pushed (contents (stealer (inner (ex_queue s)))) s"
    using assms(1) by (simp_all add: executor_inv_def)
  have i: "i < length tasks" using w assms(2) by (auto simp: wakers_at_def)
  then have fut: "fits (ex_futures s ! i)" "view (ex_futures s ! i) = Unpushed (?t (length pushed))"
    using f assms(3) by (simp_all add: futures_at_def)
  have len: "length (ex_futures s) = length tasks" using f by (simp add: futures_at_def)
  have "i \<noteq> h" using assms(4) fut by (auto simp: executor_held_def)
  have "one_held ?t k a (length pushed) (ex_queue s)"
    using assms(4) by (intro one_held_append) (simp add: executor_held_def)
  from pushes [where t = ?t, OF fut this, of i]
  consider q' f' where "poll i (ex_futures s ! i) (ex_queue s) = Inr (Ready None, [], [], f', q')" "fits f'" "view f' = Returned"
      "one_held ?t k a (Suc (length pushed)) q'" "stealer (inner q') = stealer (inner (ex_queue s))"
    | q' where "poll i (ex_futures s ! i) (ex_queue s) = Inr (Pending, [], [], ex_futures s ! i, q')"
      "one_held ?t k a (length pushed) q'" "contents (stealer (inner q')) = contents (stealer (inner (ex_queue s))) @ [i]"
    by blast
  then show ?thesis
  proof cases
    case 1
    let ?s = "s\<lparr>ex_queue := q', ex_futures := (ex_futures s)[i := f'], ex_ready := ex_ready s - {i},
        ex_results := ex_results s @ [(i, None)]\<rparr>"
    have poll: "poll_ready poll i s = Inr ?s" using 1(1) by (simp add: poll_ready_def)
    have "i \<notin> fst ` set (ex_results s)" using f fut by (auto simp: futures_at_def)
    then have "futures_at view fits tasks (pushed @ [i]) ?s"
      using f i assms(3) 1(2,3) by (auto simp: futures_at_def nth_list_update split: if_splits)
    moreover have "wakers_at view (length tasks) (pushed @ [i]) (contents (stealer (inner q'))) ?s"
      using w i assms(2) len by (auto simp: wakers_at_def 1(5) nth_list_update)
    moreover have "a < length pushed" using assms(4) by (simp add: executor_held_def one_batch_def)
    then have "executor_held view summary k tasks (pushed @ [i]) a h ?s"
      using assms(4) i len \<open>i \<noteq> h\<close> 1(3,4) by (auto simp: executor_held_def nth_list_update)
    ultimately have "inv tasks (pushed @ [i]) ?s" by (auto simp: executor_inv_def)
    from joins [OF poll this _ 1(3)] show ?thesis by simp
  next
    case 2
    let ?s = "s\<lparr>ex_queue := q', ex_ready := ex_ready s - {i}\<rparr>"
    have poll: "poll_ready poll i s = Inr ?s" using 2(1) by (simp add: poll_ready_def)
    have "futures_at view fits tasks pushed ?s" using f by (simp add: futures_at_def)
    moreover have "wakers_at view (length tasks) pushed (contents (stealer (inner q'))) ?s"
      unfolding 2(3) using w i assms(2,3) by (auto simp: wakers_at_def)
    moreover have "one_held (\<lambda>j. tasks ! (pushed ! j)) k a (length pushed) q'"
      using 2(2) by (auto simp: one_batch_def nth_append)
    then have "executor_held view summary k tasks pushed a h ?s"
      using assms(4) \<open>i \<noteq> h\<close> by (auto simp: executor_held_def)
    ultimately have "inv tasks pushed ?s" by (auto simp: executor_inv_def)
    from parks [OF poll this] show ?thesis by simp
  qed
qed

lemma inv_collects:
  assumes "inv tasks pushed s" "i \<in> ex_ready s" "i \<in> set pushed" "small (length tasks)"
  obtains s' f batch where "poll_ready poll i s = Inr s'" "inv tasks pushed s'" "view (ex_futures s ! i) = Holding batch"
    "ex_futures s' = (ex_futures s)[i := f]" "view f = Returned"
proof -
  let ?parked = "contents (stealer (inner (ex_queue s)))"
  have f: "futures_at view fits tasks pushed s" and w: "wakers_at view (length tasks) pushed ?parked s"
    using assms(1) by (simp_all add: executor_inv_def)
  have len: "length (ex_futures s) = length tasks" using f by (simp add: futures_at_def)
  have i: "i < length tasks" and "view (ex_futures s ! i) \<noteq> Returned" using w assms(2) by (auto simp: wakers_at_def)
  then obtain batch where batch: "view (ex_futures s ! i) = Holding batch"
    using f assms(3) by (cases "view (ex_futures s ! i)") (auto simp: futures_at_def)
  then obtain a h where h: "executor_held view summary k tasks pushed a h s"
    using assms(1) i by (auto simp: executor_inv_def executor_idle_def)
  then have "h = i" using batch i by (auto simp: executor_held_def)
  with h have held: "executor_held view summary k tasks pushed a i s" by simp
  let ?t = "\<lambda>j. tasks ! (pushed ! j)"
  let ?ts = "map ?t [a..<length pushed]"
  have one: "one_held ?t k a (length pushed) (ex_queue s)" "holds a batch"
    using held batch by (auto simp: executor_held_def)
  have "length pushed = card (set pushed)" using f by (simp add: futures_at_def distinct_card)
  also have "\<dots> \<le> card {..<length tasks}" using f by (intro card_mono) (simp_all add: futures_at_def)
  finally have small: "small (length pushed)" using small_le [OF assms(4)] by simp
  have fit: "fits (ex_futures s ! i)" using f i by (simp add: futures_at_def)
  obtain q' f' woken where poll: "poll i (ex_futures s ! i) (ex_queue s) = Inr (Ready (Some (summary ?ts)), rest ?ts, woken, f', q')"
    and f': "fits f'" "view f' = Returned" and q': "idle k (length pushed) q'" "woken @ contents (stealer (inner q')) = ?parked"
      "length woken = min (2 ^ (k - 3)) (length ?parked)"
    using collects [OF fit batch one(2,1) small, of i] by blast
  let ?s = "s\<lparr>ex_queue := q', ex_futures := (ex_futures s)[i := f'], ex_ready := ex_ready s - {i} \<union> set woken,
      ex_results := ex_results s @ [(i, Some (summary ?ts))]\<rparr>"
  have polled: "poll_ready poll i s = Inr ?s" by (simp add: poll_ready_def poll)
  have "i \<notin> fst ` set (ex_results s)" using f batch by (auto simp: futures_at_def)
  then have "futures_at view fits tasks pushed ?s"
    using f i assms(3) f' by (auto simp: futures_at_def nth_list_update split: if_splits)
  moreover have "wakers_at view (length tasks) pushed (contents (stealer (inner q'))) ?s"
  proof -
    have split: "set ?parked = set woken \<union> set (contents (stealer (inner q')))"
      "distinct woken" "distinct (contents (stealer (inner q')))" "set woken \<inter> set (contents (stealer (inner q'))) = {}"
      using w unfolding q'(2) [symmetric] by (auto simp: wakers_at_def)
    have "j \<notin> set pushed \<and> j < length tasks" if "j \<in> set woken" for j
      using w that split(1) by (auto simp: wakers_at_def)
    then have "view ((ex_futures s)[i := f'] ! j) \<noteq> Returned" if "j \<in> set woken" for j
      using f that assms(3) by (cases "j = i") (fastforce simp: futures_at_def)+
    then show ?thesis
      using w split assms(3) len by (auto simp: wakers_at_def nth_list_update)
  qed
  moreover have "batches_summed k summary (map ((!) tasks) pushed) (ex_results ?s)"
  proof -
    have "region_start k a \<le> a" by (rule block_start_le)
    moreover have "length pushed \<le> region_start k a + 2 ^ k" using one(1) by (simp add: one_batch_def)
    ultimately have "length ?ts \<le> 2 ^ k" by simp
    moreover have "?ts = map ((!) tasks) (drop a pushed)" by (intro nth_equalityI) simp_all
    then have "map ((!) tasks) pushed = map ((!) tasks) (take a pushed) @ ?ts" by (simp flip: map_append)
    ultimately show ?thesis
      using held batches_summed_Some [of k summary "map ((!) tasks) (take a pushed)" "ex_results s" ?ts i]
      by (simp add: executor_held_def)
  qed
  moreover have "\<exists>i\<in>ex_ready ?s. i \<notin> set pushed" if "contents (stealer (inner q')) \<noteq> []"
  proof -
    have "?parked \<noteq> []" using that q'(2) by auto
    then have "0 < length woken" unfolding q'(3) by simp
    then have "woken \<noteq> []" by simp
    then have "hd woken \<in> set woken" by simp
    then have "hd woken \<in> ex_ready ?s" "hd woken \<in> set ?parked" unfolding q'(2) [symmetric] by simp_all
    moreover have "hd woken \<notin> set pushed" using w calculation(2) by (auto simp: wakers_at_def)
    ultimately show ?thesis by blast
  qed
  ultimately have "inv tasks pushed ?s"
    using held q'(1) len i f'(2) by (auto simp: executor_inv_def executor_idle_def executor_held_def nth_list_update)
  from that [OF polled this batch _ f'(2)] show ?thesis by simp
qed

lemma inv_step:
  assumes "inv tasks pushed s" "i \<in> ex_ready s" "small (length tasks)"
  obtains s' pushed' where "poll_ready poll i s = Inr s'" "inv tasks pushed' s'" "executor_left view s' < executor_left view s"
proof -
  have f: "length (ex_futures s) = length tasks" and i: "i < length tasks" and fin: "finite (ex_ready s)"
    using assms(1,2) by (auto simp: executor_inv_def futures_at_def wakers_at_def intro: finite_subset)
  have ready: "ex_ready s' \<subseteq> {..<length (ex_futures s)}" if "inv tasks pushed' s'" for pushed' s'
    using that f by (auto simp: executor_inv_def wakers_at_def)
  show ?thesis
  proof (cases "i \<in> set pushed")
    case True
    show ?thesis
    proof (rule inv_collects [OF assms(1,2) True assms(3)])
      fix s' f batch
      assume s': "poll_ready poll i s = Inr s'" "inv tasks pushed s'" "view (ex_futures s ! i) = Holding batch"
        "ex_futures s' = (ex_futures s)[i := f]" "view f = Returned"
      from that [OF s'(1,2)] show ?thesis
        using executor_left_future [OF s'(4)] s'(3,5) ready [OF s'(2)] i \<open>length (ex_futures s) = length tasks\<close> by simp
    qed
  next
    case False
    then have fut: "view (ex_futures s ! i) = Unpushed (tasks ! i)"
      using assms(1) i by (simp add: executor_inv_def futures_at_def)
    consider "executor_idle view summary k tasks pushed (contents (stealer (inner (ex_queue s)))) s"
      | a h where "executor_held view summary k tasks pushed a h s" using assms(1) by (auto simp: executor_inv_def)
    then show ?thesis
    proof cases
      case 1
      show ?thesis
      proof (rule inv_opens [OF assms(1,2) False 1])
        fix s' f batch
        assume s': "poll_ready poll i s = Inr s'" "inv tasks (pushed @ [i]) s'"
          "ex_futures s' = (ex_futures s)[i := f]" "view f = Holding batch"
        from that [OF s'(1,2)] show ?thesis
          using executor_left_future [OF s'(3)] s'(4) fut ready [OF s'(2)] i \<open>length (ex_futures s) = length tasks\<close> by simp
      qed
    next
      case 2
      show ?thesis
        using assms(1,2) False 2
      proof (cases rule: inv_pushes)
        case (joins s' f)
        from that [OF joins(1,2)] show ?thesis
          using executor_left_future [OF joins(3)] joins(4) fut ready [OF joins(2)] i \<open>length (ex_futures s) = length tasks\<close>
          by simp
      next
        case (parks s')
        have "card (ex_ready s - {i}) < card (ex_ready s)" using assms(2) fin by (rule card_Diff1_less [rotated])
        then have "executor_left view s' < executor_left view s" unfolding executor_left_def parks(3,4) by simp
        then show ?thesis using parks(1,2) by (rule that [rotated 2])
      qed
    qed
  qed
qed

lemma inv_run:
  assumes "(executor_step poll ^^ m) s0 s" "inv tasks pushed s0" "small (length tasks)"
  obtains pushed' where "inv tasks pushed' s" "executor_left view s + m \<le> executor_left view s0"
  using assms(1)
proof (induction m arbitrary: s thesis)
  case 0
  then show ?case using assms(2) by auto
next
  case (Suc m)
  then obtain s1 where s1: "(executor_step poll ^^ m) s0 s1" "executor_step poll s1 s" by auto
  obtain pushed1 where p1: "inv tasks pushed1 s1" "executor_left view s1 + m \<le> executor_left view s0"
    by (rule Suc.IH [OF _ s1(1)])
  from s1(2) obtain i where i: "i \<in> ex_ready s1" "poll_ready poll i s1 = Inr s"
    by (cases rule: executor_step.cases)
  obtain s' pushed' where "poll_ready poll i s1 = Inr s'" "inv tasks pushed' s'" "executor_left view s' < executor_left view s1"
    by (rule inv_step [OF p1(1) i(1) assms(3)])
  then show ?case using i(2) p1(2) by (intro Suc.prems(1) [of pushed']) simp_all
qed

text \<open>When no future is ready, all have returned, and the batches they returned hold all tasks.\<close>

lemma inv_finished:
  assumes "inv tasks pushed s" "ex_ready s = {}"
  shows "mset (map fst (ex_results s)) = mset [0..<length tasks]"
    and "\<exists>ts. mset ts = mset tasks \<and> batches_summed k summary ts (ex_results s)"
proof -
  let ?parked = "contents (stealer (inner (ex_queue s)))"
  have f: "futures_at view fits tasks pushed s" and w: "wakers_at view (length tasks) pushed ?parked s"
    using assms(1) by (simp_all add: executor_inv_def)
  have idle: "executor_idle view summary k tasks pushed ?parked s"
    using assms by (auto simp: executor_inv_def executor_held_def)
  then have "?parked = []" using assms(2) by (auto simp: executor_idle_def)
  then have "i \<in> set pushed" if "i < length tasks" for i
    using w assms(2) that by (auto simp: wakers_at_def)
  moreover have "set pushed \<subseteq> {..<length tasks}" using f by (simp add: futures_at_def)
  ultimately have all: "set pushed = set [0..<length tasks]" by auto
  have pushed: "mset pushed = mset [0..<length tasks]"
    using all f set_eq_iff_mset_eq_distinct [of pushed "[0..<length tasks]"] by (simp add: futures_at_def)
  have others: "\<forall>i<length tasks. \<forall>t. view (ex_futures s ! i) \<noteq> Unpushed t"
    using all f by (simp add: futures_at_def)
  have "view (ex_futures s ! i) = Returned" if "i < length tasks" for i
    using that others idle by (cases "view (ex_futures s ! i)") (auto simp: executor_idle_def)
  then have "set (map fst (ex_results s)) = set [0..<length tasks]" using f by (auto simp: futures_at_def)
  then show "mset (map fst (ex_results s)) = mset [0..<length tasks]"
    using f set_eq_iff_mset_eq_distinct [of "map fst (ex_results s)" "[0..<length tasks]"] by (simp add: futures_at_def)
  have "mset (map ((!) tasks) pushed) = image_mset ((!) tasks) (mset [0..<length tasks])"
    by (simp only: mset_map pushed)
  also have "\<dots> = mset tasks" using map_nth [of tasks] by (metis mset_map)
  finally show "\<exists>ts. mset ts = mset tasks \<and> batches_summed k summary ts (ex_results s)"
    using idle by (intro exI [of _ "map ((!) tasks) pushed"]) (simp add: executor_idle_def)
qed

text \<open>All of it: no fault, boundedly many polls, and at the end all tasks.\<close>

lemma completes:
  assumes "\<forall>t. fits (mk t) \<and> view (mk t) = Unpushed t" "idle k 0 q" "contents (stealer (inner q)) = []"
    and "(executor_step poll ^^ m) (executor_start q (map mk tasks)) s" "small (length tasks)"
  shows "m \<le> 2 * length tasks * Suc (length tasks) + length tasks"
    and "i \<in> ex_ready s \<Longrightarrow> \<exists>s'. poll_ready poll i s = Inr s'"
    and "ex_ready s = {} \<Longrightarrow> mset (map fst (ex_results s)) = mset [0..<length tasks] \<and>
      (\<exists>ts. mset ts = mset tasks \<and> batches_summed k summary ts (ex_results s))"
proof -
  let ?start = "executor_start q (map mk tasks) :: ('f, 'r, 't, 'd) executor"
  have start: "inv tasks [] ?start" using assms(1-3) by (intro executor_inv_start) simp_all
  obtain pushed where inv: "inv tasks pushed s" "executor_left view s + m \<le> executor_left view ?start"
    by (rule inv_run [OF assms(4) start assms(5)])
  have "sum_list (map (polls_left \<circ> view) (ex_futures ?start)) = 2 * length tasks"
    unfolding executor_start_def using assms(1) by (induction tasks) simp_all
  moreover have "length (ex_futures ?start) = length tasks" "card (ex_ready ?start) = length tasks"
    by (simp_all add: executor_start_def)
  ultimately have "executor_left view ?start = 2 * length tasks * Suc (length tasks) + length tasks"
    unfolding executor_left_def by simp
  then show "m \<le> 2 * length tasks * Suc (length tasks) + length tasks" using inv(2) by simp
  show "\<exists>s'. poll_ready poll i s = Inr s'" if "i \<in> ex_ready s"
    by (rule inv_step [OF inv(1) that assms(5)]) blast
  show "mset (map fst (ex_results s)) = mset [0..<length tasks] \<and>
      (\<exists>ts. mset ts = mset tasks \<and> batches_summed k summary ts (ex_results s))" if "ex_ready s = {}"
    using inv_finished [OF inv(1) that] by simp
qed

lemma runs_to_end:
  assumes "inv tasks pushed s" "small (length tasks)"
  shows "\<exists>m s'. (executor_step poll ^^ m) s s' \<and> ex_ready s' = {}"
  using assms(1)
proof (induction "executor_left view s" arbitrary: s pushed rule: less_induct)
  case less
  show ?case
  proof (cases "ex_ready s = {}")
    case True
    then show ?thesis by (intro exI [of _ 0]) auto
  next
    case False
    then obtain i where i: "i \<in> ex_ready s" by auto
    obtain s1 pushed1 where s1: "poll_ready poll i s = Inr s1" "inv tasks pushed1 s1"
      "executor_left view s1 < executor_left view s"
      by (rule inv_step [OF less.prems i assms(2)])
    from less.hyps [OF s1(3,2)] obtain m s' where "(executor_step poll ^^ m) s1 s'" "ex_ready s' = {}" by blast
    moreover have "executor_step poll s s1" using i s1(1) by (rule poll_woken)
    ultimately show ?thesis by (metis relpowp_Suc_I2)
  qed
qed

end

section \<open>BatchCollect and BatchReduce\<close>

text \<open>Both polled on the one thread there is.\<close>

definition collect_fun :: "('d \<Rightarrow> nat \<Rightarrow> 'd) \<Rightarrow> ('d \<Rightarrow> nat steal \<times> 'd) \<Rightarrow> 64 word
    \<Rightarrow> ((unit, 64 word, 't) batch_collect, 't list, 't, 'd) poll_fun" where
  "collect_fun dpush steal N waker fut q =
     bind_sum (batch_collect_poll dpush steal N () waker fut (\<lambda>_. q)) (\<lambda>(r, woken, fut', queues).
     Inr (r, [], woken, fut', queues ()))"

definition reduce_fun :: "('d \<Rightarrow> nat \<Rightarrow> 'd) \<Rightarrow> ('d \<Rightarrow> nat steal \<times> 'd) \<Rightarrow> bool \<Rightarrow> 64 word
    \<Rightarrow> ((unit, 64 word, 't, 'r) batch_reduce, 'r, 't, 'd) poll_fun" where
  "reduce_fun dpush steal drops N waker fut q =
     bind_sum (batch_reduce_poll dpush steal drops N () waker fut (\<lambda>_. q)) (\<lambda>(r, dropped, woken, fut', queues).
     Inr (r, dropped, woken, fut', queues ()))"

fun collect_view :: "(unit, 64 word, 't) batch_collect \<Rightarrow> 't future_view" where
  "collect_view (CollectUnbatched t) = Unpushed t"
| "collect_view (CollectCollecting home batch) = Holding batch"
| "collect_view CollectBatched = Returned"

fun reduce_view :: "(unit, 64 word, 't, 'r) batch_reduce \<Rightarrow> 't future_view" where
  "reduce_view (ReduceUnbatched t red) = Unpushed t"
| "reduce_view (ReduceCollecting home batch red) = Holding batch"
| "reduce_view ReduceBatched = Returned"

fun reduces_with :: "('t, 'r) reducer \<Rightarrow> (unit, 64 word, 't, 'r) batch_reduce \<Rightarrow> bool" where
  "reduces_with red (ReduceUnbatched t red') \<longleftrightarrow> red' = red"
| "reduces_with red (ReduceCollecting home batch red') \<longleftrightarrow> red' = red"
| "reduces_with red ReduceBatched \<longleftrightarrow> True"

text \<open>What the queue needs: a size that construction accepts, and the deque of wakers.\<close>

definition batch_env :: "nat \<Rightarrow> ('d \<Rightarrow> nat \<Rightarrow> 'd) \<Rightarrow> ('d \<Rightarrow> nat steal \<times> 'd) \<Rightarrow> ('d \<Rightarrow> nat list) \<Rightarrow> ('d \<Rightarrow> nat) \<Rightarrow> bool" where
  "batch_env k dpush steal contents retries \<longleftrightarrow>
     6 \<le> k \<and> k < 32 \<and> fifo_deque dpush steal contents \<and> steal_progress steal retries"

lemma collect_opens:
  assumes "batch_env k dpush steal contents retries" "collect_view f = Unpushed (t i)" "idle k i q"
  shows "\<exists>q' f' batch. collect_fun dpush steal (2 ^ k) w f q = Inr (Pending, [], [w], f', q') \<and> collect_view f' = Holding batch \<and>
    holds i batch \<and> one_held t k i (Suc i) q' \<and> stealer (inner q') = stealer (inner q)"
proof -
  have f: "f = CollectUnbatched (t i)" using assms(2) by (cases f) simp_all
  have k: "6 \<le> k" "k < 32" using assms(1) by (simp_all add: batch_env_def)
  obtain q' batch where "push (2 ^ k) (t i) q = Inr (Inr (Some batch), q')" "holds i batch" "one_held t k i (Suc i) q'"
    "stealer (inner q') = stealer (inner q)" by (rule push_idle [OF assms(3) k])
  then show ?thesis by (auto simp: collect_fun_def batch_collect_poll_def f)
qed

lemma collect_pushes:
  assumes "batch_env k dpush steal contents retries" "collect_view f = Unpushed (t i)" "one_held t k a i q"
  shows "(\<exists>q' f'. collect_fun dpush steal (2 ^ k) w f q = Inr (Ready None, [], [], f', q') \<and> collect_view f' = Returned \<and>
      one_held t k a (Suc i) q' \<and> stealer (inner q') = stealer (inner q)) \<or>
    (\<exists>q'. collect_fun dpush steal (2 ^ k) w f q = Inr (Pending, [], [], f, q') \<and> one_held t k a i q' \<and>
      i = region_start k a + 2 ^ k \<and>
      contents (stealer (inner q')) = contents (stealer (inner q)) @ [w])"
proof -
  have f: "f = CollectUnbatched (t i)" using assms(2) by (cases f) simp_all
  have k: "6 \<le> k" "k < 32" "fifo_deque dpush steal contents" using assms(1) by (simp_all add: batch_env_def)
  show ?thesis
    using assms(3) k(1,2)
  proof (cases rule: push_one_held)
    case (joins q')
    then show ?thesis by (auto simp: collect_fun_def batch_collect_poll_def f)
  next
    case full
    then show ?thesis using assms(3) k(3)
      by (auto simp: collect_fun_def batch_collect_poll_def f fifo_deque_def intro!: exI [of _ "pending_push dpush w q"])
        (simp add: pending_push_def)
  qed
qed

lemma collect_collects:
  assumes "batch_env k dpush steal contents retries" "collect_view f = Holding batch" "holds a batch" "one_held t k a i q"
  shows "\<exists>q' f' woken. collect_fun dpush steal (2 ^ k) w f q = Inr (Ready (Some (map t [a..<i])), [], woken, f', q') \<and>
    collect_view f' = Returned \<and> idle k i q' \<and> woken @ contents (stealer (inner q')) = contents (stealer (inner q)) \<and>
    length woken = min (2 ^ (k - 3)) (length (contents (stealer (inner q))))"
proof -
  have f: "f = CollectCollecting () batch" using assms(2) by (cases f) simp_all
  have k: "6 \<le> k" "k < 32" "fifo_deque dpush steal contents" "steal_progress steal retries"
    using assms(1) by (simp_all add: batch_env_def)
  show ?thesis
  proof (rule bound_one_batch [OF assms(4,3) k(1,2)])
    fix ph
    let ?s = "(inner q)\<lparr>slot := mk_slot i (\<not> ph)\<rparr>"
    assume b: "into_bounded batch (inner q) = (bounds64 a i, ?s)" "own_slot q = mk_slot i ph"
      "occupied_by k {#region k a#} a ?s"
    have w: "a < i" "i \<le> a + 2 ^ k" using one_batch_window [OF assms(4)] by simp_all
    have live: "window_live (2 ^ k) a i (buffer ?s)" using one_held_tasks(1) [OF assms(4)] by simp
    from to_vec_spec [OF b(3) w live k(3,4)] obtain woken s' where
      "to_vec steal (2 ^ k) (bounds64 a i) ?s = Inr (map t [a..<i], woken, s')"
      and freed: "batch_freed k contents a {#region k a#} ?s woken s'" using one_held_tasks(2) [OF assms(4)] by auto
    then show ?thesis
      using freed_idle [OF freed b(2) one_batch_length [OF assms(4)]]
      by (intro exI [of _ "q\<lparr>inner := s'\<rparr>"] exI [of _ CollectBatched] exI [of _ woken])
        (simp add: collect_fun_def batch_collect_poll_def f b(1))
  qed
qed

interpretation collecting: batch_future k contents "collect_fun dpush steal (2 ^ k)" collect_view
    "\<lambda>_. batch_env k dpush steal contents retries" "\<lambda>b. b" "\<lambda>b. []" "\<lambda>_. True"
  for k contents dpush steal retries
proof (unfold_locales, goal_cases)
  case (1 f t i q w)
  then show ?case using collect_opens [of k dpush steal contents retries f t i q w] by simp
next
  case (2 f t i a q w)
  then show ?case using collect_pushes [of k dpush steal contents retries f t i a q w] by simp
next
  case (3 f batch a t i q w)
  then show ?case using collect_collects [of k dpush steal contents retries f batch a t i q w] by simp
qed simp

lemma reduce_opens:
  assumes "batch_env k dpush steal contents retries" "reduces_with red f" "reduce_view f = Unpushed (t i)" "idle k i q"
  shows "\<exists>q' f' batch. reduce_fun dpush steal drops (2 ^ k) w f q = Inr (Pending, [], [w], f', q') \<and> reduces_with red f' \<and>
    reduce_view f' = Holding batch \<and> holds i batch \<and> one_held t k i (Suc i) q' \<and> stealer (inner q') = stealer (inner q)"
proof -
  have f: "f = ReduceUnbatched (t i) red" using assms(2,3) by (cases f) simp_all
  have k: "6 \<le> k" "k < 32" using assms(1) by (simp_all add: batch_env_def)
  obtain q' batch where "push (2 ^ k) (t i) q = Inr (Inr (Some batch), q')" "holds i batch" "one_held t k i (Suc i) q'"
    "stealer (inner q') = stealer (inner q)" by (rule push_idle [OF assms(4) k])
  then show ?thesis by (auto simp: reduce_fun_def batch_reduce_poll_def f)
qed

lemma reduce_pushes:
  assumes "batch_env k dpush steal contents retries" "reduces_with red f" "reduce_view f = Unpushed (t i)" "one_held t k a i q"
  shows "(\<exists>q' f'. reduce_fun dpush steal drops (2 ^ k) w f q = Inr (Ready None, [], [], f', q') \<and> reduces_with red f' \<and>
      reduce_view f' = Returned \<and> one_held t k a (Suc i) q' \<and> stealer (inner q') = stealer (inner q)) \<or>
    (\<exists>q'. reduce_fun dpush steal drops (2 ^ k) w f q = Inr (Pending, [], [], f, q') \<and> one_held t k a i q' \<and>
      i = region_start k a + 2 ^ k \<and>
      contents (stealer (inner q')) = contents (stealer (inner q)) @ [w])"
proof -
  have f: "f = ReduceUnbatched (t i) red" using assms(2,3) by (cases f) simp_all
  have k: "6 \<le> k" "k < 32" "fifo_deque dpush steal contents" using assms(1) by (simp_all add: batch_env_def)
  show ?thesis
    using assms(4) k(1,2)
  proof (cases rule: push_one_held)
    case (joins q')
    then show ?thesis by (auto simp: reduce_fun_def batch_reduce_poll_def f)
  next
    case full
    then show ?thesis using assms(4) k(3)
      by (auto simp: reduce_fun_def batch_reduce_poll_def f fifo_deque_def intro!: exI [of _ "pending_push dpush w q"])
        (simp add: pending_push_def)
  qed
qed

lemma reduce_collects:
  assumes "batch_env k dpush steal contents retries" "reduces_with red f" "reduce_view f = Holding batch" "holds a batch"
    and "one_held t k a i q" "i < 2 ^ 32"
  shows "\<exists>q' f' woken. reduce_fun dpush steal drops (2 ^ k) w f q = 
      Inr (Ready (Some (fst (reduce_list red (map t [a..<i])))), if drops then snd (reduce_list red (map t [a..<i])) else [], woken, f', q') \<and>
    reduces_with red f' \<and> reduce_view f' = Returned \<and> idle k i q' \<and>
    woken @ contents (stealer (inner q')) = contents (stealer (inner q)) \<and>
    length woken = min (2 ^ (k - 3)) (length (contents (stealer (inner q))))"
proof -
  have f: "f = ReduceCollecting () batch red" using assms(2,3) by (cases f) simp_all
  have k: "6 \<le> k" "k < 32" "fifo_deque dpush steal contents" "steal_progress steal retries"
    using assms(1) by (simp_all add: batch_env_def)
  show ?thesis
  proof (rule bound_one_batch [OF assms(5,4) k(1,2)])
    fix ph
    let ?s = "(inner q)\<lparr>slot := mk_slot i (\<not> ph)\<rparr>"
    assume b: "into_bounded batch (inner q) = (bounds64 a i, ?s)" "own_slot q = mk_slot i ph"
      "occupied_by k {#region k a#} a ?s"
    have w: "a < i" "i \<le> a + 2 ^ k" using one_batch_window [OF assms(5)] by simp_all
    have live: "window_live (2 ^ k) a i (buffer ?s)" using one_held_tasks(1) [OF assms(5)] by simp
    have cycle: "same_cycle a i" using w(1) assms(6) by (simp add: same_cycle_def)
    from run_reducer_refines [OF b(3) order_refl less_imp_le [OF w(1)] w(2) live cycle k(3,4), of red drops]
    obtain woken s' where
      "run_reducer steal drops (2 ^ k) red (iter64 a i a) ?s
        = Inr (fst (reduce_list red (map t [a..<i])), if drops then snd (reduce_list red (map t [a..<i])) else [], woken, s')"
      and freed: "batch_freed k contents a {#region k a#} ?s woken s'" using one_held_tasks(2) [OF assms(5)] by auto
    then show ?thesis
      using freed_idle [OF freed b(2) one_batch_length [OF assms(5)]]
      by (intro exI [of _ "q\<lparr>inner := s'\<rparr>"] exI [of _ ReduceBatched] exI [of _ woken])
        (simp add: reduce_fun_def batch_reduce_poll_def f b(1) into_iter_64)
  qed
qed

interpretation reducing: batch_future k contents "reduce_fun dpush steal drops (2 ^ k)" reduce_view
    "\<lambda>f. batch_env k dpush steal contents retries \<and> reduces_with red f" "\<lambda>b. fst (reduce_list red b)"
    "\<lambda>b. if drops then snd (reduce_list red b) else []" "\<lambda>n. n < 2 ^ 32"
  for k contents dpush steal retries drops red
proof (unfold_locales, goal_cases)
  case (1 f t i q w)
  then show ?case using reduce_opens [of k dpush steal contents retries red f t i q drops w] by simp
next
  case (2 f t i a q w)
  then show ?case using reduce_pushes [of k dpush steal contents retries red f t i a q drops w] by simp
next
  case (3 f batch a t i q w)
  then show ?case using reduce_collects [of k dpush steal contents retries red f batch a t i q drops w] by simp
qed simp

section \<open>The tests\<close>

text \<open>\<open>total += batch.map_or(0, |batch| batch.into_iter().sum())\<close>, over the results in the order they come.\<close>

definition it_batch_collects_total :: "(nat \<times> nat list option) list \<Rightarrow> nat" where
  "it_batch_collects_total results = sum_list (map (\<lambda>(i, batch). case batch of None \<Rightarrow> 0 | Some ts \<Rightarrow> sum_list ts) results)"

text \<open>\<open>total + value.unwrap_or_default()\<close>.\<close>

definition it_batch_reduces_total :: "(nat \<times> nat option) list \<Rightarrow> nat" where
  "it_batch_reduces_total results = sum_list (map (\<lambda>(i, v). case v of None \<Rightarrow> 0 | Some x \<Rightarrow> x) results)"

text \<open>
  The reducer \<open>|iter| iter.sum()\<close>, as a tree of at most \<open>n\<close> calls of \<open>next\<close>: a batch has no more tasks
  than the buffer has cells, so \<open>2 ^ k + 1\<close> calls are enough.
\<close>

primrec sum_reducer :: "nat \<Rightarrow> nat \<Rightarrow> (nat, nat) reducer" where
  "sum_reducer 0 acc = Finish acc"
| "sum_reducer (Suc n) acc = Next (\<lambda>t. case t of None \<Rightarrow> Finish acc | Some x \<Rightarrow> sum_reducer n (acc + x))"

lemma reduce_sum: "length ts < n \<Longrightarrow> reduce_list (sum_reducer n acc) ts = (acc + sum_list ts, [])"
  by (induction n arbitrary: acc ts) (auto split: list.splits)

lemma collects_total: "it_batch_collects_total results = sum_list (concat (values_returned results))"
  by (induction results) (auto simp: it_batch_collects_total_def values_returned_def split: option.splits)

lemma reduces_total: "it_batch_reduces_total results = sum_list (values_returned results)"
  by (induction results) (auto simp: it_batch_reduces_total_def values_returned_def split: option.splits)

text \<open>
  C7. The test \<open>it_batch_collects\<close>, for any tasks. However many there are, and in whatever order the
  executor takes the futures that were woken: no poll runs into a fault; there are boundedly many;
  and when no future is left to be polled, every one has returned, once, and the batches they
  returned hold all tasks, each once. So no waker is parked for good when batches are released on
  the thread that pushes.
\<close>

theorem batch_collects_completes:
  assumes "6 \<le> k" "k < 32" "fifo_deque dpush steal contents" "steal_progress steal retries"
    and "stack_queue_default None (2 ^ k :: 64 word) d = Some q" "contents d = []"
    and "(executor_step (collect_fun dpush steal (2 ^ k)) ^^ m) (executor_start q (map reducer_batch_collect tasks)) s"
  shows "m \<le> 2 * length tasks * Suc (length tasks) + length tasks \<and>
    (\<forall>i\<in>ex_ready s. \<exists>s'. poll_ready (collect_fun dpush steal (2 ^ k)) i s = Inr s') \<and>
    (ex_ready s = {} \<longrightarrow> mset (map fst (ex_results s)) = mset [0..<length tasks] \<and>
       mset (concat (values_returned (ex_results s))) = mset tasks)"
proof -
  have start: "\<forall>t. batch_env k dpush steal contents retries \<and> collect_view (reducer_batch_collect t) = Unpushed t"
    using assms(1-4) by (simp add: batch_env_def reducer_batch_collect_def batch_collect_new_def)
  have q: "idle k 0 q" "contents (stealer (inner q)) = []"
    using default_queue_idle [OF assms(1,2,5)] assms(6) by simp_all
  note run = collecting.completes [OF start q assms(7) TrueI]
  have "mset (concat (values_returned (ex_results s))) = mset tasks" if "ex_ready s = {}"
    using run(3) [OF that] by (auto simp: batches_summed_def)
  then show ?thesis using run by blast
qed

text \<open>
  The test \<open>it_batch_reduces\<close>, for any numbers: when no future is left to be polled, the sums that
  the futures returned, each of one batch, add up to the sum of all tasks; and it comes to that, in
  boundedly many polls, none of which runs into a fault.
\<close>

theorem batch_reduces_total:
  assumes "6 \<le> k" "k < 32" "fifo_deque dpush steal contents" "steal_progress steal retries" "length tasks < 2 ^ 32"
    and "stack_queue_default None (2 ^ k :: 64 word) d = Some q" "contents d = []"
    and "(executor_step (reduce_fun dpush steal drops (2 ^ k)) ^^ m)
      (executor_start q (map (\<lambda>t. reducer_batch_reduce t (sum_reducer (2 ^ k + 1) 0)) tasks)) s"
  shows "m \<le> 2 * length tasks * Suc (length tasks) + length tasks \<and>
    (\<forall>i\<in>ex_ready s. \<exists>s'. poll_ready (reduce_fun dpush steal drops (2 ^ k)) i s = Inr s') \<and>
    (ex_ready s = {} \<longrightarrow> it_batch_reduces_total (ex_results s) = sum_list tasks)"
proof -
  let ?red = "sum_reducer (2 ^ k + 1) 0"
  have start: "\<forall>t. (batch_env k dpush steal contents retries \<and> reduces_with ?red (reducer_batch_reduce t ?red)) \<and>
      reduce_view (reducer_batch_reduce t ?red) = Unpushed t"
    using assms(1-4) by (simp add: batch_env_def reducer_batch_reduce_def batch_reduce_new_def)
  have q: "idle k 0 q" "contents (stealer (inner q)) = []"
    using default_queue_idle [OF assms(1,2,6)] assms(7) by simp_all
  note run = reducing.completes [OF start q assms(8,5)]
  have "it_batch_reduces_total (ex_results s) = sum_list tasks" if finished: "ex_ready s = {}"
  proof -
    obtain bs where bs: "mset (concat bs) = mset tasks" "\<forall>b\<in>set bs. length b \<le> 2 ^ k"
      "values_returned (ex_results s) = map (\<lambda>b. fst (reduce_list ?red b)) bs"
      using run(3) [OF finished] by (auto simp: batches_summed_def)
    have summed: "map (\<lambda>b. fst (reduce_list ?red b)) bs = map sum_list bs"
      using bs(2) by (auto simp: reduce_sum less_Suc_eq_le simp del: sum_reducer.simps)
    have "it_batch_reduces_total (ex_results s) = sum_list (map sum_list bs)"
      unfolding reduces_total bs(3) summed ..
    also have "\<dots> = sum_list (concat bs)" by (induction bs) simp_all
    also have "\<dots> = sum_list tasks" using bs(1) by (metis sum_mset_sum_list)
    finally show ?thesis .
  qed
  then show ?thesis using run by blast
qed

text \<open>A hundred tasks on a queue of 64 cells.\<close>

theorem batch_collects_completes_witness:
  "\<exists>q m s. stack_queue_default None (2 ^ 6 :: 64 word) ([] :: nat list) = Some q \<and>
    (executor_step (collect_fun list_push list_steal (2 ^ 6)) ^^ m) (executor_start q (map reducer_batch_collect [0..<100])) s \<and>
    ex_ready s = {} \<and> mset (concat (values_returned (ex_results s))) = mset [0..<100]"
proof -
  obtain q :: "(64 word, nat buffer_cell, nat list) stack_queue" where
    q: "stack_queue_default None (2 ^ 6 :: 64 word) ([] :: nat list) = Some q"
    using default_queue_at [of 6 None "[]"] by auto
  have start: "executor_inv collect_view (\<lambda>_. batch_env 6 list_push list_steal (\<lambda>d. d) (\<lambda>d. 0)) (\<lambda>b. b) 6 (\<lambda>d. d)
      [0..<100] [] (executor_start q (map reducer_batch_collect [0..<100]))"
    using default_queue_idle [OF _ _ q]
    by (intro executor_inv_start) (simp_all add: batch_env_def reducer_batch_collect_def batch_collect_new_def)
  from collecting.runs_to_end [OF start TrueI] obtain m s where
    run: "(executor_step (collect_fun list_push list_steal (2 ^ 6)) ^^ m)
      (executor_start q (map reducer_batch_collect [0..<100])) s" "ex_ready s = {}" by auto
  from batch_collects_completes [OF _ _ list_deque q _ run(1)] run q show ?thesis by auto
qed

theorem batch_reduces_total_witness:
  "\<exists>q m s. stack_queue_default None (2 ^ 6 :: 64 word) ([] :: nat list) = Some q \<and>
    (executor_step (reduce_fun list_push list_steal False (2 ^ 6)) ^^ m)
      (executor_start q (map (\<lambda>t. reducer_batch_reduce t (sum_reducer (2 ^ 6 + 1) 0)) [0..<100])) s \<and>
    ex_ready s = {} \<and> it_batch_reduces_total (ex_results s) = 4950"
proof -
  let ?red = "sum_reducer (2 ^ 6 + 1) 0"
  obtain q :: "(64 word, nat buffer_cell, nat list) stack_queue" where
    q: "stack_queue_default None (2 ^ 6 :: 64 word) ([] :: nat list) = Some q"
    using default_queue_at [of 6 None "[]"] by auto
  have start: "executor_inv reduce_view (\<lambda>f. batch_env 6 list_push list_steal (\<lambda>d. d) (\<lambda>d. 0) \<and> reduces_with ?red f)
      (\<lambda>b. fst (reduce_list ?red b)) 6 (\<lambda>d. d) [0..<100] []
      (executor_start q (map (\<lambda>t. reducer_batch_reduce t ?red) [0..<100]))"
    using default_queue_idle [OF _ _ q]
    by (intro executor_inv_start) (simp_all add: batch_env_def reducer_batch_reduce_def batch_reduce_new_def
        del: sum_reducer.simps)
  from reducing.runs_to_end [OF start] obtain m s where
    run: "(executor_step (reduce_fun list_push list_steal False (2 ^ 6)) ^^ m)
      (executor_start q (map (\<lambda>t. reducer_batch_reduce t ?red) [0..<100])) s" "ex_ready s = {}" by fastforce
  have "sum_list [0..<100] = (4950 :: nat)" by (simp add: upt_conv_Cons)
  with batch_reduces_total [OF _ _ list_deque _ q _ run(1)] run q show ?thesis by auto
qed

end
