(* ===== verification/TaskExecutor.thy ===== *)
theory TaskExecutor
  imports Programs
begin

unbundle bit_operations_syntax

text \<open>
  The test \<open>it_process_tasks\<close> of \<open>queue.rs\<close>: rounds of any number of \<open>TaskQueue\<close> futures on the queue of
  one thread, more than the buffer has cells, driven to their values. An executor polls a future at
  first and whenever it was woken, and runs what the polls spawn, in any order.
\<close>

section \<open>Running the futures of a TaskQueue\<close>

text \<open>
  The queue, the futures at their addresses, which are numbers, and so are their wakers; those ready
  to be polled; the batches whose processing was spawned; and the values returned, in order.
\<close>

record ('t, 'v, 'd) task_executor =
  te_queue :: "(64 word, (64 word, 't, nat) task_ref, 'd) stack_queue"
  te_futures :: "(64 word, 't, 'v, nat, nat) futures"
  te_ready :: "nat set"
  te_jobs :: "64 word pending_assignment list"
  te_results :: "(nat \<times> 'v) list"

definition task_executor_start ::
    "(64 word, (64 word, 't, nat) task_ref, 'd) stack_queue \<Rightarrow> 't list \<Rightarrow> ('t, 'v, 'd) task_executor" where
  "task_executor_start q tasks = \<lparr>te_queue = q,
     te_futures = (\<lambda>i. if i < length tasks then Some (task_queue_auto_batch (tasks ! i)) else None),
     te_ready = {..<length tasks}, te_jobs = [], te_results = []\<rparr>"

definition poll_task ::
    "('d \<Rightarrow> nat \<Rightarrow> 'd) \<Rightarrow> 64 word \<Rightarrow> nat \<Rightarrow> ('t, 'v, 'd) task_executor \<Rightarrow> fault + ('t, 'v, 'd) task_executor" where
  "poll_task dpush N i s =
     bind_sum (batched_task_poll dpush N i i (te_queue s) (te_futures s)) (\<lambda>(r, spawned, q, futs).
     Inr (s\<lparr>te_queue := q, te_futures := futs, te_ready := te_ready s - {i},
          te_jobs := te_jobs s @ (case spawned of None \<Rightarrow> [] | Some batch \<Rightarrow> [batch]),
          te_results := (case r of Ready v \<Rightarrow> te_results s @ [(i, v)] | Pending \<Rightarrow> te_results s)\<rparr>))"

definition run_job ::
    "('d \<Rightarrow> nat steal \<times> 'd) \<Rightarrow> ('t \<Rightarrow> 'v) \<Rightarrow> 64 word \<Rightarrow> nat \<Rightarrow> ('t, 'v, 'd) task_executor
      \<Rightarrow> fault + ('t, 'v, 'd) task_executor" where
  "run_job steal op N j s =
     bind_sum (echo_batch_process steal op N (te_jobs s ! j) (te_queue s) (te_futures s)) (\<lambda>(woken, q, futs).
     Inr (s\<lparr>te_queue := q, te_futures := futs, te_ready := te_ready s \<union> set woken,
          te_jobs := take j (te_jobs s) @ drop (Suc j) (te_jobs s)\<rparr>))"

inductive task_executor_step ::
    "('d \<Rightarrow> nat \<Rightarrow> 'd) \<Rightarrow> ('d \<Rightarrow> nat steal \<times> 'd) \<Rightarrow> ('t \<Rightarrow> 'v) \<Rightarrow> 64 word
      \<Rightarrow> ('t, 'v, 'd) task_executor \<Rightarrow> ('t, 'v, 'd) task_executor \<Rightarrow> bool"
  for dpush :: "'d \<Rightarrow> nat \<Rightarrow> 'd" and steal :: "'d \<Rightarrow> nat steal \<times> 'd" and op :: "'t \<Rightarrow> 'v" and N :: "64 word" where
  poll_task_woken:
    "i \<in> te_ready s \<Longrightarrow> poll_task dpush N i s = Inr s' \<Longrightarrow> task_executor_step dpush steal op N s s'"
| run_spawned:
    "j < length (te_jobs s) \<Longrightarrow> run_job steal op N j s = Inr s' \<Longrightarrow> task_executor_step dpush steal op N s s'"

section \<open>One batch of a TaskQueue\<close>

lemma poll_tasks_held:
  fixes futs :: "(64 word, 't, 'v, 'wk, 'f) futures"
  assumes "tasks_held t f k a i q" "6 \<le> k" "k < 32" "futs (f i) = Some (Unbatched (t i))"
  obtains (joins) q' state where "batched_task_poll dpush (2 ^ k) (f i) w q futs =
      Inr (Pending, None, q', futs(f i \<mapsto> Batched (receiver_new state w)))"
      "tasks_held t f k a (Suc i) q'" "stealer (inner q') = stealer (inner q)"
  | (full) "batched_task_poll dpush (2 ^ k) (f i) w q futs = Inr (Pending, None, pending_push dpush w q, futs)"
proof -
  obtain ph where q: "queue_at k i ph ph {#region k a#} q" using assms(1) by (auto simp: one_batch_def)
  show ?thesis
    using assms(1-3)
  proof (cases rule: one_batch_check)
    case passes
    obtain q' where q': "batched_task_poll dpush (2 ^ k) (f i) w q futs =
        Inr (Pending, None, q', futs(f i \<mapsto> Batched (receiver_new (slot_index (2 ^ k) (own_slot q)) w)))"
      "queue_at k (Suc i) ph ph {#region k a#} q'"
      "buffer (inner q') = (buffer (inner q))[i mod 2 ^ k := task_cell (t i) (f i) False]"
      "own_occupancy q' = own_occupancy q" "stealer (inner q') = stealer (inner q)"
      using poll_unbatched_step [where dpush = dpush and waker = w and futs = futs and self = "f i", OF q assms(2-4) passes(1)]
      by auto
    from joins [OF q'(1) one_batch_joins [OF assms(1) passes(2) q'(2-4)] q'(5)] show ?thesis .
  next
    case full
    then have "batched_task_poll dpush (2 ^ k) (f i) w q futs = Inr (Pending, None, pending_push dpush w q, futs)"
      using assms(4) by (simp add: batched_task_poll_def enqueue_def current_write_index_eq Let_def)
    from that(2) [OF this] show ?thesis .
  qed
qed

section \<open>The invariant\<close>

text \<open>
  \<open>pushed\<close> lists the futures whose tasks were pushed, in order. The first \<open>a\<close> of them are resolved:
  each is ready with its value or has returned it. The others wait for the batch to be processed.
  \<open>c\<close> tasks were pushed before.
\<close>

definition resolved_at :: "('t \<Rightarrow> 'v) \<Rightarrow> 't list \<Rightarrow> nat \<Rightarrow> ('t, 'v, 'd) task_executor \<Rightarrow> bool" where
  "resolved_at op tasks i s \<longleftrightarrow>
     i \<in> te_ready s \<and> (\<exists>rx. te_futures s i = Some (Batched rx) \<and> rx_value rx = Some (op (tasks ! i))) \<or>
     i \<notin> te_ready s \<and> te_futures s i = Some Received"

definition waiting_at :: "nat \<Rightarrow> ('t, 'v, 'd) task_executor \<Rightarrow> bool" where
  "waiting_at i s \<longleftrightarrow> i \<notin> te_ready s \<and>
     (\<exists>rx. te_futures s i = Some (Batched rx) \<and> rx_value rx = None \<and> rx_waker rx = i)"

definition tasks_at :: "('t \<Rightarrow> 'v) \<Rightarrow> 't list \<Rightarrow> nat list \<Rightarrow> nat \<Rightarrow> ('t, 'v, 'd) task_executor \<Rightarrow> bool" where
  "tasks_at op tasks pushed a s \<longleftrightarrow> distinct pushed \<and> set pushed \<subseteq> {..<length tasks} \<and>
     (\<forall>i<length tasks. i \<notin> set pushed \<longrightarrow> te_futures s i = Some (Unbatched (tasks ! i))) \<and>
     (\<forall>j<length pushed. if j < a then resolved_at op tasks (pushed ! j) s else waiting_at (pushed ! j) s) \<and>
     distinct (map fst (te_results s)) \<and>
     set (te_results s) = {(i, op (tasks ! i)) | i. i < length tasks \<and> te_futures s i = Some Received}"

definition parked_at :: "nat \<Rightarrow> nat list \<Rightarrow> nat list \<Rightarrow> ('t, 'v, 'd) task_executor \<Rightarrow> bool" where
  "parked_at n pushed parked s \<longleftrightarrow> distinct parked \<and> set parked \<inter> te_ready s = {} \<and>
     (\<forall>i<n. i \<notin> set pushed \<longrightarrow> i \<in> te_ready s \<or> i \<in> set parked) \<and>
     set parked \<subseteq> {..<n} - set pushed \<and> te_ready s \<subseteq> {..<n}"

text \<open>No batch is running, or one, which starts with the task \<open>a\<close>, and its processing was spawned.\<close>

definition jobs_at :: "nat \<Rightarrow> nat \<Rightarrow> 't list \<Rightarrow> nat list \<Rightarrow> nat list \<Rightarrow> nat \<Rightarrow> ('t, 'v, 'd) task_executor \<Rightarrow> bool" where
  "jobs_at k c tasks pushed parked a s \<longleftrightarrow>
     (if te_jobs s = []
      then a = length pushed \<and> idle k (c + length pushed) (te_queue s) \<and>
        (parked \<noteq> [] \<longrightarrow> (\<exists>i\<in>te_ready s. i \<notin> set pushed))
      else (\<exists>p. te_jobs s = [\<lparr>pa_base_slot = mk_slot (c + a) p\<rparr>]) \<and>
        tasks_held (\<lambda>j. tasks ! (pushed ! (j - c))) (\<lambda>j. pushed ! (j - c)) k (c + a) (c + length pushed) (te_queue s))"

definition task_executor_inv :: "nat \<Rightarrow> nat \<Rightarrow> ('d \<Rightarrow> nat list) \<Rightarrow> ('t \<Rightarrow> 'v) \<Rightarrow> 't list \<Rightarrow> nat list \<Rightarrow> nat
    \<Rightarrow> ('t, 'v, 'd) task_executor \<Rightarrow> bool" where
  "task_executor_inv k c contents op tasks pushed a s \<longleftrightarrow> tasks_at op tasks pushed a s \<and>
     parked_at (length tasks) pushed (contents (stealer (inner (te_queue s)))) s \<and>
     jobs_at k c tasks pushed (contents (stealer (inner (te_queue s)))) a s"

lemma task_executor_inv_start:
  assumes "idle k c q" "contents (stealer (inner q)) = []"
  shows "task_executor_inv k c contents op tasks [] 0 (task_executor_start q tasks)"
  using assms
  by (auto simp: task_executor_inv_def task_executor_start_def tasks_at_def parked_at_def jobs_at_def
      task_queue_auto_batch_def batched_task_new_def)

text \<open>The view of a future is not touched by what happens to others.\<close>

lemma resolved_frame:
  "resolved_at op tasks i s \<Longrightarrow> te_futures s' i = te_futures s i \<Longrightarrow> (i \<in> te_ready s' \<longleftrightarrow> i \<in> te_ready s) \<Longrightarrow>
    resolved_at op tasks i s'"
  by (simp add: resolved_at_def)

lemma waiting_frame:
  "waiting_at i s \<Longrightarrow> te_futures s' i = te_futures s i \<Longrightarrow> (i \<in> te_ready s' \<longleftrightarrow> i \<in> te_ready s) \<Longrightarrow> waiting_at i s'"
  by (simp add: waiting_at_def)

lemma tasks_held_append:
  assumes "tasks_held (\<lambda>j. tasks ! (pushed ! (j - c))) (\<lambda>j. pushed ! (j - c)) k a (c + length pushed) q" "c \<le> a"
  shows "tasks_held (\<lambda>j. tasks ! ((pushed @ [i]) ! (j - c))) (\<lambda>j. (pushed @ [i]) ! (j - c)) k a (c + length pushed) q"
  using assms(1) by (rule one_batch_cong [THEN iffD1, rotated]) (use assms(2) in \<open>simp add: nth_append\<close>)

text \<open>A task is pushed: its future waits, whatever the others do.\<close>

lemma tasks_at_pushed:
  assumes "tasks_at op tasks pushed a s" "i < length tasks" "i \<notin> set pushed" "a \<le> length pushed"
    and "te_futures s' = (te_futures s)(i \<mapsto> Batched (receiver_new state i))" "te_ready s' = te_ready s - {i}"
    and "te_results s' = te_results s"
  shows "tasks_at op tasks (pushed @ [i]) a s'"
proof -
  have "if j < a then resolved_at op tasks ((pushed @ [i]) ! j) s' else waiting_at ((pushed @ [i]) ! j) s'"
    if "j < Suc (length pushed)" for j
  proof (cases "j = length pushed")
    case True
    then show ?thesis using assms(4-6) by (simp add: waiting_at_def receiver_new_def)
  next
    case False
    then have j: "j < length pushed" using that by simp
    then have "pushed ! j \<noteq> i" using assms(3) by auto
    then show ?thesis
      using assms(1,5,6) j resolved_frame [of op tasks "pushed ! j" s s'] waiting_frame [of "pushed ! j" s s']
      by (auto simp: tasks_at_def nth_append)
  qed
  moreover have "te_futures s i = Some (Unbatched (tasks ! i))" using assms(1-3) by (simp add: tasks_at_def)
  then have "te_futures s' g = Some Received \<longleftrightarrow> te_futures s g = Some Received" for g by (simp add: assms(5))
  ultimately show ?thesis
    using assms(1-3) by (simp add: tasks_at_def assms(5,7))
qed

section \<open>The steps\<close>

lemma task_poll_opens:
  fixes s :: "('t, 'v, 'd) task_executor"
  assumes "task_executor_inv k c contents op tasks pushed a s" "i \<in> te_ready s" "i \<notin> set pushed" "te_jobs s = []"
    and "6 \<le> k" "k < 32"
  obtains s' state where "poll_task dpush (2 ^ k) i s = Inr s'" "task_executor_inv k c contents op tasks (pushed @ [i]) a s'"
    "te_futures s' = (te_futures s)(i \<mapsto> Batched (receiver_new state i))"
proof -
  let ?parked = "contents (stealer (inner (te_queue s)))"
  let ?t = "\<lambda>j. tasks ! ((pushed @ [i]) ! (j - c))" and ?f = "\<lambda>j. (pushed @ [i]) ! (j - c)"
  have t: "tasks_at op tasks pushed a s" and p: "parked_at (length tasks) pushed ?parked s"
    and "jobs_at k c tasks pushed ?parked a s"
    using assms(1) by (simp_all add: task_executor_inv_def)
  then have a: "a = length pushed" and idle: "idle k (c + length pushed) (te_queue s)"
    using assms(4) by (simp_all add: jobs_at_def)
  have i: "i < length tasks" using p assms(2) by (auto simp: parked_at_def)
  have fut: "te_futures s (?f (c + length pushed)) = Some (Unbatched (?t (c + length pushed)))"
    using t i assms(3) by (simp add: tasks_at_def)
  obtain q' state ph where poll: "batched_task_poll dpush (2 ^ k) (?f (c + length pushed)) i (te_queue s) (te_futures s) =
      Inr (Pending, Some \<lparr>pa_base_slot = mk_slot (c + length pushed) ph\<rparr>, q',
        (te_futures s)(?f (c + length pushed) \<mapsto> Batched (receiver_new state i)))"
    and held: "tasks_held ?t ?f k (c + length pushed) (Suc (c + length pushed)) q'"
    and wakers: "stealer (inner q') = stealer (inner (te_queue s))"
    by (rule poll_idle [where futs = "te_futures s" and t = ?t and f = ?f and w = i, OF idle assms(5,6) fut])
  let ?s = "s\<lparr>te_queue := q', te_futures := (te_futures s)(i \<mapsto> Batched (receiver_new state i)),
      te_ready := te_ready s - {i}, te_jobs := [\<lparr>pa_base_slot = mk_slot (c + a) ph\<rparr>]\<rparr>"
  have polled: "poll_task dpush (2 ^ k) i s = Inr ?s" using poll by (simp add: poll_task_def assms(4) a)
  have "tasks_at op tasks (pushed @ [i]) a ?s"
    by (rule tasks_at_pushed [OF t i assms(3)]) (simp_all add: a)
  moreover have "parked_at (length tasks) (pushed @ [i]) (contents (stealer (inner q'))) ?s"
    using p assms(2) by (auto simp: parked_at_def wakers)
  moreover have "jobs_at k c tasks (pushed @ [i]) (contents (stealer (inner q'))) a ?s"
    using held by (auto simp: jobs_at_def a)
  ultimately have "task_executor_inv k c contents op tasks (pushed @ [i]) a ?s" by (simp add: task_executor_inv_def)
  from that [OF polled this] show ?thesis by simp
qed

lemma task_poll_pushes:
  fixes s :: "('t, 'v, 'd) task_executor"
  assumes "task_executor_inv k c contents op tasks pushed a s" "i \<in> te_ready s" "i \<notin> set pushed" "te_jobs s \<noteq> []"
    and "6 \<le> k" "k < 32" "fifo_deque dpush steal contents"
  obtains (joins) s' state where "poll_task dpush (2 ^ k) i s = Inr s'"
      "task_executor_inv k c contents op tasks (pushed @ [i]) a s'"
      "te_futures s' = (te_futures s)(i \<mapsto> Batched (receiver_new state i))"
  | (parks) s' where "poll_task dpush (2 ^ k) i s = Inr s'" "task_executor_inv k c contents op tasks pushed a s'"
      "te_futures s' = te_futures s" "te_ready s' = te_ready s - {i}"
proof -
  let ?parked = "contents (stealer (inner (te_queue s)))"
  let ?t = "\<lambda>j. tasks ! ((pushed @ [i]) ! (j - c))" and ?f = "\<lambda>j. (pushed @ [i]) ! (j - c)"
  have t: "tasks_at op tasks pushed a s" and p: "parked_at (length tasks) pushed ?parked s"
    using assms(1) by (simp_all add: task_executor_inv_def)
  obtain ph where jobs: "te_jobs s = [\<lparr>pa_base_slot = mk_slot (c + a) ph\<rparr>]"
    and held: "tasks_held (\<lambda>j. tasks ! (pushed ! (j - c))) (\<lambda>j. pushed ! (j - c)) k (c + a) (c + length pushed) (te_queue s)"
    using assms(1,4) by (auto simp: task_executor_inv_def jobs_at_def)
  have a: "a < length pushed" using one_batch_window [OF held] by simp
  have i: "i < length tasks" using p assms(2) by (auto simp: parked_at_def)
  have fut: "te_futures s (?f (c + length pushed)) = Some (Unbatched (?t (c + length pushed)))"
    using t i assms(3) by (simp add: tasks_at_def)
  have "tasks_held ?t ?f k (c + a) (c + length pushed) (te_queue s)" by (rule tasks_held_append [OF held]) simp
  then show ?thesis
    using assms(5,6) fut
  proof (cases rule: poll_tasks_held [where w = i and dpush = dpush])
    case (joins q' state)
    let ?s = "s\<lparr>te_queue := q', te_futures := (te_futures s)(i \<mapsto> Batched (receiver_new state i)),
        te_ready := te_ready s - {i}\<rparr>"
    have polled: "poll_task dpush (2 ^ k) i s = Inr ?s" using joins(1) by (simp add: poll_task_def)
    have "tasks_at op tasks (pushed @ [i]) a ?s"
      by (rule tasks_at_pushed [OF t i assms(3)]) (use a in simp_all)
    moreover have "parked_at (length tasks) (pushed @ [i]) (contents (stealer (inner q'))) ?s"
      using p assms(2) by (auto simp: parked_at_def joins(3))
    moreover have "jobs_at k c tasks (pushed @ [i]) (contents (stealer (inner q'))) a ?s"
      using joins(2) jobs by (auto simp: jobs_at_def)
    ultimately have "task_executor_inv k c contents op tasks (pushed @ [i]) a ?s" by (simp add: task_executor_inv_def)
    from that(1) [OF polled this] show ?thesis by simp
  next
    case full
    let ?q = "pending_push dpush i (te_queue s)"
    let ?s = "s\<lparr>te_queue := ?q, te_ready := te_ready s - {i}\<rparr>"
    have polled: "poll_task dpush (2 ^ k) i s = Inr ?s" using full by (simp add: poll_task_def)
    have parked: "contents (stealer (inner ?q)) = ?parked @ [i]"
      using assms(7) by (simp add: pending_push_def fifo_deque_def)
    have "pushed ! j \<noteq> i" if "j < length pushed" for j using that assms(3) by auto
    then have "tasks_at op tasks pushed a ?s"
      using t by (auto simp: tasks_at_def resolved_at_def waiting_at_def)
    moreover have "parked_at (length tasks) pushed (contents (stealer (inner ?q))) ?s"
      unfolding parked using p assms(2,3) by (auto simp: parked_at_def)
    moreover have "jobs_at k c tasks pushed (contents (stealer (inner ?q))) a ?s"
      using held jobs by (auto simp: jobs_at_def)
    ultimately have "task_executor_inv k c contents op tasks pushed a ?s" by (simp add: task_executor_inv_def)
    from that(2) [OF polled this] show ?thesis by simp
  qed
qed

lemma task_poll_returns:
  fixes s :: "('t, 'v, 'd) task_executor"
  assumes "task_executor_inv k c contents op tasks pushed a s" "i \<in> te_ready s" "i \<in> set pushed"
  obtains s' rx where "poll_task dpush (2 ^ k) i s = Inr s'" "task_executor_inv k c contents op tasks pushed a s'"
    "te_futures s i = Some (Batched rx)" "rx_value rx \<noteq> None" "te_futures s' = (te_futures s)(i \<mapsto> Received)"
proof -
  let ?parked = "contents (stealer (inner (te_queue s)))"
  have t: "tasks_at op tasks pushed a s" and p: "parked_at (length tasks) pushed ?parked s"
    and j: "jobs_at k c tasks pushed ?parked a s"
    using assms(1) by (simp_all add: task_executor_inv_def)
  have i: "i < length tasks" using p assms(2) by (auto simp: parked_at_def)
  obtain m where m: "m < length pushed" "pushed ! m = i" using assms(3) by (auto simp: in_set_conv_nth)
  have "if m < a then resolved_at op tasks i s else waiting_at i s" using t m by (auto simp: tasks_at_def)
  then have "m < a" and "resolved_at op tasks i s" using assms(2) by (auto simp: waiting_at_def split: if_splits)
  then obtain rx where rx: "te_futures s i = Some (Batched rx)" "rx_value rx = Some (op (tasks ! i))"
    using assms(2) by (auto simp: resolved_at_def)
  let ?s = "s\<lparr>te_futures := (te_futures s)(i \<mapsto> Received), te_ready := te_ready s - {i},
      te_results := te_results s @ [(i, op (tasks ! i))]\<rparr>"
  have polled: "poll_task dpush (2 ^ k) i s = Inr ?s"
    using rx(2) by (simp add: poll_task_def poll_batched [where futs = "te_futures s" and self = i, OF rx(1)])
  have other: "pushed ! l \<noteq> i" if "l < length pushed" "l \<noteq> m" for l
    using that m t nth_eq_iff_index_eq [of pushed l m] by (auto simp: tasks_at_def)
  have "if l < a then resolved_at op tasks (pushed ! l) ?s else waiting_at (pushed ! l) ?s" if "l < length pushed" for l
  proof (cases "l = m")
    case True
    then show ?thesis using m \<open>m < a\<close> by (simp add: resolved_at_def)
  next
    case False
    then show ?thesis
      using t that other [OF that] resolved_frame [of op tasks "pushed ! l" s ?s] waiting_frame [of "pushed ! l" s ?s]
      by (auto simp: tasks_at_def)
  qed
  moreover have "i \<notin> fst ` set (te_results s)" using t rx(1) by (auto simp: tasks_at_def)
  moreover have "set (te_results ?s) = {(g, op (tasks ! g)) | g. g < length tasks \<and> te_futures ?s g = Some Received}"
    using t i by (auto simp: tasks_at_def)
  ultimately have "tasks_at op tasks pushed a ?s"
    using t assms(3) by (auto simp: tasks_at_def)
  moreover have "parked_at (length tasks) pushed ?parked ?s"
    using p assms(3) by (auto simp: parked_at_def)
  moreover have "jobs_at k c tasks pushed ?parked a ?s"
    using j assms(3) by (auto simp: jobs_at_def)
  ultimately have "task_executor_inv k c contents op tasks pushed a ?s" by (simp add: task_executor_inv_def)
  from that [OF polled this rx(1)] rx(2) show ?thesis by simp
qed

lemma job_runs:
  fixes s :: "('t, 'v, 'd) task_executor"
  assumes "task_executor_inv k c contents op tasks pushed a s" "l < length (te_jobs s)" "6 \<le> k" "k < 32"
    and "fifo_deque dpush steal contents" "steal_progress steal retries"
  obtains s' where "run_job steal op (2 ^ k) l s = Inr s'" "task_executor_inv k c contents op tasks pushed (length pushed) s'"
    "a < length pushed" "waiting_at (pushed ! a) s"
    "\<forall>g. te_futures s' g = te_futures s g \<or> (\<exists>rx v. te_futures s g = Some (Batched rx) \<and> rx_value rx = None \<and>
      te_futures s' g = Some (Batched (rx\<lparr>rx_value := Some v\<rparr>)))"
    "\<exists>rx v. te_futures s' (pushed ! a) = Some (Batched (rx\<lparr>rx_value := Some v\<rparr>))"
proof -
  let ?parked = "contents (stealer (inner (te_queue s)))" and ?n = "length pushed"
  let ?t = "\<lambda>j. tasks ! (pushed ! (j - c))" and ?f = "\<lambda>j. pushed ! (j - c)"
  have t: "tasks_at op tasks pushed a s" and p: "parked_at (length tasks) pushed ?parked s"
    using assms(1) by (simp_all add: task_executor_inv_def)
  have "te_jobs s \<noteq> []" using assms(2) by auto
  then obtain ph where jobs: "te_jobs s = [\<lparr>pa_base_slot = mk_slot (c + a) ph\<rparr>]"
    and held: "tasks_held ?t ?f k (c + a) (c + ?n) (te_queue s)"
    using assms(1) by (auto simp: task_executor_inv_def jobs_at_def)
  have a: "a < ?n" using one_batch_window [OF held] by simp
  have l: "l = 0" using assms(2) jobs by simp
  define rx where "rx j = (THE rx. te_futures s (?f j) = Some (Batched rx))" for j
  have wait: "waiting_at (?f j) s" if "j \<in> {c + a..<c + ?n}" for j
  proof -
    have "\<not> j - c < a" "j - c < ?n" using that by auto
    then show ?thesis using t by (auto simp: tasks_at_def)
  qed
  have rx: "te_futures s (?f j) = Some (Batched (rx j))" "rx_value (rx j) = None" "rx_waker (rx j) = ?f j"
    if "j \<in> {c + a..<c + ?n}" for j
    using wait [OF that] by (auto simp: waiting_at_def rx_def)
  have inj: "inj_on ?f {c + a..<c + ?n}"
    using t by (intro inj_onI) (auto simp: tasks_at_def nth_eq_iff_index_eq)
  have live: "\<forall>j\<in>{c + a..<c + ?n}. te_futures s (?f j) = Some (Batched (rx j))" using rx(1) by blast
  have env: "process_env k dpush steal contents retries" using assms(3-6) by (simp add: process_env_def)
  obtain q' woken futs' where run: "echo_batch_process steal op (2 ^ k) \<lparr>pa_base_slot = mk_slot (c + a) ph\<rparr>
      (te_queue s) (te_futures s) = Inr (map (\<lambda>j. rx_waker (rx j)) [c + a..<c + ?n] @ woken, q', futs')"
    and set: "\<forall>j\<in>{c + a..<c + ?n}. futs' (?f j) = Some (Batched (rx j\<lparr>rx_value := Some (op (?t j))\<rparr>))"
    and frame: "\<forall>g. g \<notin> ?f ` {c + a..<c + ?n} \<longrightarrow> futs' g = te_futures s g"
    and q': "idle k (c + ?n) q'" "woken @ contents (stealer (inner q')) = ?parked" "length woken = min (2 ^ (k - 3)) (length ?parked)"
    using map_processes [where futs = "te_futures s" and rx = rx and op = op, OF env held inj live] by blast
  have "map (\<lambda>j. rx_waker (rx j)) [c + a..<c + ?n] = map ?f [c + a..<c + ?n]" using rx(3) by simp
  also have "\<dots> = drop a pushed" by (intro nth_equalityI) simp_all
  finally have wakers: "map (\<lambda>j. rx_waker (rx j)) [c + a..<c + ?n] = drop a pushed" .
  let ?s = "s\<lparr>te_queue := q', te_futures := futs', te_ready := te_ready s \<union> set (drop a pushed @ woken), te_jobs := []\<rparr>"
  have ran: "run_job steal op (2 ^ k) l s = Inr ?s" using run by (simp add: run_job_def l jobs wakers)
  have split: "set ?parked = set woken \<union> set (contents (stealer (inner q')))" "distinct (contents (stealer (inner q')))"
    "set woken \<inter> set (contents (stealer (inner q'))) = {}"
    using p unfolding q'(2) [symmetric] by (auto simp: parked_at_def)
  have woken: "set woken \<subseteq> {..<length tasks} - set pushed" using p split(1) by (auto simp: parked_at_def)
  have img: "?f ` {c + a..<c + ?n} = set (drop a pushed)"
    using arg_cong [OF \<open>map ?f [c + a..<c + ?n] = drop a pushed\<close>, of set] by simp
  have resolved: "resolved_at op tasks (pushed ! j) ?s" if j: "j < ?n" for j
  proof (cases "j < a")
    case True
    have "pushed ! j \<notin> set (drop a pushed)"
      using t True j by (auto simp: tasks_at_def in_set_conv_nth nth_eq_iff_index_eq)
    moreover have "pushed ! j \<notin> set woken" using woken j by auto
    moreover have "resolved_at op tasks (pushed ! j) s" using t True j by (simp add: tasks_at_def)
    ultimately show ?thesis using frame by (simp add: resolved_at_def img)
  next
    case False
    then have "pushed ! j \<in> set (drop a pushed)" using j by (auto simp: in_set_conv_nth intro!: exI [of _ "j - a"])
    moreover have "futs' (pushed ! j) = Some (Batched (rx (c + j)\<lparr>rx_value := Some (op (tasks ! (pushed ! j)))\<rparr>))"
      using bspec [OF set, of "c + j"] False j by simp
    ultimately show ?thesis by (simp add: resolved_at_def)
  qed
  have received: "futs' g = Some Received \<longleftrightarrow> te_futures s g = Some Received" for g
    using set frame rx(1) by (cases "g \<in> ?f ` {c + a..<c + ?n}") auto
  have "futs' i = te_futures s i" if "i \<notin> set pushed" for i
    using frame that set_drop_subset [of a pushed] by (auto simp: img)
  then have "tasks_at op tasks pushed ?n ?s"
    using t resolved by (auto simp: tasks_at_def received)
  moreover have "parked_at (length tasks) pushed (contents (stealer (inner q'))) ?s"
    using p split woken t set_drop_subset [of a pushed] by (auto simp: parked_at_def tasks_at_def)
  moreover have "\<exists>i\<in>te_ready ?s. i \<notin> set pushed" if "contents (stealer (inner q')) \<noteq> []"
  proof -
    have "?parked \<noteq> []" using that q'(2) by auto
    then have "0 < length woken" unfolding q'(3) by simp
    then obtain g where "g \<in> set woken" by (cases woken) auto
    then show ?thesis using woken by auto
  qed
  then have "jobs_at k c tasks pushed (contents (stealer (inner q'))) ?n ?s"
    using q'(1) by (simp add: jobs_at_def)
  ultimately have inv: "task_executor_inv k c contents op tasks pushed ?n ?s" by (simp add: task_executor_inv_def)
  have "\<forall>g. futs' g = te_futures s g \<or> (\<exists>rx v. te_futures s g = Some (Batched rx) \<and> rx_value rx = None \<and>
      futs' g = Some (Batched (rx\<lparr>rx_value := Some v\<rparr>)))"
  proof
    fix g
    show "futs' g = te_futures s g \<or> (\<exists>rx v. te_futures s g = Some (Batched rx) \<and> rx_value rx = None \<and>
      futs' g = Some (Batched (rx\<lparr>rx_value := Some v\<rparr>)))"
    proof (cases "g \<in> ?f ` {c + a..<c + ?n}")
      case True
      then obtain j where j: "g = ?f j" "j \<in> {c + a..<c + ?n}" by blast
      from bspec [OF set j(2)] rx(1,2) [OF j(2)] show ?thesis unfolding j(1) by blast
    next
      case False
      then show ?thesis using frame by simp
    qed
  qed
  moreover have "\<exists>rx v. futs' (pushed ! a) = Some (Batched (rx\<lparr>rx_value := Some v\<rparr>))"
    using bspec [OF set, of "c + a"] a by auto
  moreover have "waiting_at (pushed ! a) s" using wait [of "c + a"] a by simp
  ultimately show ?thesis using that [OF ran inv a] by simp
qed

section \<open>Every run ends\<close>

text \<open>
  What is left to do: a task is pushed, its batch processed, its value returned; and a parked future
  becomes ready again only when a batch was processed.
\<close>

fun task_left :: "('u, 't, 'v, 'wk) batched_task option \<Rightarrow> nat" where
  "task_left (Some (Unbatched task)) = 3"
| "task_left (Some (Batched rx)) = (if rx_value rx = None then 2 else 1)"
| "task_left (Some Received) = 0"
| "task_left None = 0"

definition tasks_left :: "nat \<Rightarrow> ('t, 'v, 'd) task_executor \<Rightarrow> nat" where
  "tasks_left n s = Suc n * (\<Sum>i<n. task_left (te_futures s i)) + card (te_ready s)"

lemma tasks_left_less:
  assumes "\<forall>i. task_left (te_futures s' i) \<le> task_left (te_futures s i)" "te_ready s' \<subseteq> {..<n}"
    and "g < n" "task_left (te_futures s' g) < task_left (te_futures s g)"
  shows "tasks_left n s' < tasks_left n s"
proof -
  let ?x = "\<lambda>s. \<Sum>i<n. task_left (te_futures s i)"
  have "?x s' < ?x s" using assms(1,3,4) by (intro sum_strict_mono_ex1) auto
  then have "Suc n * ?x s' + Suc n \<le> Suc n * ?x s" using mult_le_mono2 [of "Suc (?x s')" "?x s" "Suc n"] by simp
  moreover have "card (te_ready s') \<le> n" using card_mono [OF _ assms(2)] by simp
  ultimately show ?thesis by (simp add: tasks_left_def)
qed

lemma tasks_inv_ready:
  "task_executor_inv k c contents op tasks pushed a s \<Longrightarrow> te_ready s \<subseteq> {..<length tasks}"
  by (simp add: task_executor_inv_def parked_at_def)

lemma tasks_inv_polls:
  fixes s :: "('t, 'v, 'd) task_executor"
  assumes "task_executor_inv k c contents op tasks pushed a s" "i \<in> te_ready s"
    and "6 \<le> k" "k < 32" "fifo_deque dpush steal contents"
  shows "\<exists>s' pushed'. poll_task dpush (2 ^ k) i s = Inr s' \<and> task_executor_inv k c contents op tasks pushed' a s' \<and>
    tasks_left (length tasks) s' < tasks_left (length tasks) s"
proof -
  have i: "i < length tasks" and fin: "finite (te_ready s)"
    using tasks_inv_ready [OF assms(1)] assms(2) by (auto intro: finite_subset)
  show ?thesis
  proof (cases "i \<in> set pushed")
    case True
    obtain s' rx where s': "poll_task dpush (2 ^ k) i s = Inr s'" "task_executor_inv k c contents op tasks pushed a s'"
      "te_futures s i = Some (Batched rx)" "rx_value rx \<noteq> None" "te_futures s' = (te_futures s)(i \<mapsto> Received)"
      by (rule task_poll_returns [OF assms(1,2) True])
    have "tasks_left (length tasks) s' < tasks_left (length tasks) s"
      by (rule tasks_left_less [OF _ tasks_inv_ready [OF s'(2)] i]) (use s'(3,4) in \<open>simp_all add: s'(5)\<close>)
    with s'(1,2) show ?thesis by blast
  next
    case False
    have fut: "te_futures s i = Some (Unbatched (tasks ! i))"
      using assms(1) False i by (simp add: task_executor_inv_def tasks_at_def)
    have pushes: ?thesis if "poll_task dpush (2 ^ k) i s = Inr s'" "task_executor_inv k c contents op tasks (pushed @ [i]) a s'"
      "te_futures s' = (te_futures s)(i \<mapsto> Batched (receiver_new state i))" for s' state
    proof -
      have "tasks_left (length tasks) s' < tasks_left (length tasks) s"
        by (rule tasks_left_less [OF _ tasks_inv_ready [OF that(2)] i]) (use fut in \<open>simp_all add: that(3) receiver_new_def\<close>)
      with that(1,2) show ?thesis by blast
    qed
    show ?thesis
    proof (cases "te_jobs s = []")
      case True
      show ?thesis by (rule task_poll_opens [OF assms(1,2) False True assms(3,4)]) (rule pushes)
    next
      case jobs: False
      show ?thesis
        using assms(1,2) False jobs assms(3-5)
      proof (cases rule: task_poll_pushes)
        case (joins s' state)
        then show ?thesis by (rule pushes)
      next
        case (parks s')
        have "card (te_ready s - {i}) < card (te_ready s)" using assms(2) fin by (rule card_Diff1_less [rotated])
        then have "tasks_left (length tasks) s' < tasks_left (length tasks) s" unfolding tasks_left_def parks(3,4) by simp
        with parks(1,2) show ?thesis by blast
      qed
    qed
  qed
qed

lemma tasks_inv_runs:
  fixes s :: "('t, 'v, 'd) task_executor"
  assumes "task_executor_inv k c contents op tasks pushed a s" "j < length (te_jobs s)" "6 \<le> k" "k < 32"
    and "fifo_deque dpush steal contents" "steal_progress steal retries"
  shows "\<exists>s' a'. run_job steal op (2 ^ k) j s = Inr s' \<and> task_executor_inv k c contents op tasks pushed a' s' \<and>
    tasks_left (length tasks) s' < tasks_left (length tasks) s"
proof -
  obtain s' where s': "run_job steal op (2 ^ k) j s = Inr s'" "task_executor_inv k c contents op tasks pushed (length pushed) s'"
    "a < length pushed" "waiting_at (pushed ! a) s"
    "\<forall>g. te_futures s' g = te_futures s g \<or> (\<exists>rx v. te_futures s g = Some (Batched rx) \<and> rx_value rx = None \<and>
      te_futures s' g = Some (Batched (rx\<lparr>rx_value := Some v\<rparr>)))"
    "\<exists>rx v. te_futures s' (pushed ! a) = Some (Batched (rx\<lparr>rx_value := Some v\<rparr>))"
    by (rule job_runs [OF assms])
  have "task_left (te_futures s' g) \<le> task_left (te_futures s g)" for g using s'(5) by (auto dest: spec [of _ g])
  moreover have "task_left (te_futures s' (pushed ! a)) < task_left (te_futures s (pushed ! a))"
    using s'(4,6) by (auto simp: waiting_at_def)
  moreover have "pushed ! a < length tasks"
    using assms(1) s'(3) by (auto simp: task_executor_inv_def tasks_at_def dest: nth_mem)
  ultimately have "tasks_left (length tasks) s' < tasks_left (length tasks) s"
    by (intro tasks_left_less [OF _ tasks_inv_ready [OF s'(2)]]) blast+
  with s'(1,2) show ?thesis by blast
qed

inductive_cases task_executor_stepE: "task_executor_step dpush steal op N s s'"

lemma tasks_inv_step:
  fixes s :: "('t, 'v, 'd) task_executor"
  assumes "task_executor_step dpush steal op (2 ^ k) s s'" "task_executor_inv k c contents op tasks pushed a s" "6 \<le> k" "k < 32"
    and "fifo_deque dpush steal contents" "steal_progress steal retries"
  obtains pushed' a' where "task_executor_inv k c contents op tasks pushed' a' s'"
    "tasks_left (length tasks) s' < tasks_left (length tasks) s"
  using assms(1)
proof (rule task_executor_stepE)
  fix i
  assume i: "i \<in> te_ready s" "poll_task dpush (2 ^ k) i s = Inr s'"
  show ?thesis
    using tasks_inv_polls [OF assms(2) i(1) assms(3-5)] that i(2) by auto
next
  fix j
  assume j: "j < length (te_jobs s)" "run_job steal op (2 ^ k) j s = Inr s'"
  show ?thesis
    using tasks_inv_runs [OF assms(2) j(1) assms(3-6)] that j(2) by auto
qed

lemma tasks_inv_run:
  fixes s :: "('t, 'v, 'd) task_executor"
  assumes "(task_executor_step dpush steal op (2 ^ k) ^^ m) s0 s" "task_executor_inv k c contents op tasks pushed a s0"
    and "6 \<le> k" "k < 32" "fifo_deque dpush steal contents" "steal_progress steal retries"
  obtains pushed' a' where "task_executor_inv k c contents op tasks pushed' a' s"
    "tasks_left (length tasks) s + m \<le> tasks_left (length tasks) s0"
  using assms(1)
proof (induction m arbitrary: s thesis)
  case 0
  then show ?case using assms(2) by auto
next
  case (Suc m)
  then obtain s1 where s1: "(task_executor_step dpush steal op (2 ^ k) ^^ m) s0 s1" "task_executor_step dpush steal op (2 ^ k) s1 s"
    by auto
  obtain pushed1 a1 where i1: "task_executor_inv k c contents op tasks pushed1 a1 s1"
    "tasks_left (length tasks) s1 + m \<le> tasks_left (length tasks) s0"
    by (rule Suc.IH [OF _ s1(1)])
  obtain pushed' a' where "task_executor_inv k c contents op tasks pushed' a' s"
    "tasks_left (length tasks) s < tasks_left (length tasks) s1"
    by (rule tasks_inv_step [OF s1(2) i1(1) assms(3-6)])
  then show ?case using i1(2) by (intro Suc.prems(1)) simp_all
qed

text \<open>When nothing is ready and nothing spawned is left, all futures have returned, and no batch runs.\<close>

lemma tasks_inv_finished:
  fixes s :: "('t, 'v, 'd) task_executor"
  assumes "task_executor_inv k c contents op tasks pushed a s" "te_ready s = {}" "te_jobs s = []"
  shows "set (te_results s) = {(i, op (tasks ! i)) | i. i < length tasks}" "distinct (map fst (te_results s))"
    and "idle k (c + length tasks) (te_queue s)" "contents (stealer (inner (te_queue s))) = []"
proof -
  let ?parked = "contents (stealer (inner (te_queue s)))"
  have t: "tasks_at op tasks pushed a s" and p: "parked_at (length tasks) pushed ?parked s"
    and j: "jobs_at k c tasks pushed ?parked a s"
    using assms(1) by (simp_all add: task_executor_inv_def)
  show none: "?parked = []" using j assms(2,3) by (auto simp: jobs_at_def)
  have "set pushed \<subseteq> {..<length tasks}" using t by (simp add: tasks_at_def)
  moreover have "i \<in> set pushed" if "i < length tasks" for i using p assms(2) none that by (auto simp: parked_at_def)
  ultimately have all: "set pushed = {..<length tasks}" by auto
  have "distinct pushed" using t by (simp add: tasks_at_def)
  then have n: "length pushed = length tasks" using all by (metis card_lessThan distinct_card)
  then show "idle k (c + length tasks) (te_queue s)" using j assms(3) by (simp add: jobs_at_def)
  have "te_futures s i = Some Received" if "i < length tasks" for i
  proof -
    have "i \<in> set pushed" using all that by simp
    then obtain l where l: "l < length pushed" "pushed ! l = i" by (auto simp: in_set_conv_nth)
    have "a = length pushed" using j assms(3) by (simp add: jobs_at_def)
    then have "resolved_at op tasks (pushed ! l) s" using t l(1) by (simp add: tasks_at_def)
    then have "resolved_at op tasks i s" unfolding l(2) .
    then show ?thesis using assms(2) by (simp add: resolved_at_def)
  qed
  then show "set (te_results s) = {(i, op (tasks ! i)) | i. i < length tasks}" using t by (auto simp: tasks_at_def)
  show "distinct (map fst (te_results s))" using t by (simp add: tasks_at_def)
qed

lemma tasks_run_to_end:
  fixes s :: "('t, 'v, 'd) task_executor"
  assumes "task_executor_inv k c contents op tasks pushed a s"
    and "6 \<le> k" "k < 32" "fifo_deque dpush steal contents" "steal_progress steal retries"
  shows "\<exists>m s'. (task_executor_step dpush steal op (2 ^ k) ^^ m) s s' \<and> te_ready s' = {} \<and> te_jobs s' = []"
  using assms(1)
proof (induction "tasks_left (length tasks) s" arbitrary: s pushed a rule: less_induct)
  case less
  have continue: ?case if step: "task_executor_step dpush steal op (2 ^ k) s s1" for s1
  proof (rule tasks_inv_step [OF step less.prems assms(2-5)])
    fix pushed1 a1
    assume "task_executor_inv k c contents op tasks pushed1 a1 s1" "tasks_left (length tasks) s1 < tasks_left (length tasks) s"
    from less.hyps [OF this(2,1)] obtain m s' where
      s': "(task_executor_step dpush steal op (2 ^ k) ^^ m) s1 s'" "te_ready s' = {}" "te_jobs s' = []" by blast
    from relpowp_Suc_I2 [OF step s'(1)] s'(2,3) show ?thesis by blast
  qed
  consider "te_ready s = {}" "te_jobs s = []" | i where "i \<in> te_ready s" | "0 < length (te_jobs s)" by auto
  then show ?case
  proof cases
    case 1
    then show ?thesis by (intro exI [of _ 0]) auto
  next
    case 2
    obtain s1 where "poll_task dpush (2 ^ k) i s = Inr s1" using tasks_inv_polls [OF less.prems 2 assms(2-4)] by blast
    from continue [OF poll_task_woken [OF 2 this]] show ?thesis .
  next
    case 3
    obtain s1 where "run_job steal op (2 ^ k) 0 s = Inr s1" using tasks_inv_runs [OF less.prems 3 assms(2-5)] by blast
    from continue [OF run_spawned [OF 3 this]] show ?thesis .
  qed
qed

section \<open>The program\<close>

text \<open>
  The values that the rounds return, in order: \<open>FuturesUnordered\<close> of each chunk of tasks, run until it
  is empty. The queue is that of the thread throughout.
\<close>

inductive process_rounds ::
    "('d \<Rightarrow> nat \<Rightarrow> 'd) \<Rightarrow> ('d \<Rightarrow> nat steal \<times> 'd) \<Rightarrow> ('t \<Rightarrow> 'v) \<Rightarrow> 64 word \<Rightarrow> 't list list
      \<Rightarrow> (64 word, (64 word, 't, nat) task_ref, 'd) stack_queue \<Rightarrow> 'v list
      \<Rightarrow> (64 word, (64 word, 't, nat) task_ref, 'd) stack_queue \<Rightarrow> bool"
  for dpush :: "'d \<Rightarrow> nat \<Rightarrow> 'd" and steal :: "'d \<Rightarrow> nat steal \<times> 'd" and op :: "'t \<Rightarrow> 'v" and N :: "64 word" where
  seed_empty: "process_rounds dpush steal op N [] q [] q"
| seed_chunk:
    "(task_executor_step dpush steal op N)\<^sup>*\<^sup>* (task_executor_start q tasks) s \<Longrightarrow> te_ready s = {} \<Longrightarrow> te_jobs s = [] \<Longrightarrow>
     process_rounds dpush steal op N chunks (te_queue s) vs q' \<Longrightarrow>
     process_rounds dpush steal op N (tasks # chunks) q (map snd (te_results s) @ vs) q'"

text \<open>\<open>total.wrapping_add(val as u128)\<close> over the values.\<close>

definition wrapping_total :: "64 word list \<Rightarrow> 128 word" where
  "wrapping_total vals = foldl (\<lambda>tot val. tot + ucast val) 0 vals"

lemma wrapping_total_sum: "wrapping_total vals = sum_list (map ucast vals)"
proof -
  have "foldl (\<lambda>tot val. tot + ucast val) acc vals = acc + sum_list (map ucast vals)" for acc :: "128 word"
    by (induction vals arbitrary: acc) (simp_all add: add.assoc)
  then show ?thesis by (simp add: wrapping_total_def)
qed

lemma results_values:
  assumes "set results = {(i, f (tasks ! i)) | i. i < length tasks}" "distinct (map fst results)"
  shows "mset (map snd results) = mset (map f tasks)"
proof -
  have "distinct results" using assms(2) by (simp add: distinct_map)
  moreover have "set results = set (map (\<lambda>i. (i, f (tasks ! i))) [0..<length tasks])" using assms(1) by auto
  moreover have "distinct (map (\<lambda>i. (i, f (tasks ! i))) [0..<length tasks])" by (simp add: distinct_map inj_on_def)
  ultimately have "mset results = mset (map (\<lambda>i. (i, f (tasks ! i))) [0..<length tasks])"
    by (simp only: set_eq_iff_mset_eq_distinct)
  then have "mset (map snd results) = image_mset snd (mset (map (\<lambda>i. (i, f (tasks ! i))) [0..<length tasks]))"
    by (simp only: mset_map)
  also have "\<dots> = mset (map f (map ((!) tasks) [0..<length tasks]))"
    by (simp only: mset_map [symmetric] map_map comp_def snd_conv)
  finally show ?thesis by (simp only: map_nth)
qed

lemma rounds_values:
  assumes "process_rounds dpush steal op (2 ^ k) chunks q vs q'" "idle k c q" "contents (stealer (inner q)) = []"
    and "6 \<le> k" "k < 32" "fifo_deque dpush steal contents" "steal_progress steal retries"
  shows "mset vs = mset (map op (concat chunks))"
  using assms(1-3)
proof (induction arbitrary: c rule: process_rounds.induct)
  case (seed_empty q)
  then show ?case by simp
next
  case (seed_chunk q tasks s chunks vs q')
  obtain m where m: "(task_executor_step dpush steal op (2 ^ k) ^^ m) (task_executor_start q tasks) s"
    using seed_chunk.hyps(1) by (auto simp: rtranclp_power)
  obtain pushed a where inv: "task_executor_inv k c contents op tasks pushed a s"
    by (rule tasks_inv_run [OF m task_executor_inv_start [where contents = contents and op = op and tasks = tasks, OF seed_chunk.prems] assms(4-7)])
  note fin = tasks_inv_finished [OF inv seed_chunk.hyps(2,3)]
  have "mset vs = mset (map op (concat chunks))" by (rule seed_chunk.IH [OF fin(3,4)])
  moreover have "mset (map snd (te_results s)) = mset (map op tasks)" by (rule results_values [OF fin(1,2)])
  ultimately show ?case by simp
qed

lemma rounds_run:
  assumes "idle k c q" "contents (stealer (inner q)) = []"
    and "6 \<le> k" "k < 32" "fifo_deque dpush steal contents" "steal_progress steal retries"
  shows "\<exists>vs q'. process_rounds dpush steal op (2 ^ k) chunks q vs q'"
  using assms(1,2)
proof (induction chunks arbitrary: c q)
  case Nil
  show ?case by (blast intro: process_rounds.intros)
next
  case (Cons tasks chunks)
  note start = task_executor_inv_start [where contents = contents and op = op and tasks = tasks, OF Cons.prems]
  obtain m s where s: "(task_executor_step dpush steal op (2 ^ k) ^^ m) (task_executor_start q tasks) s" "te_ready s = {}" "te_jobs s = []"
    using tasks_run_to_end [OF start assms(3-6)] by blast
  obtain pushed a where inv: "task_executor_inv k c contents op tasks pushed a s" by (rule tasks_inv_run [OF s(1) start assms(3-6)])
  from Cons.IH [OF tasks_inv_finished(3,4) [OF inv s(2,3)]] obtain vs q' where
    "process_rounds dpush steal op (2 ^ k) chunks (te_queue s) vs q'" by blast
  from seed_chunk [OF relpowp_imp_rtranclp [OF s(1)] s(2,3) this] show ?case by blast
qed

section \<open>The properties\<close>

text \<open>
  C6. Any number of \<open>TaskQueue\<close> futures on a queue that one thread owns, polled when woken and their
  batches processed in any order: no poll and no \<open>batch_process\<close> runs into a fault; there are boundedly
  many steps; and when nothing is left to do, every future has returned exactly once, with the value
  of its own task. So no future is left waiting, whether it was batched or found the queue full.
\<close>

theorem tasks_all_resolve:
  fixes s :: "('t, 'v, 'd) task_executor"
  assumes "6 \<le> k" "k < 32" "fifo_deque dpush steal contents" "steal_progress steal retries"
    and "stack_queue_default task_ref_new_uninit (2 ^ k :: 64 word) d = Some q" "contents d = []"
    and "(task_executor_step dpush steal op (2 ^ k) ^^ m) (task_executor_start q tasks) s"
  shows "m \<le> 3 * length tasks * Suc (length tasks) + length tasks \<and>
    (\<forall>i\<in>te_ready s. \<exists>s'. poll_task dpush (2 ^ k) i s = Inr s') \<and>
    (\<forall>j<length (te_jobs s). \<exists>s'. run_job steal op (2 ^ k) j s = Inr s') \<and>
    (te_ready s = {} \<longrightarrow> te_jobs s = [] \<longrightarrow>
      set (te_results s) = {(i, op (tasks ! i)) | i. i < length tasks} \<and> distinct (map fst (te_results s)))"
proof -
  let ?start = "task_executor_start q tasks :: ('t, 'v, 'd) task_executor"
  have "idle k 0 q" "contents (stealer (inner q)) = []"
    using default_queue_idle [OF assms(1,2,5)] assms(6) by simp_all
  then have start: "task_executor_inv k 0 contents op tasks [] 0 ?start"
    by (rule task_executor_inv_start)
  obtain pushed a where inv: "task_executor_inv k 0 contents op tasks pushed a s"
    and left: "tasks_left (length tasks) s + m \<le> tasks_left (length tasks) ?start"
    by (rule tasks_inv_run [OF assms(7) start assms(1-4)])
  have "tasks_left (length tasks) ?start = 3 * length tasks * Suc (length tasks) + length tasks"
    by (simp add: tasks_left_def task_executor_start_def task_queue_auto_batch_def batched_task_new_def)
  then have "m \<le> 3 * length tasks * Suc (length tasks) + length tasks" using left by simp
  moreover have "\<exists>s'. poll_task dpush (2 ^ k) i s = Inr s'" if "i \<in> te_ready s" for i
    using tasks_inv_polls [OF inv that assms(1-3)] by blast
  moreover have "\<exists>s'. run_job steal op (2 ^ k) j s = Inr s'" if "j < length (te_jobs s)" for j
    using tasks_inv_runs [OF inv that assms(1-4)] by blast
  ultimately show ?thesis using tasks_inv_finished(1,2) [OF inv] by blast
qed

text \<open>
  The test \<open>it_process_tasks\<close>, for any seed and however it is cut into rounds: all rounds come to
  their end, and however they run, the wrapping sum of the values that the futures returned is that of
  the tasks.
\<close>

theorem process_tasks_total:
  assumes "6 \<le> k" "k < 32" "fifo_deque dpush steal contents" "steal_progress steal retries"
    and "stack_queue_default task_ref_new_uninit (2 ^ k :: 64 word) d = Some q" "contents d = []"
  shows "(\<exists>vals q'. process_rounds dpush steal (\<lambda>val. val) (2 ^ k) chunks q vals q') \<and>
    (\<forall>vals q'. process_rounds dpush steal (\<lambda>val. val) (2 ^ k) chunks q vals q' \<longrightarrow>
      wrapping_total vals = wrapping_total (concat chunks))"
proof -
  have q: "idle k 0 q" "contents (stealer (inner q)) = []"
    using default_queue_idle [OF assms(1,2,5)] assms(6) by simp_all
  have "wrapping_total vals = wrapping_total (concat chunks)"
    if "process_rounds dpush steal (\<lambda>val. val) (2 ^ k) chunks q vals q'" for vals q'
  proof -
    have "mset vals = mset (concat chunks)" using rounds_values [OF that q assms(1-4)] by simp
    then have "mset (map ucast vals :: 128 word list) = mset (map ucast (concat chunks))" by simp
    then show ?thesis unfolding wrapping_total_sum by (metis sum_mset_sum_list)
  qed
  then show ?thesis using rounds_run [OF q assms(1-4)] by blast
qed

text \<open>A hundred tasks on a queue of 64 cells, all at once and in two rounds.\<close>

theorem tasks_all_resolve_witness:
  "\<exists>q m s. stack_queue_default task_ref_new_uninit (2 ^ 6 :: 64 word) ([] :: nat list) = Some q \<and>
    (task_executor_step list_push list_steal Suc (2 ^ 6) ^^ m) (task_executor_start q [0..<100]) s \<and>
    set (te_results s) = {(i, Suc i) | i. i < 100} \<and> distinct (map fst (te_results s))"
proof -
  obtain q :: "(64 word, (64 word, nat, nat) task_ref, nat list) stack_queue" where
    q: "stack_queue_default task_ref_new_uninit (2 ^ 6 :: 64 word) ([] :: nat list) = Some q"
    using default_queue_at [of 6 task_ref_new_uninit "[]"] by auto
  have "idle 6 0 q" using default_queue_idle [OF _ _ q] by simp
  then have start: "task_executor_inv 6 0 (\<lambda>d. d) Suc [0..<100] [] 0 (task_executor_start q [0..<100])"
    using default_queue_idle [OF _ _ q] by (intro task_executor_inv_start) simp_all
  from tasks_run_to_end [OF start _ _ list_deque] obtain m s where
    run: "(task_executor_step list_push list_steal Suc (2 ^ 6) ^^ m) (task_executor_start q [0..<100]) s" "te_ready s = {}" "te_jobs s = []"
    by auto
  have "{(i, Suc ([0..<100] ! i)) | i. i < length [0..<100]} = {(i, Suc i) | i. i < 100}" by auto
  with tasks_all_resolve [OF _ _ list_deque q _ run(1)] run q show ?thesis by auto
qed

theorem process_tasks_total_witness:
  "\<exists>q vals q'. stack_queue_default task_ref_new_uninit (2 ^ 6 :: 64 word) ([] :: nat list) = Some q \<and>
    process_rounds list_push list_steal (\<lambda>val. val) (2 ^ 6) [[7, 8], replicate 100 1] q vals q' \<and> wrapping_total vals = 115"
proof -
  obtain q :: "(64 word, (64 word, 64 word, nat) task_ref, nat list) stack_queue" where
    q: "stack_queue_default task_ref_new_uninit (2 ^ 6 :: 64 word) ([] :: nat list) = Some q"
    using default_queue_at [of 6 task_ref_new_uninit "[]"] by auto
  have "wrapping_total (concat [[7, 8], replicate 100 1]) = 115" by (simp add: wrapping_total_sum sum_list_replicate)
  with process_tasks_total [OF _ _ list_deque q, of "[[7, 8], replicate 100 1]"] q show ?thesis by fastforce
qed

end
