(* ===== verification/CancelledFutures.thy ===== *)
theory CancelledFutures
  imports Executor
begin

unbundle bit_operations_syntax

text \<open>
  Futures of a \<open>BatchReducer\<close> that are dropped before they return, reducers that panic, and polls that
  nobody asked for: whoever drives the futures may poll and drop them in any order. What the
  futures do when they are dropped extends the contract of \<open>Executor\<close>.
\<close>

section \<open>Destructors\<close>

text \<open>
  The drop glue of the enums: the task that was not pushed, or the batch, whose own destructor drops
  its tasks, wakes pending wakers and frees the region. The tasks dropped and the wakers woken are the
  first components of the results. The waker that was parked for a future stays in the deque.
\<close>

definition batch_collect_drop ::
    "('d \<Rightarrow> 'wk steal \<times> 'd) \<Rightarrow> bool \<Rightarrow> 'w::len word \<Rightarrow> ('th, 'w word, 't) batch_collect
      \<Rightarrow> ('th \<Rightarrow> ('w word, 't buffer_cell, 'd) stack_queue)
      \<Rightarrow> fault + 't list \<times> 'wk list \<times> ('th \<Rightarrow> ('w word, 't buffer_cell, 'd) stack_queue)" where
  "batch_collect_drop steal drops N fut queues =
     (case fut of
        CollectUnbatched task \<Rightarrow> Inr (if drops then [task] else [], [], queues)
      | CollectCollecting home batch \<Rightarrow>
          bind_sum (unbounded_range_drop steal drops N batch (inner (queues home))) (\<lambda>(dropped, woken, s).
          Inr (dropped, woken, queues(home := queues home\<lparr>inner := s\<rparr>)))
      | CollectBatched \<Rightarrow> Inr ([], [], queues))"

text \<open>The reducer is dropped with the task or the batch; what it has captured is not modelled.\<close>

definition batch_reduce_drop ::
    "('d \<Rightarrow> 'wk steal \<times> 'd) \<Rightarrow> bool \<Rightarrow> 'w::len word \<Rightarrow> ('th, 'w word, 't, 'r) batch_reduce
      \<Rightarrow> ('th \<Rightarrow> ('w word, 't buffer_cell, 'd) stack_queue)
      \<Rightarrow> fault + 't list \<times> 'wk list \<times> ('th \<Rightarrow> ('w word, 't buffer_cell, 'd) stack_queue)" where
  "batch_reduce_drop steal drops N fut queues =
     (case fut of
        ReduceUnbatched task reducer \<Rightarrow> Inr (if drops then [task] else [], [], queues)
      | ReduceCollecting home batch reducer \<Rightarrow>
          bind_sum (unbounded_range_drop steal drops N batch (inner (queues home))) (\<lambda>(dropped, woken, s).
          Inr (dropped, woken, queues(home := queues home\<lparr>inner := s\<rparr>)))
      | ReduceBatched \<Rightarrow> Inr ([], [], queues))"

section \<open>Reducers that panic\<close>

text \<open>
  A reducer owns its iterator, so a panic drops it exactly as a return does: \<open>Finish None\<close> is a panic.
  By then the state of the future is \<open>Batched\<close>. \<open>None\<close> as the result of the poll: it unwinds.
\<close>

definition batch_reduce_poll_unwinding ::
    "('d \<Rightarrow> 'wk \<Rightarrow> 'd) \<Rightarrow> ('d \<Rightarrow> 'wk steal \<times> 'd) \<Rightarrow> bool \<Rightarrow> 'w::len word \<Rightarrow> 'th \<Rightarrow> 'wk
      \<Rightarrow> ('th, 'w word, 't, 'r option) batch_reduce \<Rightarrow> ('th \<Rightarrow> ('w word, 't buffer_cell, 'd) stack_queue)
      \<Rightarrow> fault + 'r option poll option \<times> 't list \<times> 'wk list \<times> ('th, 'w word, 't, 'r option) batch_reduce
           \<times> ('th \<Rightarrow> ('w word, 't buffer_cell, 'd) stack_queue)" where
  "batch_reduce_poll_unwinding dpush steal drops N here waker fut queues =
     bind_sum (batch_reduce_poll dpush steal drops N here waker fut queues) (\<lambda>(r, rest).
     Inr (case r of Pending \<Rightarrow> Some Pending | Ready None \<Rightarrow> Some (Ready None)
        | Ready (Some None) \<Rightarrow> None | Ready (Some (Some x)) \<Rightarrow> Some (Ready (Some x)), rest))"

section \<open>Driving futures at will\<close>

text \<open>
  The futures that are not dropped yet; those woken since they were polled; the values returned; and
  the tasks dropped. Waking a future that is gone does nothing.
\<close>

record ('f, 'r, 't, 'd) batch_system =
  bs_queue :: "(64 word, 't buffer_cell, 'd) stack_queue"
  bs_futures :: "nat \<rightharpoonup> 'f"
  bs_ready :: "nat set"
  bs_values :: "'r list"
  bs_dropped :: "'t list"

type_synonym ('f, 't, 'd) drop_fun =
  "'f \<Rightarrow> (64 word, 't buffer_cell, 'd) stack_queue
    \<Rightarrow> fault + 't list \<times> nat list \<times> (64 word, 't buffer_cell, 'd) stack_queue"

definition batch_system_start ::
    "(64 word, 't buffer_cell, 'd) stack_queue \<Rightarrow> 'f list \<Rightarrow> ('f, 'r, 't, 'd) batch_system" where
  "batch_system_start q futs = \<lparr>bs_queue = q, bs_futures = (\<lambda>i. if i < length futs then Some (futs ! i) else None),
     bs_ready = {..<length futs}, bs_values = [], bs_dropped = []\<rparr>"

definition poll_future :: "('f, 'r, 't, 'd) poll_fun \<Rightarrow> nat \<Rightarrow> 'f \<Rightarrow> ('f, 'r, 't, 'd) batch_system
    \<Rightarrow> fault + ('f, 'r, 't, 'd) batch_system" where
  "poll_future poll i f s =
     bind_sum (poll i f (bs_queue s)) (\<lambda>(r, dropped, woken, f', q).
     Inr (s\<lparr>bs_queue := q, bs_futures := (bs_futures s)(i \<mapsto> f'),
          bs_ready := bs_ready s - {i} \<union> set woken \<inter> dom (bs_futures s),
          bs_values := bs_values s @ (case r of Ready (Some v) \<Rightarrow> [v] | _ \<Rightarrow> []), bs_dropped := bs_dropped s @ dropped\<rparr>))"

definition drop_future :: "('f, 't, 'd) drop_fun \<Rightarrow> nat \<Rightarrow> 'f \<Rightarrow> ('f, 'r, 't, 'd) batch_system
    \<Rightarrow> fault + ('f, 'r, 't, 'd) batch_system" where
  "drop_future dropf i f s =
     bind_sum (dropf f (bs_queue s)) (\<lambda>(dropped, woken, q).
     Inr (s\<lparr>bs_queue := q, bs_futures := (bs_futures s)(i := None),
          bs_ready := (bs_ready s \<union> set woken \<inter> dom (bs_futures s)) - {i}, bs_dropped := bs_dropped s @ dropped\<rparr>))"

text \<open>With \<open>spurious\<close>, futures are polled also when they were not woken.\<close>

inductive batch_system_step ::
    "('f, 'r, 't, 'd) poll_fun \<Rightarrow> ('f, 't, 'd) drop_fun \<Rightarrow> bool \<Rightarrow> ('f, 'r, 't, 'd) batch_system
      \<Rightarrow> ('f, 'r, 't, 'd) batch_system \<Rightarrow> bool"
  for poll :: "('f, 'r, 't, 'd) poll_fun" and dropf :: "('f, 't, 'd) drop_fun" and spurious :: bool where
  future_polled: "bs_futures s i = Some f \<Longrightarrow> spurious \<or> i \<in> bs_ready s \<Longrightarrow> poll_future poll i f s = Inr s' \<Longrightarrow>
    batch_system_step poll dropf spurious s s'"
| future_dropped: "bs_futures s i = Some f \<Longrightarrow> drop_future dropf i f s = Inr s' \<Longrightarrow>
    batch_system_step poll dropf spurious s s'"

inductive_cases batch_system_stepE: "batch_system_step poll dropf spurious s s'"

section \<open>The account of the tasks\<close>

text \<open>
  \<open>c\<close> tasks were pushed; those in \<open>H\<close> are in the batch that a future holds. Every task is in \<open>H\<close>, or
  still with its future, or in one of the batches \<open>bs\<close> that were returned, or was dropped; and the
  tasks dropped are also those that were left of the returned batches.
\<close>

definition task_of :: "('f \<Rightarrow> 't future_view) \<Rightarrow> 'f option \<Rightarrow> 't multiset" where
  "task_of view fut = (case fut of None \<Rightarrow> {#} | Some f \<Rightarrow> (case view f of Unpushed t \<Rightarrow> {#t#} | _ \<Rightarrow> {#}))"

lemma task_of_None [simp]: "task_of view None = {#}"
  by (simp add: task_of_def)

definition tasks_of :: "('f \<Rightarrow> 't future_view) \<Rightarrow> nat \<Rightarrow> (nat \<rightharpoonup> 'f) \<Rightarrow> 't multiset" where
  "tasks_of view n futs = (\<Sum>i<n. task_of view (futs i))"

lemma tasks_of_update:
  assumes "i < n"
  shows "tasks_of view n (futs(i := x)) + task_of view (futs i) = tasks_of view n futs + task_of view x"
proof -
  have i: "i \<in> {..<n}" using assms by simp
  have "(\<Sum>j\<in>{..<n} - {i}. task_of view ((futs(i := x)) j)) = (\<Sum>j\<in>{..<n} - {i}. task_of view (futs j))"
    by (intro sum.cong) simp_all
  then show ?thesis
    unfolding tasks_of_def sum.remove [OF finite_lessThan i] by (simp add: ac_simps)
qed

lemma sum_nth_mset: "(\<Sum>i<length xs. {#xs ! i#}) = mset xs"
proof (induction xs rule: rev_induct)
  case (snoc x xs)
  have "(\<Sum>i<length xs. {#(xs @ [x]) ! i#}) = (\<Sum>i<length xs. {#xs ! i#})" by (intro sum.cong) (simp_all add: nth_append)
  then show ?case using snoc.IH by simp
qed simp

definition ledger :: "('f \<Rightarrow> 't future_view) \<Rightarrow> ('f \<Rightarrow> bool) \<Rightarrow> ('t list \<Rightarrow> 'r) \<Rightarrow> ('t list \<Rightarrow> 't list) \<Rightarrow> 't list
    \<Rightarrow> nat \<Rightarrow> 't multiset \<Rightarrow> ('f, 'r, 't, 'd) batch_system \<Rightarrow> bool" where
  "ledger view fits summary rest tasks c H s \<longleftrightarrow>
     dom (bs_futures s) \<subseteq> {..<length tasks} \<and> (\<forall>i f. bs_futures s i = Some f \<longrightarrow> fits f) \<and>
     size (tasks_of view (length tasks) (bs_futures s)) + c \<le> length tasks \<and>
     (\<exists>bs D. bs_values s = map summary bs \<and> mset (bs_dropped s) = D + mset (concat (map rest bs)) \<and>
       mset tasks = mset (concat bs) + D + H + tasks_of view (length tasks) (bs_futures s))"

definition none_holds :: "('f \<Rightarrow> 't future_view) \<Rightarrow> nat \<Rightarrow> nat \<Rightarrow> ('f, 'r, 't, 'd) batch_system \<Rightarrow> bool" where
  "none_holds view k c s \<longleftrightarrow> idle k c (bs_queue s) \<and> (\<forall>i f b. bs_futures s i = Some f \<longrightarrow> view f \<noteq> Holding b)"

definition one_holds :: "('f \<Rightarrow> 't future_view) \<Rightarrow> nat \<Rightarrow> (nat \<Rightarrow> 't) \<Rightarrow> nat \<Rightarrow> nat \<Rightarrow> nat \<Rightarrow> ('f, 'r, 't, 'd) batch_system \<Rightarrow> bool" where
  "one_holds view k t a c h s \<longleftrightarrow> one_held t k a c (bs_queue s) \<and>
     (\<exists>f b. bs_futures s h = Some f \<and> view f = Holding b \<and> holds a b) \<and>
     (\<forall>i f b. bs_futures s i = Some f \<longrightarrow> view f = Holding b \<longrightarrow> i = h)"

definition batch_system_inv :: "('f \<Rightarrow> 't future_view) \<Rightarrow> ('f \<Rightarrow> bool) \<Rightarrow> ('t list \<Rightarrow> 'r) \<Rightarrow> ('t list \<Rightarrow> 't list) \<Rightarrow> nat
    \<Rightarrow> 't list \<Rightarrow> ('f, 'r, 't, 'd) batch_system \<Rightarrow> bool" where
  "batch_system_inv view fits summary rest k tasks s \<longleftrightarrow>
     (\<exists>c. ledger view fits summary rest tasks c {#} s \<and> none_holds view k c s) \<or>
     (\<exists>t a c h. ledger view fits summary rest tasks c (mset (map t [a..<c])) s \<and> one_holds view k t a c h s)"

text \<open>What a step does to the ledger, when the future \<open>i\<close> becomes \<open>x\<close>.\<close>

lemma ledger_step:
  assumes "ledger view fits summary rest tasks c H s" "bs_futures s i = Some f" "\<forall>f'. x = Some f' \<longrightarrow> fits f'"
    and "bs_futures s' = (bs_futures s)(i := x)" "bs_values s' = bs_values s @ map summary bs'"
    and "mset (bs_dropped s') = mset (bs_dropped s) + D' + mset (concat (map rest bs'))"
    and "task_of view (Some f) + H = task_of view x + mset (concat bs') + D' + H'"
    and "c' + size (task_of view x) \<le> c + size (task_of view (Some f))"
  shows "ledger view fits summary rest tasks c' H' s'"
proof -
  let ?T = "\<lambda>s. tasks_of view (length tasks) (bs_futures s)"
  have i: "i < length tasks" using assms(1,2) by (auto simp: ledger_def)
  have T: "?T s' + task_of view (Some f) = ?T s + task_of view x"
    using tasks_of_update [OF i, of view "bs_futures s" x] by (simp add: assms(2,4))
  then have "size (?T s') + size (task_of view (Some f)) = size (?T s) + size (task_of view x)"
    by (metis size_union)
  then have "size (?T s') + c' \<le> length tasks" using assms(1,8) by (simp add: ledger_def)
  moreover obtain bs D where L: "bs_values s = map summary bs" "mset (bs_dropped s) = D + mset (concat (map rest bs))"
    "mset tasks = mset (concat bs) + D + H + ?T s" using assms(1) by (auto simp: ledger_def)
  have "mset tasks + task_of view (Some f) + task_of view x =
      mset (concat (bs @ bs')) + (D + D') + H' + ?T s' + task_of view (Some f) + task_of view x"
    using T assms(7) unfolding L(3) by (simp add: ac_simps)
  then have "mset tasks = mset (concat (bs @ bs')) + (D + D') + H' + ?T s'" by simp
  moreover have "bs_values s' = map summary (bs @ bs')" by (simp add: assms(5) L(1))
  moreover have "mset (bs_dropped s') = D + D' + mset (concat (map rest (bs @ bs')))" by (simp add: assms(6) L(2))
  moreover have "dom (bs_futures s') \<subseteq> {..<length tasks}" "\<forall>j g. bs_futures s' j = Some g \<longrightarrow> fits g"
    using assms(1,3) i by (auto simp: ledger_def assms(4) split: if_splits)
  ultimately show ?thesis
    unfolding ledger_def by (intro conjI exI [of _ "bs @ bs'"] exI [of _ "D + D'"])
qed

lemma steps_upto:
  assumes "a \<le> b" "P a s" "\<And>m s. a \<le> m \<Longrightarrow> m < b \<Longrightarrow> P m s \<Longrightarrow> \<exists>s'. R s s' \<and> P (Suc m) s'"
  shows "\<exists>s'. R\<^sup>*\<^sup>* s s' \<and> P b s'"
  using assms
proof (induction b rule: dec_induct)
  case base
  then show ?case by blast
next
  case (step n)
  then obtain s1 where s1: "R\<^sup>*\<^sup>* s s1" "P n s1" using less_SucI by metis
  obtain s2 where "R s1 s2" "P (Suc n) s2" using step.prems(2) [OF step.hyps(1) _ s1(2)] by auto
  then show ?case using s1(1) rtranclp.rtrancl_into_rtrancl by metis
qed

section \<open>Futures that may be dropped\<close>

text \<open>
  The contract: a future drops its task when it still has it, and the tasks of its batch when it holds
  one, which it releases; and polling one that has returned changes nothing.
\<close>

locale cancellable = batch_future k contents poll view fits summary rest small
  for k :: nat and contents :: "'d \<Rightarrow> nat list" and poll :: "('f, 'r, 't, 'd) poll_fun"
    and view :: "'f \<Rightarrow> 't future_view" and fits :: "'f \<Rightarrow> bool" and summary :: "'t list \<Rightarrow> 'r" and rest :: "'t list \<Rightarrow> 't list"
    and small :: "nat \<Rightarrow> bool" +
  fixes dropf :: "('f, 't, 'd) drop_fun" and few :: "nat \<Rightarrow> bool"
  assumes polls_again: "fits f \<Longrightarrow> view f = Returned \<Longrightarrow> poll w f q = Inr (Ready None, [], [], f, q)"
    and drops_task: "fits f \<Longrightarrow> view f = Unpushed x \<Longrightarrow> dropf f q = Inr ([x], [], q)"
    and drops_batch: "fits f \<Longrightarrow> view f = Holding batch \<Longrightarrow> holds a batch \<Longrightarrow> one_held t k a i q \<Longrightarrow> few i \<Longrightarrow>
      \<exists>q' woken. dropf f q = Inr (map t [a..<i], woken, q') \<and> idle k i q'"
    and drops_nothing: "fits f \<Longrightarrow> view f = Returned \<Longrightarrow> dropf f q = Inr ([], [], q)"
    and few_small: "few i \<Longrightarrow> j \<le> i \<Longrightarrow> few j \<and> small j"
begin

abbreviation all_inv :: "'t list \<Rightarrow> ('f, 'r, 't, 'd) batch_system \<Rightarrow> bool" where
  "all_inv \<equiv> batch_system_inv view fits summary rest k"

abbreviation account :: "'t list \<Rightarrow> nat \<Rightarrow> 't multiset \<Rightarrow> ('f, 'r, 't, 'd) batch_system \<Rightarrow> bool" where
  "account \<equiv> ledger view fits summary rest"

lemma holder_unique:
  assumes "one_holds view k t a c h s" "bs_futures s i = Some f"
  shows "(\<exists>b. view f = Holding b) \<longleftrightarrow> i = h"
proof -
  obtain g b where "bs_futures s h = Some g" "view g = Holding b" using assms(1) unfolding one_holds_def by blast
  moreover have "view f = Holding b \<Longrightarrow> i = h" for b using assms unfolding one_holds_def by blast
  ultimately show ?thesis using assms(2) by auto
qed

text \<open>A future that holds nothing changes, while the batch is held, to one that holds nothing, or goes.\<close>

lemma one_holds_other:
  assumes "one_holds view k t a c h s" "i \<noteq> h" "bs_futures s' = (bs_futures s)(i := x)"
    and "\<forall>f' b. x = Some f' \<longrightarrow> view f' \<noteq> Holding b" "one_held t' k a c' (bs_queue s')"
  shows "one_holds view k t' a c' h s'"
proof -
  have "\<exists>f b. bs_futures s' h = Some f \<and> view f = Holding b \<and> holds a b"
    using assms(1,2) unfolding one_holds_def assms(3) by simp
  moreover have "j = h" if "bs_futures s' j = Some f" "view f = Holding b" for j f b
  proof (cases "j = i")
    case True
    then show ?thesis using that assms(3,4) by simp
  next
    case False
    then have "bs_futures s j = Some f" using that(1) assms(3) by simp
    then show ?thesis using holder_unique [OF assms(1)] that(2) by blast
  qed
  ultimately show ?thesis using assms(5) unfolding one_holds_def by blast
qed

lemma all_invI:
  "account tasks c {#} s \<Longrightarrow> none_holds view k c s \<Longrightarrow> all_inv tasks s"
  "account tasks c (mset (map t [a..<c])) s \<Longrightarrow> one_holds view k t a c h s \<Longrightarrow> all_inv tasks s"
  unfolding batch_system_inv_def by blast+

lemma unpushed_polled_idle:
  assumes "account tasks c {#} s" "none_holds view k c s" "bs_futures s i = Some f" "view f = Unpushed x"
  shows "\<exists>s'. poll_future poll i f s = Inr s' \<and> all_inv tasks s'"
proof -
  have "fits f" using assms(1,3) by (simp add: ledger_def)
  from opens [where t = "\<lambda>_. x", OF this assms(4), of c "bs_queue s" i] assms(2) obtain q' f' batch where
    q': "poll i f (bs_queue s) = Inr (Pending, [], [i], f', q')" "fits f'" "view f' = Holding batch" "holds c batch"
      "one_held (\<lambda>_. x) k c (Suc c) q'" by (auto simp: none_holds_def)
  let ?s = "s\<lparr>bs_queue := q', bs_futures := (bs_futures s)(i \<mapsto> f'),
      bs_ready := bs_ready s - {i} \<union> {i} \<inter> dom (bs_futures s)\<rparr>"
  have "poll_future poll i f s = Inr ?s" by (simp add: poll_future_def q'(1))
  moreover have "account tasks (Suc c) (mset (map (\<lambda>_. x) [c..<Suc c])) ?s"
    by (rule ledger_step [where bs' = "[]" and D' = "{#}" and x = "Some f'", OF assms(1,3)]) (use q'(2,3) assms(4) in \<open>simp_all add: task_of_def\<close>)
  moreover have "one_holds view k (\<lambda>_. x) c (Suc c) i ?s"
    using assms(2) q'(3-5) by (auto simp: one_holds_def none_holds_def split: if_splits)
  ultimately show ?thesis using all_invI(2) by blast
qed

lemma unpushed_polled_held:
  assumes "account tasks c (mset (map t [a..<c])) s" "one_holds view k t a c h s" "bs_futures s i = Some f"
    and "view f = Unpushed x"
  shows "\<exists>s'. poll_future poll i f s = Inr s' \<and> all_inv tasks s'"
proof -
  let ?t = "t(c := x)"
  have fit: "fits f" using assms(1,3) by (simp add: ledger_def)
  have same: "map ?t [a..<c] = map t [a..<c]" by simp
  have "one_held ?t k a c (bs_queue s)"
    using assms(2) one_batch_cong [of a c "\<lambda>j. Some (?t j)" "\<lambda>j. Some (t j)" k "bs_queue s"] by (simp add: one_holds_def)
  moreover have ac: "a < c" using assms(2) by (simp add: one_holds_def one_batch_def)
  have ih: "i \<noteq> h" using holder_unique [OF assms(2,3)] assms(4) by auto
  ultimately consider q' f' where "poll i f (bs_queue s) = Inr (Ready None, [], [], f', q')" "fits f'" "view f' = Returned"
      "one_held ?t k a (Suc c) q'"
    | q' where "poll i f (bs_queue s) = Inr (Pending, [], [], f, q')" "one_held ?t k a c q'"
    using pushes [where t = ?t, OF fit, of c a "bs_queue s" i] assms(4) by auto
  then show ?thesis
  proof cases
    case 1
    let ?s = "s\<lparr>bs_queue := q', bs_futures := (bs_futures s)(i \<mapsto> f'), bs_ready := bs_ready s - {i}\<rparr>"
    have "poll_future poll i f s = Inr ?s" by (simp add: poll_future_def 1(1))
    moreover have "mset (map ?t [a..<Suc c]) = mset (map t [a..<c]) + {#x#}" using ac same by simp
    then have "account tasks (Suc c) (mset (map ?t [a..<Suc c])) ?s"
      by (intro ledger_step [where bs' = "[]" and D' = "{#}" and x = "Some f'", OF assms(1,3)]) (use 1(2,3) assms(4) in \<open>simp_all add: task_of_def\<close>)
    moreover have "one_holds view k ?t a (Suc c) h ?s"
    proof (rule one_holds_other [OF assms(2) ih])
      show "\<forall>g b. Some f' = Some g \<longrightarrow> view g \<noteq> Holding b" using 1(3) by auto
    qed (use 1(4) in simp_all)
    ultimately show ?thesis using all_invI(2) by blast
  next
    case 2
    let ?s = "s\<lparr>bs_queue := q', bs_futures := (bs_futures s)(i \<mapsto> f), bs_ready := bs_ready s - {i}\<rparr>"
    have "poll_future poll i f s = Inr ?s" by (simp add: poll_future_def 2(1))
    moreover have "account tasks c (mset (map ?t [a..<c])) ?s"
      unfolding same by (rule ledger_step [where bs' = "[]" and D' = "{#}" and x = "Some f", OF assms(1,3)]) (use fit in simp_all)
    moreover have "one_holds view k ?t a c h ?s"
    proof (rule one_holds_other [OF assms(2) ih])
      show "\<forall>g b. Some f = Some g \<longrightarrow> view g \<noteq> Holding b" using assms(4) by auto
    qed (use 2(2) in simp_all)
    ultimately show ?thesis using all_invI(2) by blast
  qed
qed

lemma held_tasks_few:
  assumes "account tasks c H s" "few (length tasks)"
  shows "few c" "small c"
  using assms few_small [of "length tasks" c] by (simp_all add: ledger_def)

lemma holder_polled:
  assumes "account tasks c (mset (map t [a..<c])) s" "one_holds view k t a c h s" "bs_futures s h = Some f"
    and "few (length tasks)"
  shows "\<exists>s'. poll_future poll h f s = Inr s' \<and> all_inv tasks s'"
proof -
  let ?ts = "map t [a..<c]"
  obtain b where b: "view f = Holding b" "holds a b" using assms(2,3) by (auto simp: one_holds_def)
  have fit: "fits f" using assms(1,3) by (simp add: ledger_def)
  have one: "one_held t k a c (bs_queue s)" using assms(2) by (simp add: one_holds_def)
  obtain q' f' woken where poll: "poll h f (bs_queue s) = Inr (Ready (Some (summary ?ts)), rest ?ts, woken, f', q')"
      and f': "fits f'" "view f' = Returned" and q': "idle k c q'"
    using collects [OF fit b one held_tasks_few(2) [OF assms(1,4)], of h] by blast
  let ?s = "s\<lparr>bs_queue := q', bs_futures := (bs_futures s)(h \<mapsto> f'), bs_ready := bs_ready s - {h} \<union> set woken \<inter> dom (bs_futures s),
      bs_values := bs_values s @ [summary ?ts], bs_dropped := bs_dropped s @ rest ?ts\<rparr>"
  have "poll_future poll h f s = Inr ?s" by (simp add: poll_future_def poll)
  moreover have "account tasks c {#} ?s"
    by (rule ledger_step [where bs' = "[?ts]" and D' = "{#}" and x = "Some f'", OF assms(1,3)]) (use b(1) f' in \<open>simp_all add: task_of_def\<close>)
  moreover have "none_holds view k c ?s" using assms(2) q' f'(2) by (auto simp: one_holds_def none_holds_def)
  ultimately show ?thesis using all_invI(1) by blast
qed

lemma holder_dropped:
  assumes "account tasks c (mset (map t [a..<c])) s" "one_holds view k t a c h s" "bs_futures s h = Some f"
    and "few (length tasks)"
  shows "\<exists>s'. drop_future dropf h f s = Inr s' \<and> all_inv tasks s'"
proof -
  let ?ts = "map t [a..<c]"
  obtain b where b: "view f = Holding b" "holds a b" using assms(2,3) by (auto simp: one_holds_def)
  have fit: "fits f" using assms(1,3) by (simp add: ledger_def)
  have one: "one_held t k a c (bs_queue s)" using assms(2) by (simp add: one_holds_def)
  obtain q' woken where dropf: "dropf f (bs_queue s) = Inr (?ts, woken, q')" "idle k c q'"
    using drops_batch [OF fit b one held_tasks_few(1) [OF assms(1,4)]] by blast
  let ?s = "s\<lparr>bs_queue := q', bs_futures := (bs_futures s)(h := None),
      bs_ready := (bs_ready s \<union> set woken \<inter> dom (bs_futures s)) - {h}, bs_dropped := bs_dropped s @ ?ts\<rparr>"
  have "drop_future dropf h f s = Inr ?s" by (simp add: drop_future_def dropf(1))
  moreover have "account tasks c {#} ?s"
    by (rule ledger_step [where bs' = "[]" and D' = "mset ?ts" and x = None, OF assms(1,3)]) (use b(1) in \<open>simp_all add: task_of_def\<close>)
  moreover have "none_holds view k c ?s" using assms(2) dropf(2) by (auto simp: one_holds_def none_holds_def split: if_splits)
  ultimately show ?thesis using all_invI(1) by blast
qed

text \<open>The steps that do not touch the batch.\<close>

lemma beside_batch:
  assumes "all_inv tasks s" "bs_futures s i = Some f" "\<forall>b. view f \<noteq> Holding b"
    and "x = None \<or> x = Some f" "s' = s\<lparr>bs_futures := (bs_futures s)(i := x), bs_ready := R, bs_dropped := bs_dropped s @ ts\<rparr>"
    and "task_of view (Some f) = task_of view x + mset ts"
  shows "all_inv tasks s'"
proof -
  have step: "account tasks c H s'" if "account tasks c H s" for c H
  proof (rule ledger_step [where bs' = "[]" and D' = "mset ts" and x = x, OF that assms(2)])
    show "\<forall>f'. x = Some f' \<longrightarrow> fits f'" using assms(2,4) that by (auto simp: ledger_def)
    show "task_of view (Some f) + H = task_of view x + mset (concat []) + mset ts + H" by (simp add: assms(6))
    show "c + size (task_of view x) \<le> c + size (task_of view (Some f))" by (simp add: assms(6))
  qed (simp_all add: assms(5))
  have keep: "bs_futures s' j = (if j = i then x else bs_futures s j)" for j by (simp add: assms(5))
  have "none_holds view k c s \<Longrightarrow> none_holds view k c s'" for c
    using assms(3,4) by (auto simp: none_holds_def keep assms(5))
  moreover have "one_holds view k t a c h s'" if one: "one_holds view k t a c h s" for t a c h
  proof (rule one_holds_other [where i = i and x = x, OF one])
    show "i \<noteq> h" using holder_unique [OF one assms(2)] assms(3) by simp
    show "one_held t k a c (bs_queue s')" using one by (simp add: one_holds_def assms(5))
  qed (use assms(3,4) in \<open>auto simp: assms(5)\<close>)
  ultimately show ?thesis using assms(1) step unfolding batch_system_inv_def by blast
qed

lemma polled_any:
  assumes "all_inv tasks s" "bs_futures s i = Some f" "few (length tasks)"
  shows "\<exists>s'. poll_future poll i f s = Inr s' \<and> all_inv tasks s'"
proof -
  have fit: "fits f" using assms(1,2) by (auto simp: batch_system_inv_def ledger_def)
  consider (none) c where "account tasks c {#} s" "none_holds view k c s"
    | (one) t a c h where "account tasks c (mset (map t [a..<c])) s" "one_holds view k t a c h s"
    using assms(1) by (auto simp: batch_system_inv_def)
  note cases = this
  show ?thesis
  proof (cases "view f")
    case (Unpushed x)
    from cases show ?thesis
      by cases (use unpushed_polled_idle unpushed_polled_held assms(2) Unpushed in blast)+
  next
    case (Holding b)
    from cases show ?thesis
    proof cases
      case none
      then show ?thesis using assms(2) Holding by (auto simp: none_holds_def)
    next
      case one
      then have "i = h" using holder_unique assms(2) Holding by blast
      then show ?thesis using holder_polled [OF one _ assms(3)] assms(2) by blast
    qed
  next
    case Returned
    have "poll_future poll i f s = Inr (s\<lparr>bs_futures := (bs_futures s)(i := Some f), bs_ready := bs_ready s - {i},
        bs_dropped := bs_dropped s @ []\<rparr>)"
      by (simp add: poll_future_def polls_again [OF fit Returned])
    moreover have "all_inv tasks (s\<lparr>bs_futures := (bs_futures s)(i := Some f), bs_ready := bs_ready s - {i},
        bs_dropped := bs_dropped s @ []\<rparr>)"
      by (rule beside_batch [OF assms(1,2) _ _ refl]) (simp_all add: Returned)
    ultimately show ?thesis by blast
  qed
qed

lemma dropped_any:
  assumes "all_inv tasks s" "bs_futures s i = Some f" "few (length tasks)"
  shows "\<exists>s'. drop_future dropf i f s = Inr s' \<and> all_inv tasks s'"
proof -
  have fit: "fits f" using assms(1,2) by (auto simp: batch_system_inv_def ledger_def)
  have beside: ?thesis if "dropf f (bs_queue s) = Inr (ts, [], bs_queue s)" "task_of view (Some f) = mset ts"
    "\<forall>b. view f \<noteq> Holding b" for ts
  proof -
    have "drop_future dropf i f s = Inr (s\<lparr>bs_futures := (bs_futures s)(i := None), bs_ready := bs_ready s - {i},
        bs_dropped := bs_dropped s @ ts\<rparr>)"
      by (simp add: drop_future_def that(1))
    moreover have "all_inv tasks (s\<lparr>bs_futures := (bs_futures s)(i := None), bs_ready := bs_ready s - {i},
        bs_dropped := bs_dropped s @ ts\<rparr>)"
      by (rule beside_batch [OF assms(1,2) that(3) _ refl]) (simp_all add: that(2))
    ultimately show ?thesis by blast
  qed
  show ?thesis
  proof (cases "view f")
    case (Unpushed x)
    then show ?thesis by (intro beside [of "[x]"]) (simp_all add: drops_task [OF fit] task_of_def)
  next
    case (Holding b)
    consider (none) c where "account tasks c {#} s" "none_holds view k c s"
      | (one) t a c h where "account tasks c (mset (map t [a..<c])) s" "one_holds view k t a c h s"
      using assms(1) by (auto simp: batch_system_inv_def)
    then show ?thesis
    proof cases
      case none
      then show ?thesis using assms(2) Holding by (auto simp: none_holds_def)
    next
      case one
      then have "i = h" using holder_unique assms(2) Holding by blast
      then show ?thesis using holder_dropped [OF one _ assms(3)] assms(2) by blast
    qed
  next
    case Returned
    then show ?thesis by (intro beside [of "[]"]) (simp_all add: drops_nothing [OF fit] task_of_def)
  qed
qed

lemma all_inv_run:
  assumes "(batch_system_step poll dropf spurious)\<^sup>*\<^sup>* s0 s" "all_inv tasks s0" "few (length tasks)"
  shows "all_inv tasks s"
  using assms(1,2)
proof (induction rule: rtranclp_induct)
  case (step s1 s2)
  have inv: "all_inv tasks s1" by (rule step.IH [OF step.prems])
  from step.hyps(2) show ?case
  proof (rule batch_system_stepE)
    fix i f
    assume "bs_futures s1 i = Some f" "poll_future poll i f s1 = Inr s2"
    then show ?case using polled_any [OF inv _ assms(3)] by fastforce
  next
    fix i f
    assume "bs_futures s1 i = Some f" "drop_future dropf i f s1 = Inr s2"
    then show ?case using dropped_any [OF inv _ assms(3)] by fastforce
  qed
qed

lemma all_inv_start:
  assumes "\<forall>t. fits (mk t) \<and> view (mk t) = Unpushed t" "idle k 0 q"
  shows "all_inv tasks (batch_system_start q (map mk tasks))"
proof (rule all_invI(1) [of _ 0])
  let ?s = "batch_system_start q (map mk tasks) :: ('f, 'r, 't, 'd) batch_system"
  have "tasks_of view (length tasks) (bs_futures ?s) = (\<Sum>i<length tasks. {#tasks ! i#})"
    unfolding tasks_of_def by (intro sum.cong) (simp_all add: batch_system_start_def task_of_def assms(1))
  also have "\<dots> = mset tasks" by (rule sum_nth_mset)
  finally have "tasks_of view (length tasks) (bs_futures ?s) = mset tasks" .
  then show "account tasks 0 {#} ?s"
    unfolding ledger_def
    by (intro conjI exI [of _ "[]"] exI [of _ "{#}"])
      (auto simp: batch_system_start_def assms(1) split: if_splits)
  show "none_holds view k 0 ?s"
    using assms by (auto simp: none_holds_def batch_system_start_def split: if_splits)
qed

text \<open>When all futures are gone.\<close>

lemma all_inv_gone:
  assumes "all_inv tasks s" "bs_futures s = Map.empty"
  shows "\<exists>bs. bs_values s = map summary bs \<and>
      mset tasks + mset (concat (map rest bs)) = mset (concat bs) + mset (bs_dropped s)"
    and "\<exists>c. idle k c (bs_queue s)"
proof -
  obtain c where c: "account tasks c {#} s" "none_holds view k c s"
    using assms by (auto simp: batch_system_inv_def one_holds_def)
  then show "\<exists>c. idle k c (bs_queue s)" by (auto simp: none_holds_def)
  have "tasks_of view (length tasks) (bs_futures s) = {#}" by (simp add: tasks_of_def assms(2))
  then show "\<exists>bs. bs_values s = map summary bs \<and>
      mset tasks + mset (concat (map rest bs)) = mset (concat bs) + mset (bs_dropped s)"
    using c(1) by (auto simp: ledger_def ac_simps)
qed

text \<open>
  A run that strands a future: \<open>m\<close> tasks were pushed, all in one batch that the future \<open>0\<close> holds; then
  \<open>p\<close> futures found the queue full, and of these \<open>g\<close> were dropped.
\<close>

definition waiting :: "'t list \<Rightarrow> ('f, 'r, 't, 'd) batch_system \<Rightarrow> nat \<Rightarrow> bool" where
  "waiting tasks s i \<longleftrightarrow> (\<exists>f. bs_futures s i = Some f \<and> fits f \<and> view f = Unpushed (tasks ! i))"

definition stranding :: "'t list \<Rightarrow> nat \<Rightarrow> nat \<Rightarrow> nat \<Rightarrow> ('f, 'r, 't, 'd) batch_system \<Rightarrow> bool" where
  "stranding tasks m p g s \<longleftrightarrow>
     one_held ((!) tasks) k 0 m (bs_queue s) \<and> contents (stealer (inner (bs_queue s))) = [2 ^ k..<2 ^ k + p] \<and>
     (\<exists>f b. bs_futures s 0 = Some f \<and> fits f \<and> view f = Holding b \<and> holds 0 b) \<and>
     (\<forall>i\<in>{m..<2 ^ k} \<union> {2 ^ k + g..<length tasks}. waiting tasks s i) \<and>
     (\<forall>i\<in>{2 ^ k..<2 ^ k + g}. bs_futures s i = None) \<and>
     bs_ready s = {0} \<union> {m..<2 ^ k} \<union> {2 ^ k + p..<length tasks}"

lemma stranding_waits:
  assumes "stranding tasks m p g s" "i \<in> {m..<2 ^ k} \<union> {2 ^ k + g..<length tasks}"
  obtains f where "bs_futures s i = Some f" "fits f" "view f = Unpushed (tasks ! i)"
proof -
  have "waiting tasks s i" using assms unfolding stranding_def by blast
  with that show thesis unfolding waiting_def by blast
qed

lemma stranding_start:
  assumes "\<forall>t. fits (mk t) \<and> view (mk t) = Unpushed t" "idle k 0 q" "contents (stealer (inner q)) = []" "2 ^ k \<le> length tasks"
  shows "\<exists>s. batch_system_step poll dropf False (batch_system_start q (map mk tasks)) s \<and> stranding tasks 1 0 0 s"
proof -
  let ?init = "batch_system_start q (map mk tasks) :: ('f, 'r, 't, 'd) batch_system"
  have pos: "0 < i" if "2 ^ k \<le> i" for i :: nat using that less_le_trans [of 0 "2 ^ k" i] by simp
  then have n: "0 < length tasks" using assms(4) by blast
  obtain q' f' b where q': "poll 0 (mk (tasks ! 0)) q = Inr (Pending, [], [0], f', q')" "fits f'" "view f' = Holding b"
    "holds 0 b" "one_held ((!) tasks) k 0 (Suc 0) q'" "stealer (inner q') = stealer (inner q)"
    using opens [where t = "(!) tasks" and i = 0 and q = q, of "mk (tasks ! 0)" 0] assms(1,2) by auto
  let ?s = "?init\<lparr>bs_queue := q', bs_futures := (bs_futures ?init)(0 \<mapsto> f')\<rparr>"
  have "poll_future poll 0 (mk (tasks ! 0)) ?init = Inr ?s"
  proof -
    have "bs_queue ?init = q" "bs_ready ?init - {0} \<union> {0} \<inter> dom (bs_futures ?init) = bs_ready ?init"
      using n by (auto simp: batch_system_start_def)
    then show ?thesis by (simp add: poll_future_def q'(1))
  qed
  moreover have "bs_futures ?init 0 = Some (mk (tasks ! 0))" "0 \<in> bs_ready ?init" using n by (simp_all add: batch_system_start_def)
  ultimately have "batch_system_step poll dropf False ?init ?s" by (blast intro: future_polled)
  moreover have "stranding tasks 1 0 0 ?s"
    using q'(2-5) assms(1,3,4) n by (auto simp: stranding_def waiting_def q'(6) batch_system_start_def dest: pos)
  ultimately show ?thesis by blast
qed

lemma stranding_joins:
  assumes "stranding tasks m 0 0 s" "1 \<le> m" "m < 2 ^ k"
  shows "\<exists>s'. batch_system_step poll dropf False s s' \<and> stranding tasks (Suc m) 0 0 s'"
proof -
  obtain f where f: "bs_futures s m = Some f" "fits f" "view f = Unpushed (tasks ! m)"
    by (rule stranding_waits [OF assms(1), of m]) (use assms(3) in simp_all)
  have "region_start k 0 + 2 ^ k \<noteq> m" using assms(3) by (simp add: block_start_def)
  with pushes [where t = "(!) tasks", OF f(2,3), of 0 "bs_queue s" m] assms(1) obtain q' f' where
    q': "poll m f (bs_queue s) = Inr (Ready None, [], [], f', q')" "one_held ((!) tasks) k 0 (Suc m) q'"
      "stealer (inner q') = stealer (inner (bs_queue s))"
    unfolding stranding_def by blast
  let ?s = "s\<lparr>bs_queue := q', bs_futures := (bs_futures s)(m \<mapsto> f'), bs_ready := bs_ready s - {m}\<rparr>"
  have "poll_future poll m f s = Inr ?s" using q'(1) by (simp add: poll_future_def)
  moreover have "m \<in> bs_ready s" using assms by (simp add: stranding_def)
  ultimately have step: "batch_system_step poll dropf False s ?s" using f(1) by (blast intro: future_polled)
  have "bs_ready ?s = {0} \<union> {Suc m..<2 ^ k} \<union> {2 ^ k + 0..<length tasks}"
    using assms by (auto simp: stranding_def)
  moreover have "\<forall>i\<in>{Suc m..<2 ^ k} \<union> {2 ^ k..<length tasks}. waiting tasks ?s i"
    using assms(1,3) by (auto simp: stranding_def waiting_def)
  ultimately have "stranding tasks (Suc m) 0 0 ?s"
    using assms q'(2) by (simp add: stranding_def q'(3))
  with step show ?thesis by blast
qed

lemma stranding_parks:
  assumes "stranding tasks (2 ^ k) p 0 s" "2 ^ k + p < length tasks"
  shows "\<exists>s'. batch_system_step poll dropf False s s' \<and> stranding tasks (2 ^ k) (Suc p) 0 s'"
proof -
  let ?i = "2 ^ k + p" and ?t = "((!) tasks)(2 ^ k := tasks ! (2 ^ k + p))"
  obtain f where f: "bs_futures s ?i = Some f" "fits f" "view f = Unpushed (?t (2 ^ k))"
    by (rule stranding_waits [OF assms(1), of ?i]) (use assms(2) in simp_all)
  have same: "one_held ?t k 0 (2 ^ k) q = one_held ((!) tasks) k 0 (2 ^ k) q" for q
    by (rule one_batch_cong) simp
  have held: "one_held ?t k 0 (2 ^ k) (bs_queue s)" using assms(1) unfolding same stranding_def by blast
  have "\<not> one_held ?t k 0 (Suc (2 ^ k)) q" for q using one_batch_window [of _ k 0 "Suc (2 ^ k)" q] by fastforce
  with pushes [where t = ?t, OF f(2,3) held, of ?i] obtain q' where
    q': "poll ?i f (bs_queue s) = Inr (Pending, [], [], f, q')" "one_held ((!) tasks) k 0 (2 ^ k) q'"
      "contents (stealer (inner q')) = contents (stealer (inner (bs_queue s))) @ [?i]"
    unfolding same by blast
  let ?s = "s\<lparr>bs_queue := q', bs_futures := (bs_futures s)(?i \<mapsto> f), bs_ready := bs_ready s - {?i}\<rparr>"
  have "poll_future poll ?i f s = Inr ?s" using q'(1) by (simp add: poll_future_def)
  moreover have "?i \<in> bs_ready s" using assms by (simp add: stranding_def)
  ultimately have "batch_system_step poll dropf False s ?s" using f(1) by (blast intro: future_polled)
  moreover have "(bs_futures s)(?i \<mapsto> f) = bs_futures s" using f(1) by auto
  moreover have "bs_ready s - {?i} = {0} \<union> {2 ^ k..<2 ^ k} \<union> {2 ^ k + Suc p..<length tasks}"
    using assms by (auto simp: stranding_def)
  ultimately show ?thesis
    using assms q'(2) by (intro exI [of _ ?s] conjI) (simp_all add: stranding_def waiting_def q'(3))
qed

lemma stranding_drops:
  assumes "stranding tasks (2 ^ k) p g s" "2 ^ k + p \<le> length tasks" "g < p"
  shows "\<exists>s'. batch_system_step poll dropf False s s' \<and> stranding tasks (2 ^ k) p (Suc g) s'"
proof -
  let ?i = "2 ^ k + g"
  obtain f where f: "bs_futures s ?i = Some f" "fits f" "view f = Unpushed (tasks ! ?i)"
    by (rule stranding_waits [OF assms(1), of ?i]) (use assms(2,3) in simp_all)
  let ?s = "s\<lparr>bs_futures := (bs_futures s)(?i := None), bs_ready := bs_ready s - {?i}, bs_dropped := bs_dropped s @ [tasks ! ?i]\<rparr>"
  have "drop_future dropf ?i f s = Inr ?s" by (simp add: drop_future_def drops_task [OF f(2,3)])
  then have "batch_system_step poll dropf False s ?s" using f(1) by (blast intro: future_dropped)
  moreover have "bs_ready s - {?i} = bs_ready s" using assms by (auto simp: stranding_def)
  then have "stranding tasks (2 ^ k) p (Suc g) ?s"
    using assms unfolding stranding_def waiting_def by (auto simp: less_Suc_eq)
  ultimately show ?thesis by blast
qed

lemma stranded:
  assumes "stranding tasks (2 ^ k) p g s" "2 ^ (k - 3) \<le> g" "g < p" "length tasks = 2 ^ k + p" "small (2 ^ k)"
  shows "\<exists>s'. batch_system_step poll dropf False s s' \<and> bs_ready s' = {} \<and>
    idle k (2 ^ k) (bs_queue s') \<and> (\<exists>f. bs_futures s' (2 ^ k + g) = Some f \<and> view f = Unpushed (tasks ! (2 ^ k + g)))"
proof -
  obtain f b where f: "bs_futures s 0 = Some f" "fits f" "view f = Holding b" "holds 0 b"
    using assms(1) unfolding stranding_def by blast
  have held: "one_held ((!) tasks) k 0 (2 ^ k) (bs_queue s)"
    and parked: "contents (stealer (inner (bs_queue s))) = [2 ^ k..<2 ^ k + p]"
    using assms(1) by (simp_all add: stranding_def)
  obtain q' f' woken v rs where q': "poll 0 f (bs_queue s) = Inr (Ready (Some v), rs, woken, f', q')" "idle k (2 ^ k) q'"
    "woken @ contents (stealer (inner q')) = [2 ^ k..<2 ^ k + p]" "length woken = 2 ^ (k - 3)"
    using collects [OF f(2-4) held assms(5), of 0] assms(2,3) by (auto simp: parked)
  have "woken = take (2 ^ (k - 3)) (woken @ contents (stealer (inner q')))" using q'(4) by simp
  also have "\<dots> = [2 ^ k..<2 ^ k + 2 ^ (k - 3)]" unfolding q'(3) using assms(2,3) by (simp add: take_upt)
  finally have gone: "set woken \<inter> dom (bs_futures s) = {}"
    using assms(1,2) by (auto simp: stranding_def)
  let ?s = "s\<lparr>bs_queue := q', bs_futures := (bs_futures s)(0 \<mapsto> f'), bs_ready := bs_ready s - {0},
      bs_values := bs_values s @ [v], bs_dropped := bs_dropped s @ rs\<rparr>"
  have "poll_future poll 0 f s = Inr ?s" by (simp add: poll_future_def q'(1) gone)
  moreover have "0 \<in> bs_ready s" using assms(1) by (simp add: stranding_def)
  ultimately have "batch_system_step poll dropf False s ?s" using f(1) by (blast intro: future_polled)
  moreover have "bs_ready ?s = {}" using assms(1,4) by (simp add: stranding_def)
  moreover have "\<exists>f. bs_futures ?s (2 ^ k + g) = Some f \<and> view f = Unpushed (tasks ! (2 ^ k + g))"
    by (rule stranding_waits [OF assms(1), of "2 ^ k + g"]) (use assms(3,4) in auto)
  ultimately show ?thesis using q'(2) by (intro exI [of _ ?s]) simp
qed

text \<open>All of it: more futures than the buffer and a release have room for.\<close>

lemma strands:
  assumes "\<forall>t. fits (mk t) \<and> view (mk t) = Unpushed t" "idle k 0 q" "contents (stealer (inner q)) = []"
    and "length tasks = 2 ^ k + 2 ^ (k - 3) + 1" "small (2 ^ k)"
  shows "\<exists>s i f. (batch_system_step poll dropf False)\<^sup>*\<^sup>* (batch_system_start q (map mk tasks)) s \<and> bs_ready s = {} \<and>
    idle k (2 ^ k) (bs_queue s) \<and> bs_futures s i = Some f \<and> view f = Unpushed (tasks ! i)"
proof -
  let ?step = "batch_system_step poll dropf False" and ?r = "2 ^ (k - 3) :: nat"
  obtain s1 where s1: "?step (batch_system_start q (map mk tasks)) s1" "stranding tasks 1 0 0 s1"
    using stranding_start [OF assms(1-3), of tasks] assms(4) by auto
  obtain s2 where s2: "?step\<^sup>*\<^sup>* s1 s2" "stranding tasks (2 ^ k) 0 0 s2"
    using steps_upto [where a = 1 and b = "2 ^ k" and P = "\<lambda>m. stranding tasks m 0 0" and R = ?step, OF _ s1(2)] stranding_joins by auto
  obtain s3 where s3: "?step\<^sup>*\<^sup>* s2 s3" "stranding tasks (2 ^ k) (Suc ?r) 0 s3"
    using steps_upto [where a = 0 and b = "Suc ?r" and P = "\<lambda>p. stranding tasks (2 ^ k) p 0" and R = ?step, OF _ s2(2)] stranding_parks assms(4) by auto
  obtain s4 where s4: "?step\<^sup>*\<^sup>* s3 s4" "stranding tasks (2 ^ k) (Suc ?r) ?r s4"
    using steps_upto [where a = 0 and b = ?r and P = "\<lambda>g. stranding tasks (2 ^ k) (Suc ?r) g" and R = ?step, OF _ s3(2)] stranding_drops assms(4) by auto
  obtain s5 f where s5: "?step s4 s5" "bs_ready s5 = {}" "idle k (2 ^ k) (bs_queue s5)"
    "bs_futures s5 (2 ^ k + ?r) = Some f" "view f = Unpushed (tasks ! (2 ^ k + ?r))"
    using stranded [OF s4(2)] assms(4,5) by auto
  have "?step\<^sup>*\<^sup>* (batch_system_start q (map mk tasks)) s5"
    using s1(1) s2(1) s3(1) s4(1) s5(1) by (meson converse_rtranclp_into_rtranclp rtranclp.rtrancl_into_rtrancl rtranclp_trans)
  then show ?thesis using s5(2-5) by blast
qed

text \<open>
  A run that serves: \<open>m\<close> tasks were pushed, all in the batch that the future \<open>0\<close> holds; then the batch was
  given to the reducer, and the first \<open>g\<close> futures, which have all returned, were dropped.
\<close>

definition joined :: "'t list \<Rightarrow> nat \<Rightarrow> ('f, 'r, 't, 'd) batch_system \<Rightarrow> bool" where
  "joined tasks m s \<longleftrightarrow>
     one_held ((!) tasks) k 0 m (bs_queue s) \<and> dom (bs_futures s) = {..<length tasks} \<and>
     (\<exists>f b. bs_futures s 0 = Some f \<and> fits f \<and> view f = Holding b \<and> holds 0 b) \<and>
     (\<forall>i\<in>{1..<m}. \<exists>f. bs_futures s i = Some f \<and> fits f \<and> view f = Returned) \<and>
     (\<forall>i\<in>{m..<length tasks}. waiting tasks s i \<and> i \<in> bs_ready s) \<and> 0 \<in> bs_ready s \<and> bs_values s = [] \<and> bs_dropped s = []"

definition served :: "'t list \<Rightarrow> nat \<Rightarrow> ('f, 'r, 't, 'd) batch_system \<Rightarrow> bool" where
  "served tasks g s \<longleftrightarrow>
     idle k (length tasks) (bs_queue s) \<and> dom (bs_futures s) = {g..<length tasks} \<and>
     (\<forall>i f. bs_futures s i = Some f \<longrightarrow> fits f \<and> view f = Returned) \<and>
     bs_values s = [summary tasks] \<and> bs_dropped s = rest tasks"

lemma joined_start:
  assumes "\<forall>t. fits (mk t) \<and> view (mk t) = Unpushed t" "idle k 0 q" "tasks \<noteq> []"
  shows "\<exists>s. batch_system_step poll dropf spurious (batch_system_start q (map mk tasks)) s \<and> joined tasks 1 s"
proof -
  let ?init = "batch_system_start q (map mk tasks) :: ('f, 'r, 't, 'd) batch_system"
  obtain q' f' b where q': "poll 0 (mk (tasks ! 0)) q = Inr (Pending, [], [0], f', q')" "fits f'" "view f' = Holding b"
    "holds 0 b" "one_held ((!) tasks) k 0 (Suc 0) q'"
    using opens [where t = "(!) tasks" and i = 0 and q = q, of "mk (tasks ! 0)" 0] assms(1,2) by auto
  let ?s = "?init\<lparr>bs_queue := q', bs_futures := (bs_futures ?init)(0 \<mapsto> f'), bs_ready := bs_ready ?init - {0} \<union> {0} \<inter> dom (bs_futures ?init)\<rparr>"
  have "poll_future poll 0 (mk (tasks ! 0)) ?init = Inr ?s"
    using q'(1) by (simp add: poll_future_def batch_system_start_def)
  moreover have "bs_futures ?init 0 = Some (mk (tasks ! 0))" "0 \<in> bs_ready ?init" using assms(3) by (simp_all add: batch_system_start_def)
  ultimately have "batch_system_step poll dropf spurious ?init ?s" by (blast intro: future_polled)
  moreover have "joined tasks 1 ?s"
    using q'(2-5) assms(1,3) by (auto simp: joined_def waiting_def batch_system_start_def split: if_splits)
  ultimately show ?thesis by blast
qed

lemma joined_joins:
  assumes "joined tasks m s" "1 \<le> m" "m < length tasks" "length tasks \<le> 2 ^ k"
  shows "\<exists>s'. batch_system_step poll dropf spurious s s' \<and> joined tasks (Suc m) s'"
proof -
  have "waiting tasks s m" using assms by (simp add: joined_def)
  then obtain f where f: "bs_futures s m = Some f" "fits f" "view f = Unpushed (tasks ! m)" by (auto simp: waiting_def)
  have "region_start k 0 + 2 ^ k \<noteq> m" using assms(3,4) by (simp add: block_start_def)
  with pushes [where t = "(!) tasks", OF f(2,3), of 0 "bs_queue s" m] assms(1) obtain q' f' where
    q': "poll m f (bs_queue s) = Inr (Ready None, [], [], f', q')" "fits f'" "view f' = Returned" "one_held ((!) tasks) k 0 (Suc m) q'"
    unfolding joined_def by blast
  let ?s = "s\<lparr>bs_queue := q', bs_futures := (bs_futures s)(m \<mapsto> f'), bs_ready := bs_ready s - {m}\<rparr>"
  have "poll_future poll m f s = Inr ?s" using q'(1) by (simp add: poll_future_def)
  moreover have "m \<in> bs_ready s" using assms by (simp add: joined_def)
  ultimately have "batch_system_step poll dropf spurious s ?s" using f(1) by (blast intro: future_polled)
  moreover have "dom (bs_futures ?s) = {..<length tasks}" using assms by (auto simp: joined_def)
  then have "joined tasks (Suc m) ?s"
    using assms q'(2-4) by (auto simp: joined_def waiting_def less_Suc_eq)
  ultimately show ?thesis by blast
qed

lemma joined_collects:
  assumes "joined tasks (length tasks) s" "small (length tasks)"
  shows "\<exists>s'. batch_system_step poll dropf spurious s s' \<and> served tasks 0 s'"
proof -
  obtain f b where f: "bs_futures s 0 = Some f" "fits f" "view f = Holding b" "holds 0 b"
    using assms(1) unfolding joined_def by blast
  have held: "one_held ((!) tasks) k 0 (length tasks) (bs_queue s)" using assms(1) by (simp add: joined_def)
  have all: "map ((!) tasks) [0..<length tasks] = tasks" by (rule map_nth)
  obtain q' f' woken where q': "poll 0 f (bs_queue s) = Inr (Ready (Some (summary tasks)), rest tasks, woken, f', q')"
    "fits f'" "view f' = Returned" "idle k (length tasks) q'"
    using collects [OF f(2-4) held assms(2), of 0] unfolding all by blast
  let ?s = "s\<lparr>bs_queue := q', bs_futures := (bs_futures s)(0 \<mapsto> f'), bs_ready := bs_ready s - {0} \<union> set woken \<inter> dom (bs_futures s),
      bs_values := bs_values s @ [summary tasks], bs_dropped := bs_dropped s @ rest tasks\<rparr>"
  have "poll_future poll 0 f s = Inr ?s" by (simp add: poll_future_def q'(1))
  moreover have "0 \<in> bs_ready s" using assms(1) by (simp add: joined_def)
  ultimately have "batch_system_step poll dropf spurious s ?s" using f(1) by (blast intro: future_polled)
  moreover have "fits g \<and> view g = Returned" if "bs_futures ?s i = Some g" for i g
  proof (cases "i = 0")
    case False
    then have "bs_futures s i = Some g" using that by simp
    moreover have "i < length tasks" using assms(1) \<open>bs_futures s i = Some g\<close> by (auto simp: joined_def)
    ultimately show ?thesis using assms(1) False unfolding joined_def by (metis atLeastLessThan_iff less_one linorder_not_less option.inject)
  qed (use that q'(2,3) in simp)
  moreover have "dom (bs_futures ?s) = {0..<length tasks}" using assms(1) f(1) by (auto simp: joined_def)
  ultimately have "batch_system_step poll dropf spurious s ?s \<and> served tasks 0 ?s"
    using assms(1) q'(4) by (auto simp: served_def joined_def)
  then show ?thesis by blast
qed

lemma served_drops:
  assumes "served tasks g s" "g < length tasks"
  shows "\<exists>s'. batch_system_step poll dropf spurious s s' \<and> served tasks (Suc g) s'"
proof -
  have "g \<in> dom (bs_futures s)" using assms by (simp add: served_def)
  then obtain f where "bs_futures s g = Some f" by blast
  with assms(1) have f: "bs_futures s g = Some f" "fits f" "view f = Returned" by (simp_all add: served_def)
  let ?s = "s\<lparr>bs_futures := (bs_futures s)(g := None), bs_ready := bs_ready s - {g}\<rparr>"
  have "drop_future dropf g f s = Inr ?s" by (simp add: drop_future_def drops_nothing [OF f(2,3)])
  then have "batch_system_step poll dropf spurious s ?s" using f(1) by (blast intro: future_dropped)
  moreover have "dom (bs_futures ?s) = {Suc g..<length tasks}" using assms by (auto simp: served_def)
  then have "served tasks (Suc g) ?s" using assms by (auto simp: served_def split: if_splits)
  ultimately show ?thesis by blast
qed

text \<open>As many futures as fit the buffer are served by one batch.\<close>

lemma serves:
  assumes "\<forall>t. fits (mk t) \<and> view (mk t) = Unpushed t" "idle k 0 q" "tasks \<noteq> []" "length tasks \<le> 2 ^ k" "small (length tasks)"
  shows "\<exists>s. (batch_system_step poll dropf spurious)\<^sup>*\<^sup>* (batch_system_start q (map mk tasks)) s \<and> bs_futures s = Map.empty \<and>
    bs_values s = [summary tasks] \<and> bs_dropped s = rest tasks"
proof -
  let ?step = "batch_system_step poll dropf spurious"
  have n: "1 \<le> length tasks" using assms(3) by (simp add: Suc_leI)
  obtain s1 where s1: "?step (batch_system_start q (map mk tasks)) s1" "joined tasks 1 s1"
    using joined_start [OF assms(1-3), where spurious = spurious] by blast
  obtain s2 where s2: "?step\<^sup>*\<^sup>* s1 s2" "joined tasks (length tasks) s2"
    using steps_upto [where P = "joined tasks" and R = ?step, OF n s1(2) joined_joins] assms(4) by blast
  obtain s3 where s3: "?step s2 s3" "served tasks 0 s3" using joined_collects [OF s2(2) assms(5), where spurious = spurious] by blast
  obtain s4 where s4: "?step\<^sup>*\<^sup>* s3 s4" "served tasks (length tasks) s4"
    using steps_upto [where P = "served tasks" and R = ?step, OF le0 s3(2) served_drops] by blast
  have "?step\<^sup>*\<^sup>* (batch_system_start q (map mk tasks)) s4"
    using s1(1) s2(1) s3(1) s4(1) by (meson converse_rtranclp_into_rtranclp rtranclp_trans)
  moreover have "dom (bs_futures s4) = {}" using s4(2) by (simp add: served_def)
  then have "bs_futures s4 = Map.empty" by (simp only: dom_eq_empty_conv)
  ultimately show ?thesis using s4(2) by (auto simp: served_def)
qed

end

section \<open>BatchCollect and BatchReduce\<close>

text \<open>Dropped on the one thread there is; tasks need to be dropped.\<close>

definition collect_drop_fun :: "('d \<Rightarrow> nat steal \<times> 'd) \<Rightarrow> 64 word \<Rightarrow> ((unit, 64 word, 't) batch_collect, 't, 'd) drop_fun" where
  "collect_drop_fun steal N fut q =
     bind_sum (batch_collect_drop steal True N fut (\<lambda>_. q)) (\<lambda>(dropped, woken, queues). Inr (dropped, woken, queues ()))"

definition reduce_drop_fun :: "('d \<Rightarrow> nat steal \<times> 'd) \<Rightarrow> 64 word \<Rightarrow> ((unit, 64 word, 't, 'r) batch_reduce, 't, 'd) drop_fun" where
  "reduce_drop_fun steal N fut q =
     bind_sum (batch_reduce_drop steal True N fut (\<lambda>_. q)) (\<lambda>(dropped, woken, queues). Inr (dropped, woken, queues ()))"

lemma drop_one_held:
  assumes "batch_env k dpush steal contents retries" "holds a batch" "one_held t k a i q" "i < 2 ^ 32"
  obtains s' woken where "unbounded_range_drop steal True (2 ^ k) batch (inner q) = Inr (map t [a..<i], woken, s')"
    "idle k i (q\<lparr>inner := s'\<rparr>)"
proof -
  have k: "6 \<le> k" "k < 32" "fifo_deque dpush steal contents" "steal_progress steal retries"
    using assms(1) by (simp_all add: batch_env_def)
  obtain ph where q: "queue_at k i ph ph {#region k a#} q" using assms(3) by (auto simp: one_batch_def)
  obtain p where batch: "batch = \<lparr>ur_base_slot = mk_slot a p\<rparr>" using assms(2) by (auto simp: holds_def)
  have w: "a < i" "i \<le> a + 2 ^ k" using one_batch_window [OF assms(3)] by simp_all
  have occ: "occupied_by k {#region k a#} a (inner q)"
    using q k(1,2) by (simp add: occupied_by_def queue_at_def region_div)
  have cycle: "same_cycle a i" using w(1) assms(4) by (simp add: same_cycle_def)
  have slots: "slot (inner q) = mk_slot i ph" "own_slot q = mk_slot i ph" using q by (simp_all add: queue_at_def)
  obtain woken s' where s': "unbounded_range_drop steal True (2 ^ k) batch (inner q) = Inr (map t [a..<i], woken, s')"
    "batch_freed k contents a {#region k a#} ((inner q)\<lparr>slot := mk_slot i (\<not> ph)\<rparr>) woken s'"
    using unbounded_range_dropped [OF occ w one_held_tasks(1) [OF assms(3)] cycle k(3,4) slots(1), of True p]
    by (auto simp: batch one_held_tasks(2) [OF assms(3)])
  from that [OF s'(1) freed_idle(1) [OF s'(2) slots(2) one_batch_length [OF assms(3)]]] show ?thesis .
qed

lemma collect_view_cases:
  "collect_view f = Unpushed x \<longleftrightarrow> f = CollectUnbatched x" "collect_view f = Holding batch \<longleftrightarrow> f = CollectCollecting () batch"
  "collect_view f = Returned \<longleftrightarrow> f = CollectBatched"
  by (cases f; simp)+

lemma reduce_view_cases:
  "reduce_view f = Unpushed x \<longleftrightarrow> (\<exists>red. f = ReduceUnbatched x red)"
  "reduce_view f = Holding batch \<longleftrightarrow> (\<exists>red. f = ReduceCollecting () batch red)"
  "reduce_view f = Returned \<longleftrightarrow> f = ReduceBatched"
  by (cases f; simp)+

interpretation collecting: cancellable k contents "collect_fun dpush steal (2 ^ k)" collect_view
    "\<lambda>_. batch_env k dpush steal contents retries" "\<lambda>b. b" "\<lambda>b. []" "\<lambda>_. True" "collect_drop_fun steal (2 ^ k)" "\<lambda>n. n < 2 ^ 32"
  for k contents dpush steal retries
proof (unfold_locales, goal_cases)
  case (1 f w q)
  then show ?case by (simp add: collect_view_cases collect_fun_def batch_collect_poll_def)
next
  case (2 f x q)
  then show ?case by (simp add: collect_view_cases collect_drop_fun_def batch_collect_drop_def)
next
  case (3 f batch a t i q)
  then obtain s' woken where "unbounded_range_drop steal True (2 ^ k) batch (inner q) = Inr (map t [a..<i], woken, s')"
    "idle k i (q\<lparr>inner := s'\<rparr>)" using drop_one_held by metis
  then show ?case using 3 by (simp add: collect_view_cases collect_drop_fun_def batch_collect_drop_def)
next
  case (4 f q)
  then show ?case by (simp add: collect_view_cases collect_drop_fun_def batch_collect_drop_def)
qed simp_all

interpretation reducing: cancellable k contents "reduce_fun dpush steal True (2 ^ k)" reduce_view
    "\<lambda>f. batch_env k dpush steal contents retries \<and> reduces_with red f" "\<lambda>b. fst (reduce_list red b)"
    "\<lambda>b. if True then snd (reduce_list red b) else []" "\<lambda>n. n < 2 ^ 32" "reduce_drop_fun steal (2 ^ k)" "\<lambda>n. n < 2 ^ 32"
  for k contents dpush steal retries red
proof (unfold_locales, goal_cases)
  case (1 f w q)
  then show ?case by (simp add: reduce_view_cases reduce_fun_def batch_reduce_poll_def)
next
  case (2 f x q)
  then show ?case by (auto simp: reduce_view_cases reduce_drop_fun_def batch_reduce_drop_def)
next
  case (3 f batch a t i q)
  then obtain s' woken where "unbounded_range_drop steal True (2 ^ k) batch (inner q) = Inr (map t [a..<i], woken, s')"
    "idle k i (q\<lparr>inner := s'\<rparr>)" using drop_one_held by metis
  then show ?case using 3 by (auto simp: reduce_view_cases reduce_drop_fun_def batch_reduce_drop_def)
next
  case (4 f q)
  then show ?case by (simp add: reduce_view_cases reduce_drop_fun_def batch_reduce_drop_def)
qed simp_all

text \<open>What a reducer has taken out of the iterator when it returns or panics.\<close>

definition tasks_taken :: "('t, 'r) reducer \<Rightarrow> 't list \<Rightarrow> 't list" where
  "tasks_taken red batch = take (length batch - length (snd (reduce_list red batch))) batch"

lemma reduce_list_rest: "\<exists>n. snd (reduce_list red ts) = drop n ts"
proof (induction red arbitrary: ts)
  case (Finish r)
  show ?case by (intro exI [of _ 0]) simp
next
  case (Next g)
  show ?case
  proof (cases ts)
    case (Cons t ts')
    obtain n where "snd (reduce_list (g (Some t)) ts') = drop n ts'" using Next.IH [OF rangeI] by blast
    then show ?thesis by (intro exI [of _ "Suc n"]) (simp add: Cons)
  qed (use Next.IH [OF rangeI, of None "[]"] in simp)
qed

lemma concat_map_Nil [simp]: "concat (map (\<lambda>x. []) xs) = []"
  by (induction xs) simp_all

lemma tasks_taken_rest: "mset (tasks_taken red batch) + mset (snd (reduce_list red batch)) = mset batch"
proof -
  obtain n where n: "snd (reduce_list red batch) = drop n batch" using reduce_list_rest by blast
  then have "tasks_taken red batch = take n batch" by (cases "n \<le> length batch") (simp_all add: tasks_taken_def)
  then show ?thesis by (simp add: n flip: mset_append)
qed

lemma batches_taken_rest:
  "mset (concat bs) = mset (concat (map (tasks_taken red) bs)) + mset (concat (map (\<lambda>b. snd (reduce_list red b)) bs))"
proof (induction bs)
  case (Cons b bs)
  then show ?case using tasks_taken_rest [of red b] by (simp add: ac_simps)
qed simp

section \<open>No task is lost\<close>

text \<open>
  \<open>BatchCollect\<close> futures of one thread that are polled and dropped in any order, woken or not: no
  poll and no destructor runs into a fault; and when all futures are gone, every task was either
  returned, in exactly one batch, or dropped, once; and the queue is free.
\<close>

theorem collect_futures_conserve:
  assumes "6 \<le> k" "k < 32" "fifo_deque dpush steal contents" "steal_progress steal retries" "length tasks < 2 ^ 32"
    and "stack_queue_default None (2 ^ k :: 64 word) d = Some q"
    and "(batch_system_step (collect_fun dpush steal (2 ^ k)) (collect_drop_fun steal (2 ^ k)) True)\<^sup>*\<^sup>*
      (batch_system_start q (map reducer_batch_collect tasks)) s"
  shows "(\<forall>i f. bs_futures s i = Some f \<longrightarrow>
      (\<exists>s'. poll_future (collect_fun dpush steal (2 ^ k)) i f s = Inr s') \<and>
      (\<exists>s'. drop_future (collect_drop_fun steal (2 ^ k)) i f s = Inr s')) \<and>
    (bs_futures s = Map.empty \<longrightarrow>
      mset (concat (bs_values s)) + mset (bs_dropped s) = mset tasks \<and> occupancy (inner (bs_queue s)) = 0)"
proof -
  have "\<forall>t. batch_env k dpush steal contents retries \<and> collect_view (reducer_batch_collect t) = Unpushed t"
    using assms(1-4) by (simp add: batch_env_def reducer_batch_collect_def batch_collect_new_def)
  from collecting.all_inv_start [OF this default_queue_idle(1) [OF assms(1,2,6)]]
  have inv: "batch_system_inv collect_view (\<lambda>_. batch_env k dpush steal contents retries) (\<lambda>b. b) (\<lambda>b. []) k tasks s"
    by (rule collecting.all_inv_run [OF assms(7) _ assms(5)])
  note gone = collecting.all_inv_gone [OF inv]
  have "mset (concat (bs_values s)) + mset (bs_dropped s) = mset tasks \<and> occupancy (inner (bs_queue s)) = 0"
    if empty: "bs_futures s = Map.empty"
  proof -
    obtain bs where bs: "bs_values s = map (\<lambda>b. b) bs"
      "mset tasks + mset (concat (map (\<lambda>b. []) bs)) = mset (concat bs) + mset (bs_dropped s)"
      using gone(1) [OF empty] by blast
    then show ?thesis using gone(2) [OF empty] by (auto simp: idle_def queue_at_def)
  qed
  then show ?thesis
    using collecting.polled_any [OF inv _ assms(5)] collecting.dropped_any [OF inv _ assms(5)] by blast
qed

text \<open>
  C8. \<open>BatchReduce\<close> futures likewise, fewer than \<open>2 ^ 32\<close>, so that the counter does not wrap around, and all
  with the same reducer, which may leave tasks in the iterator and, as
  \<open>Finish None\<close>, panic: when all futures are gone, every task was either taken by the reducer that was
  given its batch, or dropped, once.
\<close>

theorem reduce_futures_conserve:
  assumes "6 \<le> k" "k < 32" "fifo_deque dpush steal contents" "steal_progress steal retries" "length tasks < 2 ^ 32"
    and "stack_queue_default None (2 ^ k :: 64 word) d = Some q"
    and "(batch_system_step (reduce_fun dpush steal True (2 ^ k)) (reduce_drop_fun steal (2 ^ k)) True)\<^sup>*\<^sup>*
      (batch_system_start q (map (\<lambda>t. reducer_batch_reduce t red) tasks)) s"
  shows "(\<forall>i f. bs_futures s i = Some f \<longrightarrow>
      (\<exists>s'. poll_future (reduce_fun dpush steal True (2 ^ k)) i f s = Inr s') \<and>
      (\<exists>s'. drop_future (reduce_drop_fun steal (2 ^ k)) i f s = Inr s')) \<and>
    (bs_futures s = Map.empty \<longrightarrow> (\<exists>batches. bs_values s = map (\<lambda>b. fst (reduce_list red b)) batches \<and>
      mset (concat (map (tasks_taken red) batches)) + mset (bs_dropped s) = mset tasks) \<and> occupancy (inner (bs_queue s)) = 0)"
proof -
  have "\<forall>t. (batch_env k dpush steal contents retries \<and> reduces_with red (reducer_batch_reduce t red)) \<and>
      reduce_view (reducer_batch_reduce t red) = Unpushed t"
    using assms(1-4) by (simp add: batch_env_def reducer_batch_reduce_def batch_reduce_new_def)
  from reducing.all_inv_start [OF this default_queue_idle(1) [OF assms(1,2,6)]]
  have inv: "batch_system_inv reduce_view (\<lambda>f. batch_env k dpush steal contents retries \<and> reduces_with red f)
      (\<lambda>b. fst (reduce_list red b)) (\<lambda>b. if True then snd (reduce_list red b) else []) k tasks s"
    by (rule reducing.all_inv_run [OF assms(7) _ assms(5)])
  note gone = reducing.all_inv_gone [OF inv]
  have "\<exists>batches. bs_values s = map (\<lambda>b. fst (reduce_list red b)) batches \<and>
      mset (concat (map (tasks_taken red) batches)) + mset (bs_dropped s) = mset tasks" if empty: "bs_futures s = Map.empty"
  proof -
    obtain bs where bs: "bs_values s = map (\<lambda>b. fst (reduce_list red b)) bs"
      "mset tasks + mset (concat (map (\<lambda>b. snd (reduce_list red b)) bs)) = mset (concat bs) + mset (bs_dropped s)"
      using gone(1) [OF empty] by auto
    have "mset (concat (map (tasks_taken red) bs)) + mset (bs_dropped s) = mset tasks"
      using bs(2) unfolding batches_taken_rest [of bs red] by simp
    then show ?thesis using bs(1) by blast
  qed
  moreover have "occupancy (inner (bs_queue s)) = 0" if "bs_futures s = Map.empty"
    using gone(2) [OF that] by (auto simp: idle_def queue_at_def)
  ultimately show ?thesis
    using reducing.polled_any [OF inv _ assms(5)] reducing.dropped_any [OF inv _ assms(5)] by blast
qed

section \<open>A panic of the reducer\<close>

text \<open>
  When the reducer panics, the poll unwinds, but nothing is lost: the tasks that the reducer had not
  taken are dropped, each once, the region is freed, and the future has nothing left to drop.
\<close>

theorem reducer_panic_releases:
  assumes "occupied_by k M a (inner (queues home))" "a < b" "b \<le> a + 2 ^ k"
    and "window_live (2 ^ k) a b (buffer (inner (queues home)))" "same_cycle a b"
    and "fifo_deque dpush steal contents" "steal_progress steal retries"
    and "slot (inner (queues home)) = mk_slot b q"
    and "reduce_list red (map the (window (2 ^ k) a b (buffer (inner (queues home))))) = (None, rest)"
  shows "\<exists>woken s'. let queues' = queues(home := queues home\<lparr>inner := s'\<rparr>) in
    batch_reduce_poll_unwinding dpush steal True (2 ^ k) here waker (ReduceCollecting home \<lparr>ur_base_slot = mk_slot a p\<rparr> red) queues
      = Inr (None, rest, woken, ReduceBatched, queues') \<and>
    batch_done k a a b M (inner (queues home)\<lparr>slot := mk_slot b (\<not> q)\<rparr>) s' \<and>
    batch_reduce_drop steal True (2 ^ k) ReduceBatched queues' = Inr ([], [], queues')"
  using reduce_poll_collects [where queues = queues and home = home and dpush = dpush and here = here and waker = waker and red = red and p = p, OF assms(1-8)] assms(9)
  by (auto simp: batch_reduce_poll_unwinding_def batch_reduce_drop_def Let_def)

text \<open>A reducer that panics when it sees its second task.\<close>

definition panics_at_second :: "(nat, nat option) reducer" where
  "panics_at_second = Next (\<lambda>x. Next (\<lambda>y. Finish None))"

theorem reducer_panic_releases_witness:
  "\<exists>woken queues'. batch_reduce_poll_unwinding list_push list_steal True (2 ^ 6) 3 ''w''
      (ReduceCollecting 0 \<lparr>ur_base_slot = mk_slot 62 True\<rparr> panics_at_second) example_queues
      = Inr (None, [3], woken, ReduceBatched, queues')"
proof -
  have r: "reduce_list panics_at_second [Suc 0, 2, 3] = (None, [3])" by (simp add: panics_at_second_def)
  from reducer_panic_releases [where k = 6 and M = "{#7#}" and queues = example_queues and home = 0 and a = 62 and b = 65
      and q = True and p = True and red = panics_at_second and here = 3 and waker = "''w''",
      OF _ _ _ _ _ list_deque]
  show ?thesis
    by (auto simp: Let_def example_occupied example_window [simplified] example_inner_slot r)
qed

section \<open>Wake-ups that are lost to cancelled futures\<close>

text \<open>
  C33. The waker that a future parks when it finds the queue full stays in the deque when the future is
  dropped, and releasing the last batch wakes at most a region's worth of wakers. So a run in which
  futures are polled only when they were woken comes to a state in which no batch is running and no
  future was woken, but a future still waits to push its task: nothing will wake it before some
  later batch is released.
\<close>

theorem cancelled_wakers_strand:
  assumes "6 \<le> k" "k < 32" "fifo_deque dpush steal contents" "steal_progress steal retries"
    and "stack_queue_default None (2 ^ k :: 64 word) d = Some q" "contents d = []"
    and "length tasks = 2 ^ k + 2 ^ (k - 3) + 1"
  shows "\<exists>s i t. (batch_system_step (collect_fun dpush steal (2 ^ k)) (collect_drop_fun steal (2 ^ k)) False)\<^sup>*\<^sup>*
      (batch_system_start q (map reducer_batch_collect tasks)) s \<and>
    bs_ready s = {} \<and> occupancy (inner (bs_queue s)) = 0 \<and> bs_futures s i = Some (CollectUnbatched t)"
proof -
  have start: "\<forall>t. batch_env k dpush steal contents retries \<and> collect_view (reducer_batch_collect t) = Unpushed t"
    using assms(1-4) by (simp add: batch_env_def reducer_batch_collect_def batch_collect_new_def)
  have q: "idle k 0 q" "contents (stealer (inner q)) = []"
    using default_queue_idle [OF assms(1,2,5)] assms(6) by simp_all
  from collecting.strands [OF start q assms(7) TrueI] show ?thesis
    by (fastforce simp: collect_view_cases idle_def queue_at_def)
qed

theorem collect_futures_conserve_witness:
  "\<exists>q s. stack_queue_default None (2 ^ 6 :: 64 word) ([] :: nat list) = Some q \<and>
    (batch_system_step (collect_fun list_push list_steal (2 ^ 6)) (collect_drop_fun list_steal (2 ^ 6)) True)\<^sup>*\<^sup>*
      (batch_system_start q (map reducer_batch_collect [7 :: nat])) s \<and> bs_futures s = Map.empty \<and>
    mset (concat (bs_values s)) + mset (bs_dropped s) = {#7#}"
proof -
  obtain q :: "(64 word, nat buffer_cell, nat list) stack_queue" where
    q: "stack_queue_default None (2 ^ 6 :: 64 word) ([] :: nat list) = Some q"
    using default_queue_at [of 6 None "[]"] by auto
  let ?start = "batch_system_start q (map reducer_batch_collect [7 :: nat])"
  let ?s = "?start\<lparr>bs_futures := Map.empty, bs_ready := {}, bs_dropped := [7]\<rparr>"
  have "drop_future (collect_drop_fun list_steal (2 ^ 6)) 0 (reducer_batch_collect 7) ?start = Inr ?s"
    by (auto simp: drop_future_def collect_drop_fun_def batch_collect_drop_def reducer_batch_collect_def batch_collect_new_def
        batch_system_start_def)
  then have "(batch_system_step (collect_fun list_push list_steal (2 ^ 6)) (collect_drop_fun list_steal (2 ^ 6)) True)\<^sup>*\<^sup>* ?start ?s"
    by (intro r_into_rtranclp future_dropped) (simp_all add: batch_system_start_def)
  from collect_futures_conserve [OF _ _ list_deque _ q this] this q show ?thesis by fastforce
qed

theorem reduce_futures_conserve_witness:
  "\<exists>q s. stack_queue_default None (2 ^ 6 :: 64 word) ([] :: nat list) = Some q \<and>
    (batch_system_step (reduce_fun list_push list_steal True (2 ^ 6)) (reduce_drop_fun list_steal (2 ^ 6)) True)\<^sup>*\<^sup>*
      (batch_system_start q (map (\<lambda>t. reducer_batch_reduce t panics_at_second) [7, 8, 9])) s \<and>
    bs_values s = [None] \<and> bs_dropped s = [9] \<and> bs_futures s = Map.empty \<and> occupancy (inner (bs_queue s)) = 0 \<and>
    (\<exists>batches. bs_values s = map (\<lambda>b. fst (reduce_list panics_at_second b)) batches \<and>
      mset (concat (map (tasks_taken panics_at_second) batches)) = {#7, 8#})"
proof -
  obtain q :: "(64 word, nat buffer_cell, nat list) stack_queue" where
    q: "stack_queue_default None (2 ^ 6 :: 64 word) ([] :: nat list) = Some q"
    using default_queue_at [of 6 None "[]"] by auto
  let ?tasks = "[7, 8, 9 :: nat]"
  have "\<forall>t. (batch_env 6 list_push list_steal (\<lambda>d. d) (\<lambda>d. 0) \<and> reduces_with panics_at_second (reducer_batch_reduce t panics_at_second)) \<and>
      reduce_view (reducer_batch_reduce t panics_at_second) = Unpushed t"
    by (simp add: batch_env_def reducer_batch_reduce_def batch_reduce_new_def)
  from reducing.serves [OF this default_queue_idle(1) [OF _ _ q], of ?tasks True] obtain s where
    s: "(batch_system_step (reduce_fun list_push list_steal True (2 ^ 6)) (reduce_drop_fun list_steal (2 ^ 6)) True)\<^sup>*\<^sup>*
      (batch_system_start q (map (\<lambda>t. reducer_batch_reduce t panics_at_second) ?tasks)) s" "bs_futures s = Map.empty"
      "bs_values s = [None]" "bs_dropped s = [9]"
    by (auto simp: panics_at_second_def)
  have "(6 :: nat) \<le> 6" "(6 :: nat) < 32" "length ?tasks < 2 ^ 32" by simp_all
  from reduce_futures_conserve [OF this(1,2) list_deque this(3) q s(1)] s(2) obtain batches where
    "bs_values s = map (\<lambda>b. fst (reduce_list panics_at_second b)) batches"
    "mset (concat (map (tasks_taken panics_at_second) batches)) + mset (bs_dropped s) = mset ?tasks" "occupancy (inner (bs_queue s)) = 0"
    by blast
  moreover from this(2) have "mset (concat (map (tasks_taken panics_at_second) batches)) = {#7, 8#}"
    by (simp add: s(4) add_mset_commute)
  ultimately show ?thesis using q s by (intro exI [of _ q] exI [of _ s] conjI exI [of _ batches]) assumption+
qed

theorem cancelled_wakers_strand_witness:
  "\<exists>q s i t. stack_queue_default None (2 ^ 6 :: 64 word) ([] :: nat list) = Some q \<and>
    (batch_system_step (collect_fun list_push list_steal (2 ^ 6)) (collect_drop_fun list_steal (2 ^ 6)) False)\<^sup>*\<^sup>*
      (batch_system_start q (map reducer_batch_collect [0..<73])) s \<and>
    bs_ready s = {} \<and> occupancy (inner (bs_queue s)) = 0 \<and> bs_futures s i = Some (CollectUnbatched t)"
proof -
  obtain q :: "(64 word, nat buffer_cell, nat list) stack_queue" where
    q: "stack_queue_default None (2 ^ 6 :: 64 word) ([] :: nat list) = Some q"
    using default_queue_at [of 6 None "[]"] by auto
  have n: "length [0..<73 :: nat] = 2 ^ 6 + 2 ^ (6 - 3) + 1" by simp
  from cancelled_wakers_strand [OF _ _ list_deque q _ n] q show ?thesis by auto
qed

end
