(* ===== verification/NegotiationTest.thy ===== *)
theory NegotiationTest
  imports Negotiation
begin

unbundle bit_operations_syntax

text \<open>
  The loom test \<open>it_negotiates_receiver_drop\<close> of \<open>queue.rs\<close>: one thread enqueues a task by hand, tells
  another one through a flag under a mutex, and drops the future, while the other resolves the task.
\<close>

section \<open>The program\<close>

text \<open>
  The resolving thread: before its first \<open>lock\<close>; with the lock, at the condition of its loop; asleep
  in \<open>wait\<close>; woken, but without the lock; in \<open>resolve_unchecked\<close>; at its end.
\<close>

datatype resolving_thread = RtStart | RtChecking | RtAsleep | RtWoken | RtResolving | RtEnd

text \<open>
  The receiving thread: at its start; after \<open>task.init\<close>; with the lock; after setting the flag; after
  \<open>notify_one\<close>; and after its guard was dropped. \<open>drop(auto_batched_task)\<close> only drops the pinned
  reference: the future itself is declared before the guard, so its destructor runs after the
  mutex is unlocked.
\<close>

datatype receiving_thread = OwStart | OwInit | OwLocked | OwSet | OwNotified | OwUnlocked

datatype mutex_holder = ResolvingThread | ReceivingThread

text \<open>\<open>nt_race\<close>: task and future, \<open>None\<close> before they are initialised.\<close>

record negotiation_test =
  nt_mutex :: "mutex_holder option"
  nt_flag :: bool
  nt_resolver :: resolving_thread
  nt_receiver :: receiving_thread
  nt_race :: "nat race option"
  nt_fault :: bool

definition negotiation_test_start :: negotiation_test where
  "negotiation_test_start = \<lparr>nt_mutex = None, nt_flag = False, nt_resolver = RtStart, nt_receiver = OwStart,
     nt_race = None, nt_fault = False\<rparr>"

text \<open>
  The steps of \<open>resolve_unchecked\<close> and of the destructor are those of the race; tasks of type \<open>usize\<close>
  need no drop. \<open>wait\<close> may also wake up for no reason.
\<close>

definition resolving_move :: "'v race \<Rightarrow> 'v race \<Rightarrow> bool" where
  "resolving_move r r' \<longleftrightarrow> race_step False r r' \<and> rpc r' \<noteq> rpc r \<and> rpc r' \<noteq> RDropped"

definition dropping_move :: "'v race \<Rightarrow> 'v race \<Rightarrow> bool" where
  "dropping_move r r' \<longleftrightarrow> race_step False r r' \<and> rpc r' = rpc r \<and> opc r' \<noteq> OReceived \<and> opc r' \<noteq> OBatched \<and> \<not> reused r'"

inductive negotiation_test_step :: "negotiation_test \<Rightarrow> negotiation_test \<Rightarrow> bool" where
  resolver_locks: "nt_resolver s \<in> {RtStart, RtWoken} \<Longrightarrow> nt_mutex s = None \<Longrightarrow>
    negotiation_test_step s (s\<lparr>nt_mutex := Some ResolvingThread, nt_resolver := RtChecking\<rparr>)"
| resolver_waits: "nt_resolver s = RtChecking \<Longrightarrow> \<not> nt_flag s \<Longrightarrow>
    negotiation_test_step s (s\<lparr>nt_mutex := None, nt_resolver := RtAsleep\<rparr>)"
| resolver_wakes: "nt_resolver s = RtAsleep \<Longrightarrow> negotiation_test_step s (s\<lparr>nt_resolver := RtWoken\<rparr>)"
| resolver_proceeds: "nt_resolver s = RtChecking \<Longrightarrow> nt_flag s \<Longrightarrow>
    negotiation_test_step s (s\<lparr>nt_resolver := RtResolving\<rparr>)"
| resolver_resolves: "nt_resolver s = RtResolving \<Longrightarrow> nt_race s = Some r \<Longrightarrow> resolving_move r r' \<Longrightarrow>
    negotiation_test_step s (s\<lparr>nt_race := Some r'\<rparr>)"
| resolver_faults: "nt_resolver s = RtResolving \<Longrightarrow> nt_race s = None \<Longrightarrow>
    negotiation_test_step s (s\<lparr>nt_resolver := RtEnd, nt_fault := True\<rparr>)"
| resolver_ends: "nt_resolver s = RtResolving \<Longrightarrow> nt_race s = Some r \<Longrightarrow> rpc r = RDone \<Longrightarrow>
    negotiation_test_step s (s\<lparr>nt_mutex := None, nt_resolver := RtEnd\<rparr>)"
| receiver_inits: "nt_receiver s = OwStart \<Longrightarrow>
    negotiation_test_step s (s\<lparr>nt_race := Some (race_start 9001), nt_receiver := OwInit\<rparr>)"
| receiver_locks: "nt_receiver s = OwInit \<Longrightarrow> nt_mutex s = None \<Longrightarrow>
    negotiation_test_step s (s\<lparr>nt_mutex := Some ReceivingThread, nt_receiver := OwLocked\<rparr>)"
| receiver_sets: "nt_receiver s = OwLocked \<Longrightarrow> negotiation_test_step s (s\<lparr>nt_flag := True, nt_receiver := OwSet\<rparr>)"
| receiver_notifies: "nt_receiver s = OwSet \<Longrightarrow>
    negotiation_test_step s (s\<lparr>nt_receiver := OwNotified,
      nt_resolver := if nt_resolver s = RtAsleep then RtWoken else nt_resolver s\<rparr>)"
| receiver_unlocks: "nt_receiver s = OwNotified \<Longrightarrow>
    negotiation_test_step s (s\<lparr>nt_mutex := None, nt_receiver := OwUnlocked\<rparr>)"
| receiver_drops: "nt_receiver s = OwUnlocked \<Longrightarrow> nt_race s = Some r \<Longrightarrow> dropping_move r r' \<Longrightarrow>
    negotiation_test_step s (s\<lparr>nt_race := Some r'\<rparr>)"

text \<open>Both threads can be joined.\<close>

definition negotiation_test_ended :: "negotiation_test \<Rightarrow> bool" where
  "negotiation_test_ended s \<longleftrightarrow> nt_resolver s = RtEnd \<and> nt_receiver s = OwUnlocked \<and>
     (\<exists>r. nt_race s = Some r \<and> opc r = ODropped)"

section \<open>The invariant\<close>

text \<open>What is true of the race, when the threads are where they are.\<close>

definition race_at :: "resolving_thread \<Rightarrow> receiving_thread \<Rightarrow> nat race \<Rightarrow> bool" where
  "race_at rt ow r \<longleftrightarrow> race_inv 9001 False r \<and> \<not> reused r \<and> rpc r \<noteq> RDropped \<and> opc r \<noteq> OReceived \<and>
     (rt \<in> {RtResolving, RtEnd} \<or> rpc r = RBegin 9001) \<and> (ow = OwUnlocked \<or> opc r = OBatched) \<and>
     (rt = RtEnd \<longrightarrow> rpc r = RDone)"

definition negotiation_test_inv :: "negotiation_test \<Rightarrow> bool" where
  "negotiation_test_inv s \<longleftrightarrow> \<not> nt_fault s \<and>
     nt_mutex s = (if nt_resolver s \<in> {RtChecking, RtResolving} then Some ResolvingThread
       else if nt_receiver s \<in> {OwLocked, OwSet, OwNotified} then Some ReceivingThread else None) \<and>
     (nt_resolver s \<in> {RtChecking, RtResolving} \<longrightarrow> nt_receiver s \<notin> {OwLocked, OwSet, OwNotified}) \<and>
     (nt_flag s \<longleftrightarrow> nt_receiver s \<in> {OwSet, OwNotified, OwUnlocked}) \<and>
     (nt_resolver s \<in> {RtResolving, RtEnd} \<longrightarrow> nt_receiver s = OwUnlocked) \<and>
     (nt_resolver s = RtAsleep \<longrightarrow> nt_receiver s \<notin> {OwNotified, OwUnlocked}) \<and>
     (case nt_race s of None \<Rightarrow> nt_receiver s = OwStart
      | Some r \<Rightarrow> nt_receiver s \<noteq> OwStart \<and> race_at (nt_resolver s) (nt_receiver s) r)"

lemma test_inv_start: "negotiation_test_inv negotiation_test_start"
  by (simp add: negotiation_test_inv_def negotiation_test_start_def)

lemma race_at_start: "rt \<notin> {RtResolving, RtEnd} \<Longrightarrow> race_at rt ow (race_start 9001)"
  using race_inv_start [of 9001 False] by (simp add: race_at_def race_start_def)

lemma race_at_resolving:
  assumes "race_at RtResolving OwUnlocked r" "resolving_move r r'"
  shows "race_at RtResolving OwUnlocked r'"
proof -
  have step: "race_step False r r'" and pc: "rpc r' \<noteq> rpc r" "rpc r' \<noteq> RDropped" using assms(2) by (simp_all add: resolving_move_def)
  have inv: "race_inv 9001 False r" "\<not> reused r" "opc r \<noteq> OReceived" using assms(1) by (simp_all add: race_at_def)
  have "opc r' = opc r" "reused r' = reused r" using step pc by (cases rule: race_step.cases; simp)+
  then show ?thesis using race_inv_step [OF step inv(1)] inv(2,3) pc(2) by (simp add: race_at_def)
qed

lemma race_at_dropping:
  assumes "race_at rt OwUnlocked r" "dropping_move r r'"
  shows "race_at rt OwUnlocked r'"
  using assms race_inv_step [of False r r' 9001] by (auto simp: race_at_def dropping_move_def)

lemma test_inv_step:
  assumes "negotiation_test_step s s'" "negotiation_test_inv s"
  shows "negotiation_test_inv s'"
  using assms
proof (cases rule: negotiation_test_step.cases)
  case (resolver_resolves r r')
  then show ?thesis using assms(2) race_at_resolving [of r r'] by (auto simp: negotiation_test_inv_def)
next
  case (receiver_drops r r')
  then show ?thesis using assms(2) race_at_dropping [of _ r r'] by (auto simp: negotiation_test_inv_def)
next
  case receiver_inits
  then show ?thesis using assms(2) race_at_start by (auto simp: negotiation_test_inv_def)
qed (auto simp: negotiation_test_inv_def race_at_def split: option.splits if_splits)

lemma test_inv_run: "negotiation_test_step\<^sup>*\<^sup>* negotiation_test_start s \<Longrightarrow> negotiation_test_inv s"
  by (induction rule: rtranclp_induct) (auto intro: test_inv_start test_inv_step)

section \<open>The end can always be reached\<close>

definition resolving_left :: "resolving_thread \<Rightarrow> nat race option \<Rightarrow> nat" where
  "resolving_left rt race = (case rt of RtStart \<Rightarrow> 7 | RtWoken \<Rightarrow> 7 | RtChecking \<Rightarrow> 6 | RtAsleep \<Rightarrow> 5
     | RtResolving \<Rightarrow> Suc (case race of None \<Rightarrow> 0 | Some r \<Rightarrow> resolver_left (rpc r)) | RtEnd \<Rightarrow> 0)"

definition receiving_left :: "receiving_thread \<Rightarrow> nat" where
  "receiving_left ow = (case ow of OwStart \<Rightarrow> 5 | OwInit \<Rightarrow> 4 | OwLocked \<Rightarrow> 3 | OwSet \<Rightarrow> 2 | OwNotified \<Rightarrow> 1 | OwUnlocked \<Rightarrow> 0)"

definition negotiation_test_left :: "negotiation_test \<Rightarrow> nat" where
  "negotiation_test_left s = 40 * receiving_left (nt_receiver s) + 4 * resolving_left (nt_resolver s) (nt_race s) +
     (case nt_race s of None \<Rightarrow> 0 | Some r \<Rightarrow> owner_left (opc r))"

lemmas left_defs = negotiation_test_left_def receiving_left_def resolving_left_def

lemma owner_left_le: "owner_left pc \<le> 3"
  by (simp add: owner_left_def split: owner_pc.splits)

lemma resolver_moves:
  assumes "race_inv v False r" "\<not> through (rpc r)"
  obtains r' where "resolving_move r r'" "opc r' = opc r" "resolver_left (rpc r') < resolver_left (rpc r)"
proof (cases "rpc r")
  case (RBegin u)
  from that [OF _ _ _] race_step.begin_setting [OF RBegin, of False] RBegin show ?thesis
    by (fastforce simp: resolving_move_def resolver_left_def)
next
  case (RLoaded state u)
  show ?thesis
  proof (cases "state AND RX_DROPPED = 0")
    case True
    from that [OF _ _ _] race_step.write_value [OF RLoaded True, of False] RLoaded show ?thesis
      by (fastforce simp: resolving_move_def resolver_left_def)
  next
    case False
    from that [OF _ _ _] race_step.discard_value [OF RLoaded False, of False] RLoaded show ?thesis
      by (fastforce simp: resolving_move_def resolver_left_def)
  qed
next
  case RWrote
  from that [OF _ _ _] race_step.wake [OF RWrote, of False] RWrote show ?thesis
    by (fastforce simp: resolving_move_def resolver_left_def)
next
  case RWoke
  from that [OF _ _ _] race_step.finish_setting [OF RWoke, of False] RWoke show ?thesis
    by (fastforce simp: resolving_move_def resolver_left_def)
qed (use assms(2) in simp_all)

text \<open>First the receiving thread gets through to its destructor; the other one may have to wait.\<close>

lemma receiver_advances:
  assumes "negotiation_test_inv s" "nt_receiver s \<noteq> OwUnlocked"
  shows "\<exists>s'. negotiation_test_step s s' \<and> negotiation_test_left s' < negotiation_test_left s"
proof (cases "nt_mutex s = Some ResolvingThread")
  case True
  then have "nt_resolver s = RtChecking" "\<not> nt_flag s"
    using assms by (auto simp: negotiation_test_inv_def split: if_splits)
  from resolver_waits [OF this] this(1) show ?thesis by (fastforce simp: left_defs)
next
  case False
  show ?thesis
  proof (cases "nt_receiver s")
    case OwStart
    then have "nt_race s = None" "nt_resolver s \<noteq> RtResolving"
      using assms(1) by (auto simp: negotiation_test_inv_def split: option.splits)
    then show ?thesis
      using receiver_inits [OF OwStart] owner_left_le [of "opc (race_start 9001 :: nat race)"] OwStart
      by (fastforce simp: left_defs split: resolving_thread.splits)
  next
    case OwInit
    then have "nt_mutex s = None" using assms(1) False by (auto simp: negotiation_test_inv_def split: if_splits)
    from receiver_locks [OF OwInit this] OwInit show ?thesis by (fastforce simp: left_defs)
  next
    case OwLocked
    from receiver_sets [OF this] OwLocked show ?thesis by (fastforce simp: left_defs)
  next
    case OwSet
    from receiver_notifies [OF this] OwSet show ?thesis
      by (fastforce simp: left_defs split: resolving_thread.splits)
  next
    case OwNotified
    from receiver_unlocks [OF this] OwNotified show ?thesis by (fastforce simp: left_defs)
  qed (use assms(2) in simp)
qed

text \<open>Then the resolving one.\<close>

lemma resolver_advances:
  assumes "negotiation_test_inv s" "nt_receiver s = OwUnlocked" "nt_resolver s \<noteq> RtEnd"
  shows "\<exists>s'. negotiation_test_step s s' \<and> negotiation_test_left s' < negotiation_test_left s"
proof -
  obtain r where r: "nt_race s = Some r" "race_at (nt_resolver s) OwUnlocked r"
    using assms(1,2) by (auto simp: negotiation_test_inv_def split: option.splits)
  show ?thesis
  proof (cases "nt_resolver s")
    case RtResolving
    show ?thesis
    proof (cases "rpc r = RDone")
      case True
      from resolver_ends [OF RtResolving r(1) True] RtResolving r(1) show ?thesis by (fastforce simp: left_defs)
    next
      case False
      have inv: "race_inv 9001 False r" using r(2) by (simp add: race_at_def)
      obtain r' where r': "resolving_move r r'" "opc r' = opc r" "resolver_left (rpc r') < resolver_left (rpc r)"
        by (rule resolver_moves [OF inv]) (use False r(2) in \<open>auto simp: race_at_def through_def\<close>)
      from resolver_resolves [OF RtResolving r(1) r'(1)] RtResolving r(1) r'(2,3) show ?thesis
        by (fastforce simp: left_defs)
    qed
  next
    case RtAsleep
    then show ?thesis using assms(1,2) by (simp add: negotiation_test_inv_def)
  next
    case RtChecking
    have "nt_flag s" using assms(1,2) by (simp add: negotiation_test_inv_def)
    from resolver_proceeds [OF RtChecking this] r(1) RtChecking show ?thesis
      by (fastforce simp: left_defs resolver_left_def split: resolver_pc.splits)
  next
    case RtStart
    then have "nt_mutex s = None" using assms(1,2) by (simp add: negotiation_test_inv_def)
    from resolver_locks [OF _ this] RtStart show ?thesis by (fastforce simp: left_defs)
  next
    case RtWoken
    then have "nt_mutex s = None" using assms(1,2) by (simp add: negotiation_test_inv_def)
    from resolver_locks [OF _ this] RtWoken show ?thesis by (fastforce simp: left_defs)
  qed (use assms(3) in simp)
qed

text \<open>And last the destructor, which has nothing to wait for any more.\<close>

lemma destructor_moves:
  assumes "race_at RtEnd OwUnlocked r" "opc r \<noteq> ODropped"
  obtains r' where "dropping_move r r'" "owner_left (opc r') < owner_left (opc r)"
proof (cases "opc r")
  case OBatched
  have "\<not> reused r" using assms(1) by (simp add: race_at_def)
  from race_step.begin_drop [OF OBatched this, of False] OBatched this show ?thesis
    by (intro that [of "r\<lparr>opc := OSpin (state_word r), state_word := state_word r OR RX_DROPPED\<rparr>"])
      (simp_all add: dropping_move_def owner_left_def)
next
  case (OSpin st)
  have inv: "race_inv 9001 False r" "\<not> reused r" "rpc r = RDone" using assms(1) by (simp_all add: race_at_def)
  show ?thesis
  proof (cases "st AND SETTING_VALUE = SETTING_VALUE")
    case True
    then have "state_word r AND SETTING_VALUE \<noteq> SETTING_VALUE"
      using inv OSpin by (auto simp: race_inv_def flag_simps)
    with race_step.spin [OF OSpin True, of False] OSpin True inv(2) show ?thesis
      by (intro that [of "r\<lparr>opc := OSpin (state_word r)\<rparr>"]) (simp_all add: dropping_move_def owner_left_def)
  next
    case False
    with race_step.drop_only [OF OSpin False, of False] OSpin inv(2) show ?thesis
      by (intro that [of "r\<lparr>opc := ODropped, rx_mem := None\<rparr>"]) (simp_all add: dropping_move_def owner_left_def)
  qed
qed (use assms in \<open>simp_all add: race_at_def\<close>)

lemma some_thread_advances:
  assumes "negotiation_test_inv s" "\<not> negotiation_test_ended s"
  shows "\<exists>s'. negotiation_test_step s s' \<and> negotiation_test_left s' < negotiation_test_left s"
proof (cases "nt_receiver s = OwUnlocked \<and> nt_resolver s = RtEnd")
  case True
  obtain r where r: "nt_race s = Some r" "race_at RtEnd OwUnlocked r"
    using assms(1) True by (auto simp: negotiation_test_inv_def split: option.splits)
  then have "opc r \<noteq> ODropped" using assms(2) True by (simp add: negotiation_test_ended_def)
  then obtain r' where r': "dropping_move r r'" "owner_left (opc r') < owner_left (opc r)"
    by (rule destructor_moves [OF r(2)])
  from receiver_drops [OF _ r(1) r'(1)] True r(1) r'(2) show ?thesis by (fastforce simp: left_defs)
next
  case False
  then show ?thesis using receiver_advances resolver_advances assms(1) by blast
qed

lemma end_reachable:
  assumes "negotiation_test_inv s"
  shows "\<exists>s'. negotiation_test_step\<^sup>*\<^sup>* s s' \<and> negotiation_test_ended s'"
  using assms
proof (induction "negotiation_test_left s" arbitrary: s rule: less_induct)
  case less
  show ?case
  proof (cases "negotiation_test_ended s")
    case False
    then obtain s1 where s1: "negotiation_test_step s s1" "negotiation_test_left s1 < negotiation_test_left s"
      using some_thread_advances less.prems by blast
    from less.hyps [OF s1(2) test_inv_step [OF s1(1) less.prems]] s1(1) show ?thesis
      by (meson converse_rtranclp_into_rtranclp)
  qed blast
qed

section \<open>The test holds\<close>

text \<open>
  C26. However the two threads of the test are scheduled, and whenever \<open>wait\<close> wakes up: the resolver
  never finds an uninitialised cell, no access finds the receiver gone, no notification is lost,
  so that both threads can always get to their ends, and there the value was dropped by the
  resolver if the future was dropped first, and set and forgotten, as it needs no drop, if not.
\<close>

theorem negotiates_receiver_drop_ok:
  assumes "negotiation_test_step\<^sup>*\<^sup>* negotiation_test_start s"
  shows "\<not> nt_fault s \<and> (\<forall>r. nt_race s = Some r \<longrightarrow> \<not> broken r) \<and>
    (\<exists>s'. negotiation_test_step\<^sup>*\<^sup>* s s' \<and> negotiation_test_ended s') \<and>
    (negotiation_test_ended s \<longrightarrow>
      (\<exists>r. nt_race s = Some r \<and> returned r = [] \<and> discarded r = (if was_woken r then [] else [9001])))"
proof -
  have inv: "negotiation_test_inv s" by (rule test_inv_run [OF assms])
  then have race: "race_at (nt_resolver s) (nt_receiver s) r" if "nt_race s = Some r" for r
    using that by (simp add: negotiation_test_inv_def)
  have "returned r = [] \<and> discarded r = (if was_woken r then [] else [9001])"
    if "negotiation_test_ended s" "nt_race s = Some r" for r
  proof -
    have "race_inv 9001 False r" "\<not> reused r" "rpc r = RDone" "opc r = ODropped"
      using that race [OF that(2)] by (simp_all add: race_at_def negotiation_test_ended_def)
    then show ?thesis by (auto simp: race_inv_def)
  qed
  moreover have "\<not> broken r" if "nt_race s = Some r" for r
    using race [OF that] by (simp add: race_at_def race_inv_def)
  moreover have "\<not> nt_fault s" using inv by (simp add: negotiation_test_inv_def)
  ultimately show ?thesis using end_reachable [OF inv] by (auto simp: negotiation_test_ended_def)
qed

theorem negotiates_receiver_drop_ok_witness:
  "\<exists>s r. negotiation_test_step\<^sup>*\<^sup>* negotiation_test_start s \<and> negotiation_test_ended s \<and> nt_race s = Some r \<and>
    returned r = [] \<and> discarded r = (if was_woken r then [] else [9001])"
  using negotiates_receiver_drop_ok [OF rtranclp.rtrancl_refl]
    negotiates_receiver_drop_ok by blast

end
