(* ===== verification/LocalQueueMacro.thy ===== *)
theory LocalQueueMacro
  imports Queue
begin

text \<open>
  The crate \<open>derive-stack-queue\<close>: the attribute macro \<open>local_queue\<close>, which checks the buffer size,
  finds out which of the three traits is implemented, and adds an \<open>impl LocalQueue\<close> with a
  thread-local queue.

  Tokens are parsed by the packages \<open>darling\<close> and \<open>syn\<close>: \<open>parse_meta_list\<close> and \<open>from_list\<close> are
  arguments of the macro (the derived \<open>from_list\<close> reads a list of attributes into the \<open>buffer_size\<close>
  it has, if any), and so is \<open>parse_item\<close>, whose result keeps what the macro looks at. The expansion
  is the structure that the quoted tokens have; \<open>'ty\<close> are types of the program.
\<close>

section \<open>Options and input\<close>

datatype variant = TaskQueue | BackgroundQueue | BatchReducer

record 'u queue_opt =
  buffer_size :: 'u

definition queue_opt_default :: "'w::len word queue_opt" where
  "queue_opt_default = \<lparr>buffer_size = 1024\<rparr>"

text \<open>\<open>#[darling(default)]\<close>: a field that is not given is taken from the default.\<close>

definition queue_opt_from_list :: "('m \<Rightarrow> 'e + 'w::len word option) \<Rightarrow> 'm \<Rightarrow> 'e + 'w word queue_opt" where
  "queue_opt_from_list from_list metas =
     bind_sum (from_list metas) (\<lambda>given.
       Inr (case given of None \<Rightarrow> queue_opt_default | Some n \<Rightarrow> queue_opt_default\<lparr>buffer_size := n\<rparr>))"

datatype 'ty impl_item = ImplType (type_ident: string) (type_ty: 'ty) | OtherImplItem

record ('a, 'ty) item_impl =
  attrs :: "'a list"
  self_ty :: 'ty
  trait_path :: "string list option"
  items :: "'ty impl_item list"

datatype 'e macro_error =
    ParseError 'e
  | MustNotExceed
  | MustBeAtLeast
  | MustBePowerOf2
  | MustBeUsedOn
  | MissingTask

section \<open>Expansion\<close>

datatype 'ty cell_type = TaskRefOf 'ty | BufferCellOf 'ty

text \<open>\<open>StackQueue<cell, size>\<close> and \<open>impl LocalQueue<size> for ident\<close>, under one of the two \<open>cfg\<close>s.\<close>

record ('u, 'ty) queue_type =
  queue_cell :: "'ty cell_type"
  queue_size :: 'u

record ('u, 'ty) local_queue_impl =
  for_loom :: bool
  impl_size :: 'u
  impl_for :: 'ty
  impl_buffer_cell :: "'ty cell_type"
  impl_static :: "('u, 'ty) queue_type"

record ('u, 'a, 'ty) expansion =
  exp_item :: "('a, 'ty) item_impl"
  exp_impls :: "('u, 'ty) local_queue_impl list"

definition trait_variant :: "string list option \<Rightarrow> variant option" where
  "trait_variant path =
     (case path of
        None \<Rightarrow> None
      | Some segments \<Rightarrow>
          if segments = [''stack_queue'', ''TaskQueue''] \<or> segments = [''TaskQueue''] then Some TaskQueue
          else if segments = [''stack_queue'', ''BackgroundQueue''] \<or> segments = [''BackgroundQueue'']
          then Some BackgroundQueue
          else if segments = [''stack_queue'', ''BatchReducer''] \<or> segments = [''BatchReducer'']
          then Some BatchReducer
          else None)"

fun task_type :: "'ty impl_item list \<Rightarrow> 'ty option" where
  "task_type [] = None"
| "task_type (ImplType ident ty # rest) = (if ident = ''Task'' then Some ty else task_type rest)"
| "task_type (OtherImplItem # rest) = task_type rest"

definition buffer_cell_type :: "variant \<Rightarrow> 'ty \<Rightarrow> 'ty \<Rightarrow> 'ty cell_type" where
  "buffer_cell_type v ident task =
     (case v of
        TaskQueue \<Rightarrow> TaskRefOf ident
      | BackgroundQueue \<Rightarrow> BufferCellOf task
      | BatchReducer \<Rightarrow> BufferCellOf task)"

definition expand :: "('a, 'ty) item_impl \<Rightarrow> 'u \<Rightarrow> 'ty cell_type \<Rightarrow> ('u, 'a, 'ty) expansion" where
  "expand input sz cell =
     (let queue = \<lparr>queue_cell = cell, queue_size = sz\<rparr>;
          lq = (\<lambda>loom. \<lparr>for_loom = loom, impl_size = sz, impl_for = self_ty input,
                         impl_buffer_cell = cell, impl_static = queue\<rparr>)
      in \<lparr>exp_item = input, exp_impls = [lq False, lq True]\<rparr>)"

text \<open>
  The macro, compiled for a host of word width \<open>'w\<close>: the checks in the order of the source, each with
  its early return. The constants of this crate have the values of those of \<open>stack-queue\<close>.
\<close>

definition local_queue ::
    "('args \<Rightarrow> 'e + 'm) \<Rightarrow> ('tokens \<Rightarrow> 'e + ('a, 'ty) item_impl) \<Rightarrow> ('m \<Rightarrow> 'e + 'w::len word option)
      \<Rightarrow> 'args \<Rightarrow> 'tokens \<Rightarrow> 'e macro_error + ('w word, 'a, 'ty) expansion" where
  "local_queue parse_meta_list parse_item from_list args input =
     (case parse_meta_list args of
        Inl e \<Rightarrow> Inl (ParseError e)
      | Inr attr_args \<Rightarrow>
     (case parse_item input of
        Inl e \<Rightarrow> Inl (ParseError e)
      | Inr item \<Rightarrow>
     (let item = item\<lparr>attrs := []\<rparr> in
      case queue_opt_from_list from_list attr_args of
        Inl e \<Rightarrow> Inl (ParseError e)
      | Inr opt \<Rightarrow>
          let sz = buffer_size opt in
          if sz > MAX_BUFFER_LEN then Inl MustNotExceed
          else if sz < MIN_BUFFER_LEN then Inl MustBeAtLeast
          else if sz \<noteq> next_power_of_two sz then Inl MustBePowerOf2
          else
            case trait_variant (trait_path item) of
              None \<Rightarrow> Inl MustBeUsedOn
            | Some v \<Rightarrow>
               (case task_type (items item) of
                  None \<Rightarrow> Inl MissingTask
                | Some task \<Rightarrow> Inr (expand item sz (buffer_cell_type v (self_ty item) task))))))"

section \<open>What the macro accepts\<close>

text \<open>
  C29. On a 64-bit host the macro succeeds exactly on an implementation of one of the three traits that
  has a type \<open>Task\<close>, with a size that is a power of two from 64 to \<open>2 ^ 31\<close>; it keeps the
  implementation without its attributes and adds one queue of that size, under either \<open>cfg\<close>.
\<close>

theorem local_queue_ok_iff:
  fixes from_list :: "'m \<Rightarrow> 'e + 64 word option"
  assumes "parse_meta_list args = Inr metas" "parse_item input = Inr item" "from_list metas = Inr given"
  shows "(\<exists>e. local_queue parse_meta_list parse_item from_list args input = Inr e) \<longleftrightarrow>
    (\<exists>k. 6 \<le> k \<and> k < 32 \<and> (case given of None \<Rightarrow> 1024 | Some n \<Rightarrow> n) = 2 ^ k) \<and>
    trait_variant (trait_path item) \<noteq> None \<and> task_type (items item) \<noteq> None"
proof -
  define sz where "sz = (case given of None \<Rightarrow> 1024 | Some n \<Rightarrow> n)"
  have "queue_opt_from_list from_list metas = Inr \<lparr>buffer_size = sz\<rparr>"
    using assms(3) by (simp add: queue_opt_from_list_def queue_opt_default_def sz_def split: option.split)
  then show ?thesis
    using assms(1,2)
    unfolding buffer_sizes_64 [of sz, symmetric] sz_def [symmetric]
    by (auto simp: local_queue_def Let_def split: option.split)
qed

theorem local_queue_ok_iff_witness:
  "\<exists>e. local_queue (\<lambda>_. Inr ()) (\<lambda>_. Inr \<lparr>attrs = [()], self_ty = ''Echo'', trait_path = Some [''TaskQueue''],
      items = [ImplType ''Task'' ''usize'']\<rparr>) (\<lambda>_. Inr None :: unit + 64 word option) () () = Inr e"
proof -
  have "\<exists>k. 6 \<le> k \<and> k < 32 \<and> (1024 :: 64 word) = 2 ^ k" by (rule exI [of _ 10]) simp
  then show ?thesis
    using local_queue_ok_iff [where parse_meta_list = "\<lambda>_. Inr ()" and args = "()" and input = "()"
        and from_list = "\<lambda>_. Inr None" and parse_item = "\<lambda>_. Inr \<lparr>attrs = [()], self_ty = ''Echo'',
          trait_path = Some [''TaskQueue''], items = [ImplType ''Task'' ''usize'']\<rparr>", OF refl refl refl]
    by (simp add: trait_variant_def)
qed

lemma expansion_sizes:
  assumes "local_queue parse_meta_list parse_item from_list args input = Inr (e :: (64 word, 'a, 'ty) expansion)"
    and "lq \<in> set (exp_impls e)"
  shows "\<exists>k. 6 \<le> k \<and> k < 32 \<and> impl_size lq = 2 ^ k"
proof -
  obtain item sz cell where "e = expand (item\<lparr>attrs := []\<rparr>) sz cell"
    and "sz = next_power_of_two sz \<and> MIN_BUFFER_LEN \<le> sz \<and> sz \<le> MAX_BUFFER_LEN"
    using assms(1)
    by (auto simp: local_queue_def Let_def not_less split: sum.splits option.splits if_splits)
  then show ?thesis using assms(2) unfolding buffer_sizes_64 by (auto simp: expand_def Let_def)
qed

text \<open>
  C30. Whatever the macro accepts on a 64-bit host, the queue it declares can be constructed on a 64-bit
  target: no assertion of \<open>StackQueue::default\<close> fails, and the three places where the expansion names
  the size agree.
\<close>

theorem expansion_constructs:
  assumes "local_queue parse_meta_list parse_item from_list args input = Inr (e :: (64 word, 'a, 'ty) expansion)"
  shows "\<exists>sz cell. (\<forall>lq\<in>set (exp_impls e). impl_size lq = sz \<and>
      impl_static lq = \<lparr>queue_cell = cell, queue_size = sz\<rparr> \<and> impl_buffer_cell lq = cell) \<and>
    attrs (exp_item e) = [] \<and> stack_queue_default uninit sz d \<noteq> None"
proof -
  obtain item sz cell where "e = expand (item\<lparr>attrs := []\<rparr>) sz cell"
    and "sz = next_power_of_two sz \<and> MIN_BUFFER_LEN \<le> sz \<and> sz \<le> MAX_BUFFER_LEN"
    using assms
    by (auto simp: local_queue_def Let_def not_less split: sum.splits option.splits if_splits)
  then show ?thesis
    by (intro exI [of _ sz] exI [of _ cell]) (simp add: expand_def stack_queue_default_def Let_def)
qed

text \<open>
  The macro runs on the host, and takes its bound from the pointer width of the host. For a 32-bit
  target it accepts sizes there that \<open>StackQueue::default\<close> rejects when the queue is first used.
\<close>

theorem cross_compiled_size_rejected:
  fixes from_list :: "'m \<Rightarrow> 'e + 64 word option"
  assumes "parse_meta_list args = Inr metas" "from_list metas = Inr (Some 65536)"
    and "parse_item input = Inr \<lparr>attrs = as, self_ty = ty, trait_path = Some [''TaskQueue''], items = [ImplType ''Task'' task]\<rparr>"
  shows "\<exists>e. local_queue parse_meta_list parse_item from_list args input = Inr e \<and>
    (\<forall>lq\<in>set (exp_impls e). stack_queue_default uninit (ucast (impl_size lq) :: 32 word) d = None)"
proof -
  have "next_power_of_two (65536 :: 64 word) = 65536"
    using next_power_of_two_exp [of 16, where 'w = 64] by simp
  then show ?thesis
    using assms
    by (simp add: local_queue_def queue_opt_from_list_def queue_opt_default_def MAX_BUFFER_LEN_def
        MIN_BUFFER_LEN_def trait_variant_def expand_def stack_queue_default_def Let_def)
qed

theorem expansion_constructs_witness:
  "\<exists>sz. stack_queue_default None (sz :: 64 word) () \<noteq> None"
proof -
  have n: "next_power_of_two (64 :: 64 word) = 64"
    using next_power_of_two_exp [of 6, where 'w = 64] by simp
  have "\<exists>e :: (64 word, unit, string) expansion. local_queue (\<lambda>_. Inr ()) (\<lambda>_. Inr \<lparr>attrs = [()], self_ty = ''Echo'',
      trait_path = Some [''BatchReducer''], items = [ImplType ''Task'' ''usize'']\<rparr>)
      (\<lambda>_. Inr (Some 64) :: unit + 64 word option) () () = Inr e"
    by (simp add: local_queue_def queue_opt_from_list_def queue_opt_default_def MAX_BUFFER_LEN_def
        MIN_BUFFER_LEN_def trait_variant_def n)
  then obtain e :: "(64 word, unit, string) expansion" where "local_queue (\<lambda>_. Inr ()) (\<lambda>_. Inr \<lparr>attrs = [()],
      self_ty = ''Echo'', trait_path = Some [''BatchReducer''], items = [ImplType ''Task'' ''usize'']\<rparr>)
      (\<lambda>_. Inr (Some 64) :: unit + 64 word option) () () = Inr e" by blast
  from expansion_constructs [OF this, of None "()"] show ?thesis by blast
qed

theorem cross_compiled_size_rejected_witness:
  "\<exists>e. local_queue (\<lambda>_. Inr ()) (\<lambda>_. Inr \<lparr>attrs = [()], self_ty = ''Echo'', trait_path = Some [''TaskQueue''],
      items = [ImplType ''Task'' ''usize'']\<rparr>) (\<lambda>_. Inr (Some 65536) :: unit + 64 word option) () () = Inr e \<and>
    (\<forall>lq\<in>set (exp_impls e). stack_queue_default None (ucast (impl_size lq) :: 32 word) () = None)"
  by (rule cross_compiled_size_rejected) (rule refl)+

end
