(* ===== verification/Spec2Isabelle.thy ===== *)
theory Spec2Isabelle
  imports Delivery DataRaces FlagViews Unwinding Programs Benchmarks Executor TaskExecutor CancelledFutures NegotiationTest LocalQueueMacro
begin

text \<open>
  This library models \<^emph>\<open>stack-queue\<close>, a Rust crate of thread-local queues that batch the tasks pushed
  to them, and the macro \<open>local_queue\<close> of its companion crate \<open>derive-stack-queue\<close>.

  \<^bold>\<open>The program.\<close> Each queue belongs to the thread that pushes to it. Its shared part, \<open>Inner\<close>, has a
  circular buffer of \<open>N\<close> cells (a power of two), a word \<open>slot\<close> (a counter of the tasks pushed, and in
  its lowest bit the phase), a word \<open>occupancy\<close> (8 counters of 8 bits, for the running batches by the
  eighth of the buffer, the region, they started in) and a deque of wakers. A push checks the region
  it enters, writes its cell and advances the slot with one atomic addition; if the phase has
  changed since the owner last looked, the task opens a new batch, whose handle is given to the
  caller. Whoever holds the handle bounds the batch by toggling the phase, takes its tasks, and
  releases its region; the last release wakes the wakers of pushes that were refused. A task of a
  \<open>TaskQueue\<close> has a future, \<open>BatchedTask\<close>, with a receiver for its value; resolver and receiver
  negotiate over three flags in a word of the cell, because either may go first.

  \<^bold>\<open>Theories.\<close> In the order of import:
  \<^item> \<open>Prelude\<close>: faults, \<open>usize\<close> operations, the arithmetic of words and circular buffers, and the locale
    \<open>simulation\<close>: the runs of one system seen as runs of another.
  \<^item> \<open>Helpers\<close>: \<open>helpers.rs\<close> and the constants of \<open>lib.rs\<close>, generic in the width of \<open>usize\<close>; what they
    are on 64 bits; that the masks of the regions overlap on 32 bits.
  \<^item> \<open>Occupancy\<close> and \<open>Slot\<close>: the contracts of the two words as the locales \<open>regional_occupancy\<close> and
    \<open>slot_word\<close>, interpreted on the operations of the 64-bit target (\<open>occ64\<close>, \<open>slot64\<close>).
  \<^item> \<open>Queue\<close>: \<open>queue.rs\<close>: the records \<open>inner\<close> and \<open>stack_queue\<close>, the accessors that give a cell or a cached
    word to a closure, construction, \<open>push\<close>, \<open>enqueue\<close> and \<open>deoccupy_region\<close>, each on every branch; what
    overflows of a region's counter do.
  \<^item> \<open>Assignment\<close>: \<open>UnboundedRange\<close>, \<open>BoundedRange\<close> and \<open>BufferIter\<close> of \<open>assignment.rs\<close>, with their
    destructors. The locale \<open>range_consumer\<close> states what all ways to empty a batch share; \<open>emptying_agrees\<close> says
    when they come to the same result.
  \<^item> \<open>TaskRefs\<close>: \<open>TaskRef\<close>, \<open>Receiver\<close> and the destructor of \<open>BatchedTask\<close> from \<open>task.rs\<close>,
    \<open>PendingAssignment\<close> and \<open>TaskAssignment\<close> from \<open>assignment.rs\<close>; the traits that a \<open>TaskRef\<close> delegates to
    its task. The locale \<open>negotiation_word\<close> is the contract of the three flags.
  \<^item> \<open>Unwinding\<close>: \<open>TaskAssignment::map\<close> with a closure that may panic, and the destructors that unwinding
    runs.
  \<^item> \<open>Futures\<close>: \<open>poll\<close> of \<open>BatchedTask\<close>, \<open>BackgroundEnqueue\<close>, \<open>BatchReduce\<close> and \<open>BatchCollect\<close>,
    \<open>background_process\<close> and the provided methods of the traits; the round trip from the first poll of
    some futures to their values.
  \<^item> \<open>Interleaving\<close>: push and the holders of batches as steps of at most one atomic operation each, in
    any order; a holder bounds its batch and then takes the tasks with \<open>to_vec\<close>, iterates over them
    with a \<open>BufferIter\<close>, drops the range or the iterator, or takes them one cell after the other as a
    \<open>TaskAssignment\<close> does. One invariant, preserved by each step; \<open>Runs\<close> has what follows from it.
  \<^item> \<open>Views\<close> and \<open>DataRaces\<close>: the runs of \<open>Interleaving\<close> with the memory orderings of the atomic operations:
    the view of each thread, and the accesses to cells that race. The owner never races, nor does the take of
    the first task of a batch; the takes of the tasks that joined it do. \<open>FlagViews\<close> does the same for the
    race of \<open>Negotiation\<close> and the memory of a receiver.
  \<^item> \<open>Negotiation\<close>: the race between resolver and receiver of one task, step by step, with its
    invariant, up to the reuse of the cell by later tasks; the steps of either, run alone, are the
    code of \<open>TaskRefs\<close>.
  \<^item> \<open>TaskSystem\<close>: a \<open>TaskQueue\<close> at work: first polls on the thread of the queue, any number of batches
    being resolved or dropped, second polls and destructors of futures, all interleaved. Its steps
    combine the operations of \<open>Queue\<close>, \<open>TaskRefs\<close> and \<open>Futures\<close>; \<open>shared\<close> is what the queue sees of its
    state, and \<open>race_of\<close> (\<open>TaskRuns\<close>) what a single task does.
  \<^item> \<open>TaskRuns\<close>, \<open>TaskSteps\<close> and \<open>Delivery\<close>: the invariant of that system (each task is in a state its
    race reaches), that every step preserves it, and what follows: it refines \<open>Interleaving\<close> and, for
    each task, \<open>Negotiation\<close>; no access fails; every future of a resolved batch gets its own value; a
    resolver needs nobody else to finish.
  \<^item> \<open>OneBatch\<close>: a queue with no batch running, or one, and how each operation takes it from one state to
    the next; the programs of the theories that follow, which run on one thread, are never elsewhere.
  \<^item> \<open>Processing\<close>: what the users of a \<open>TaskQueue\<close> write, \<open>batch_process\<close>: its contract is the locale
    \<open>batch_processor\<close>, interpreted on the implementations that the crate has, with \<open>map\<close> and with
    \<open>resolve_with_iter\<close>; awaiting one task.
  \<^item> \<open>Programs\<close>: three tests of \<open>queue.rs\<close> as programs, for any number of tasks and any size.
  \<^item> \<open>Benchmarks\<close>: \<open>bench_tasks\<close> and the queue with timers of \<open>crates/bencher/src/stack_queue.rs\<close>.
  \<^item> \<open>Executor\<close>: \<open>it_batch_collects\<close> and \<open>it_batch_reduces\<close>: any number of \<open>BatchCollect\<close> or \<open>BatchReduce\<close>
    futures, polled when woken, in any order. The locale \<open>batch_future\<close> is what both kinds of future do
    with the queue.
  \<^item> \<open>TaskExecutor\<close>: \<open>it_process_tasks\<close>: any number of futures of a \<open>TaskQueue\<close>, polled when woken, and the
    batches they spawn processed, in any order.
  \<^item> \<open>CancelledFutures\<close>: what futures of a \<open>BatchReducer\<close> do when they are dropped, and reducers that panic;
    the futures of \<open>Executor\<close> when they are polled and dropped at will.
  \<^item> \<open>NegotiationTest\<close>: the \<open>loom\<close> test \<open>it_negotiates_receiver_drop\<close>, with its mutex and condition variable.
  \<^item> \<open>LocalQueueMacro\<close>: the macro, with every check and early return.
  \<^item> this theory: properties that span components.

  \<^bold>\<open>Conventions.\<close> A struct is a record, an enum a datatype, \<open>usize\<close> is \<open>'w word\<close>. A \<open>Result\<close> is a sum, and
  an operation whose misuse is undefined behaviour returns \<open>fault + \<dots>\<close>: \<open>UninitRead\<close> for reading a cell
  or a value that is not there, \<open>DanglingReceiver\<close> for a receiver that is gone, \<open>OutOfBounds\<close> for an
  unchecked index, \<open>Diverges\<close> for a loop that does not end (the model of a loop is a
  \<open>partial_function\<close>, and \<open>None\<close> its divergence). An operation takes the state that its references
  point at and returns the new one. On 64 bits \<open>mk_slot c p\<close> is the slot after \<open>c\<close> tasks in phase \<open>p\<close>,
  \<open>enc64\<close> the occupancy word of given counts, \<open>bounds64 a b\<close> the range of the tasks \<open>a\<close> to \<open>b - 1\<close>,
  \<open>region k i\<close> the region of cell \<open>i\<close> of \<open>2 ^ k\<close>; \<open>c\<close>, \<open>a\<close> and \<open>b\<close> are natural numbers, so the statements
  cover the wrap-around of the 32-bit counter in the words.

  \<^bold>\<open>Parameters.\<close> The deque of \<open>crossbeam-deque\<close> is a type with its \<open>push\<close> and \<open>steal\<close>; \<open>fifo_deque\<close> and
  \<open>steal_progress\<close> are what is used of it: wakers come out in the order they went in, and \<open>Retry\<close> is
  not answered for ever. \<open>needs_drop\<close> is a boolean. The closure of \<open>map\<close> is a function \<open>op\<close>; in
  \<open>TaskSystem\<close> its value may differ from future to future, so that closures with a state are covered. What clocks
  show in \<open>Benchmarks\<close> is given from outside. The parsers of \<open>syn\<close> and \<open>darling\<close> are arguments of the macro. \<open>tokio::spawn\<close> is not modelled; what is spawned is part of the result. \<open>await_task\<close> of
  \<open>Processing\<close> is a run with nothing else to do: poll, run what was spawned, poll when woken. The executors of
  the other programs may take what is ready in any order, and whatever holds is shown for every order;
  they poll a future only when it was woken, but in \<open>CancelledFutures\<close>, where they need not wait for that.

  \<^bold>\<open>Bounds.\<close> Sizes are \<open>2 ^ k\<close> with \<open>6 \<le> k < 32\<close>, what construction accepts. The interleavings are
  those in which at most 255 running batches start in the same region (\<open>limited_reachable\<close>): up to
  \<open>k = 10\<close>, the default size of 1024, a region has at most 128 cells and these are all interleavings
  (\<open>limited_if_small\<close>); from \<open>k = 11\<close> on its 8-bit counter can overflow, and
  \<open>last_region_overflow_lost\<close> shows what happens.
  Destructors and \<open>BufferIter\<close> are shown correct for batches in which the 32-bit counter does not
  wrap around: \<open>emptying_agrees\<close> shows that exactly for these they do what \<open>to_vec\<close> does, and
  \<open>wrapped_batch_is_empty_for_iter\<close> that they lose the batch otherwise. So what is said of
  \<open>BatchReduce\<close> futures and of programs that iterate is for fewer than \<open>2 ^ 32\<close> tasks. Within the limit of 255 batches,
  \<open>every_task_once\<close> shows that nothing else is ever lost. The interleavings are for tasks that need
  dropping; for others the destructors leave the cells alone, and nothing is taken from them.
  In \<open>TaskSystem\<close> an address is used for one future, an enqueued future is polled again only after it
  was woken, and dropped only while its cell is still its own, and likewise in \<open>Negotiation\<close> and \<open>FlagViews\<close>, where
  the destructor begins before the cell is reused: what the code needs but does not check, as
  \<open>early_second_poll_is_uninit\<close> and \<open>stale_receiver_marks_new_task\<close> show. Loops of the code are
  \<open>partial_function\<close>s or recursion over lists; no fuel is used. (\<open>sum_reducer\<close> and \<open>send_each\<close> call \<open>next\<close> at
  most \<open>2 ^ k + 1\<close> times, and a batch has at most \<open>2 ^ k\<close> tasks.) An executor with \<open>n\<close> futures of a \<open>BatchReducer\<close>
  comes to its end after at most \<open>2 * n * (n + 1) + n\<close> polls, one with \<open>n\<close> futures of a \<open>TaskQueue\<close> after
  \<open>3 * n * (n + 1) + n\<close> steps.

  \<^bold>\<open>Not modelled.\<close> Weak memory beyond data races: in \<open>Views\<close> and \<open>FlagViews\<close> the memory
  orderings decide what happens before what, while the values read are always those of the interleaving. A release is one
  step of \<open>Interleaving\<close> and \<open>TaskSystem\<close>: other threads do not come between its \<open>fetch_sub\<close> and the wakers it takes from
  the deque. The
  \<open>loom\<close> variants of the accessors, \<open>Send\<close> and \<open>Sync\<close>, \<open>foreign_key_column\<close> of \<open>diesel\<close>, \<open>with_blocking\<close> (a handle moved to another
  thread), unwinding out of user code other than the closure of \<open>map\<close> and reducers, the tests that need a
  multi-threaded runtime (they are runs of \<open>TaskSystem\<close>), the loops of \<open>bench_batching\<close> over \<open>join_all\<close> and
  the benchmarks of other crates. In \<open>TaskSystem\<close>, \<open>resolve_with_iter\<close> with an iterator that is too short.

  \<^bold>\<open>Deviations shown.\<close> Besides the two above: on 32 bits the regions overlap
  (\<open>region_masks_overlap_32\<close>, \<open>region_reported_free_32\<close>); a task that joins a running batch is a data race
  (\<open>joined_task_races\<close>); a waker may be parked after the last wake-up
  (\<open>lost_wakeup\<close>); a future polled again too early reads uninitialised memory
  (\<open>early_second_poll_is_uninit\<close>); a destructor that is slow forgets the value when its cell is reused
  (\<open>value_leaked_on_reuse\<close>) and frees the receiver in a data race (\<open>spinning_destructor_races\<close>); a
  panic in \<open>map\<close> drops tasks twice (\<open>map_panic_drops_twice\<close>); the futures of a dropped assignment wait for ever (\<open>dropped_batch_waits\<close>); the wakers of dropped futures use up the
  wake-ups of others (\<open>cancelled_wakers_strand\<close>); a resolved future that is dropped late disturbs the task that
  reused its cell (\<open>stale_receiver_marks_new_task\<close>, \<open>stale_receiver_spins\<close>); a set value is leaked if
  the type of tasks needs no drop (\<open>batched_task_drop_spec\<close>, \<open>race_outcome\<close>); tasks beyond the end of
  the iterator are forgotten (\<open>resolve_with_iter_spec\<close>); a cross-compiling macro accepts sizes that
  the target rejects (\<open>cross_compiled_size_rejected\<close>); the benchmark of \<open>BackgroundQueue\<close> drops receivers whose
  values may still be sent, and then a batch panics (\<open>timer_batch_sends\<close>).
\<close>

section \<open>From the declaration of a queue to its runs\<close>

text \<open>
  C23. A queue that the macro declares with at most 1024 cells, which is the default size, is safe
  however its owner and the holders of its batches interleave: no batch reads a cell without a
  task, the batches cover exactly the tasks that were pushed, in order, and as long as these are
  less than \<open>2 ^ 32\<close> the batches give out exactly them.
\<close>

theorem declared_queue_safe:
  assumes "local_queue parse_meta_list parse_item from_list args input = Inr (e :: (64 word, 'a, 'ty) expansion)"
    and "lq \<in> set (exp_impls e)" "impl_size lq \<le> 1024"
    and "sys_reachable dpush steal (impl_size lq) d s"
  shows "\<not> failed s \<and> concat (map (batch_range (log s)) (batches s)) = log s \<and>
    (length (log s) < 2 ^ 32 \<longrightarrow> concat (map (batch_tasks (log s)) (batches s)) = log s)"
proof -
  obtain k where k: "6 \<le> k" "k < 32" "impl_size lq = 2 ^ k"
    using expansion_sizes [OF assms(1,2)] by blast
  have "(2::nat) ^ k \<le> 2 ^ 10" using assms(3) k(2) by (simp add: k(3) word_le_nat_alt unat_exp)
  then have "k \<le> 10" by (simp only: power_increasing_iff one_less_numeral_iff semiring_norm)
  with assms(4) k have "sys_inv k s" by (intro sys_inv_reachable) simp_all
  then show ?thesis using batches_concat [of k s] by (simp add: sys_inv_def)
qed

theorem declared_queue_safe_witness:
  "\<exists>(e :: (64 word, unit, string) expansion) lq (s :: (nat, string list, string) system).
    local_queue (\<lambda>_. Inr ())
      (\<lambda>_. Inr \<lparr>attrs = [()], self_ty = ''Sum'', trait_path = Some [''BatchReducer''], items = [ImplType ''Task'' ''usize'']\<rparr>)
      (\<lambda>_. Inr (Some 64) :: unit + 64 word option) () () = Inr e \<and> lq \<in> set (exp_impls e) \<and>
    sys_reachable list_push list_steal (impl_size lq) [] s \<and> length (log s) = 3 \<and>
    \<not> failed s \<and> concat (map (batch_tasks (log s)) (batches s)) = log s"
proof -
  let ?item = "\<lparr>attrs = [()], self_ty = ''Sum'', trait_path = Some [''BatchReducer''], items = [ImplType ''Task'' ''usize'']\<rparr>"
  let ?lq = "local_queue (\<lambda>_. Inr ()) (\<lambda>_. Inr ?item) (\<lambda>_. Inr (Some 64) :: unit + 64 word option) () ()"
  have n: "next_power_of_two (64 :: 64 word) = 64"
    using next_power_of_two_exp [of 6, where 'w = 64] by simp
  define e :: "(64 word, unit, string) expansion" where
    "e = expand (?item\<lparr>attrs := []\<rparr>) 64 (BufferCellOf ''usize'')"
  have e: "?lq = Inr e"
    by (simp add: local_queue_def queue_opt_from_list_def queue_opt_default_def MAX_BUFFER_LEN_def
        MIN_BUFFER_LEN_def trait_variant_def buffer_cell_type_def n e_def)
  have impls: "\<forall>lq\<in>set (exp_impls e). impl_size lq = 64" "exp_impls e \<noteq> []"
    by (simp_all add: e_def expand_def Let_def)
  then obtain lq where lq: "lq \<in> set (exp_impls e)" "impl_size lq = 64" by (cases "exp_impls e") auto
  obtain s :: "(nat, string list, string) system" where
    "sys_reachable list_push list_steal (2 ^ 6) [] s" "length (log s) = 3" using three_reachable by blast
  then have s: "sys_reachable list_push list_steal (impl_size lq) [] s" "length (log s) = 3" by (simp_all add: lq(2))
  have "impl_size lq \<le> 1024" by (simp add: lq(2))
  from declared_queue_safe [OF e lq(1) this s(1)] s e lq(1) show ?thesis
    by (intro exI [of _ e] exI [of _ lq] exI [of _ s]) simp
qed

end
